(* ===== verification/Prelude.thy ===== *)
theory Prelude
  imports Main "HOL-Library.Word" "HOL-Library.Monad_Syntax"
begin

text \<open>
  Shared ground of the development: the machine types, the byte-addressed memory of the
  LPC17xx with its little-endian accesses, and the generic lemmas on words and lists that
  the component theories use. Nothing here models a line of the program; it is the part of
  the C semantics (loads, stores, struct layout) that the program uses.
\<close>

unbundle bit_operations_syntax

type_synonym u8 = "8 word"
type_synonym u16 = "16 word"
type_synonym u32 = "32 word"

text \<open>The memory of the machine: one byte per 32-bit address.\<close>

type_synonym mem = "u32 \<Rightarrow> u8"

named_theorems mem_simps \<open>loads and stores of aligned words\<close>
named_theorems align_simps \<open>word alignment of addresses\<close>

subsection \<open>Aligned 32-bit accesses\<close>

definition load32 :: "mem \<Rightarrow> u32 \<Rightarrow> u32" where
  "load32 m p = ucast (m p) OR push_bit 8 (ucast (m (p + 1)))
     OR push_bit 16 (ucast (m (p + 2))) OR push_bit 24 (ucast (m (p + 3)))"

definition store32 :: "u32 \<Rightarrow> u32 \<Rightarrow> mem \<Rightarrow> mem" where
  "store32 p v m = m(p := ucast v, p + 1 := ucast (drop_bit 8 v),
     p + 2 := ucast (drop_bit 16 v), p + 3 := ucast (drop_bit 24 v))"

definition aligned4 :: "u32 \<Rightarrow> bool" where
  "aligned4 p \<longleftrightarrow> p AND 3 = 0"


lemma load32_store32_same [mem_simps, simp]: "load32 (store32 p v m) p = v"
proof -
  have ne: "p + 1 \<noteq> p" "p + 2 \<noteq> p" "p + 3 \<noteq> p" "p + 2 \<noteq> p + 1" "p + 3 \<noteq> p + 1" "p + 3 \<noteq> p + 2"
    by simp_all
  show ?thesis
  proof (rule bit_word_eqI)
    fix n assume n: "n < LENGTH(32)"
    then consider "n < 8" | "8 \<le> n \<and> n < 16" | "16 \<le> n \<and> n < 24" | "24 \<le> n \<and> n < 32"
      by fastforce
    then show "bit (load32 (store32 p v m) p) n \<longleftrightarrow> bit v n"
      unfolding load32_def store32_def
      by cases (simp_all add: ne bit_simps, auto)
  qed
qed

lemma aligned4_iff_mod: "aligned4 p \<longleftrightarrow> unat p mod 4 = 0"
proof -
  have "p AND 3 = take_bit 2 p"
    by (simp add: take_bit_eq_mask mask_eq_exp_minus_1)
  then have "p AND 3 = p mod 4"
    by (simp add: take_bit_eq_mod)
  then show ?thesis
    by (simp add: aligned4_def unat_mod unat_eq_zero [symmetric])
qed

lemma aligned4_iff_dvd: "aligned4 p \<longleftrightarrow> 4 dvd unat p"
  by (simp add: aligned4_iff_mod dvd_eq_mod_eq_0)

lemma aligned4_add [align_simps]: "aligned4 p \<Longrightarrow> aligned4 q \<Longrightarrow> aligned4 (p + q)"
  by (simp add: aligned4_iff_dvd unat_word_ariths dvd_mod)

lemma aligned4_4 [align_simps, simp]: "aligned4 4"
  by (simp add: aligned4_def)

lemma aligned4_of_nat [align_simps]: "4 dvd n \<Longrightarrow> aligned4 (of_nat n)"
  by (simp add: aligned4_iff_mod unat_of_nat mod_mod_cancel)

text \<open>Two different aligned words do not share a byte.\<close>

lemma aligned4_no_overlap:
  assumes "aligned4 p" "aligned4 q" "p \<noteq> q" "i < 4" "j < 4"
  shows "p + of_nat i \<noteq> q + of_nat j"
proof
  assume eq: "p + of_nat i = q + of_nat j"
  have off: "unat (r + of_nat k) = unat r + k" if "aligned4 r" "k < 4" for r :: u32 and k
  proof -
    have "unat r < 2 ^ 32" using unsigned_less [of r] by simp
    moreover from that(1) obtain c where "unat r = 4 * c"
      by (auto simp: aligned4_iff_mod)
    ultimately have "unat r + k < 2 ^ 32" using that(2) by simp
    moreover have "unat (of_nat k :: u32) = k"
      using that(2) by (simp add: unat_of_nat)
    ultimately show ?thesis
      by (simp add: unat_word_ariths)
  qed
  from eq have "unat p + i = unat q + j"
    using off assms by metis
  with assms have "unat p = unat q"
    by (auto simp: aligned4_iff_mod) presburger
  then have "p = q" by (simp add: word_unat_eq_iff)
  with \<open>p \<noteq> q\<close> show False by simp
qed

lemma load32_store32_other [mem_simps]:
  assumes "aligned4 p" "aligned4 q" "p \<noteq> q"
  shows "load32 (store32 p v m) q = load32 m q"
proof -
  note no = aligned4_no_overlap [OF assms]
  have ne: "q + of_nat j \<noteq> p + of_nat i" if "i < 4" "j < 4" for i j
    using no [OF that] by (rule not_sym)
  have "store32 p v m (q + of_nat j) = m (q + of_nat j)" if "j < 4" for j
    using that ne [of 0 j] ne [of 1 j] ne [of 2 j] ne [of 3 j]
    by (simp add: store32_def)
  from this [of 0] this [of 1] this [of 2] this [of 3] show ?thesis
    by (simp add: load32_def)
qed

lemma load32_store32 [mem_simps]:
  "aligned4 p \<Longrightarrow> aligned4 q \<Longrightarrow>
     load32 (store32 p v m) q = (if p = q then v else load32 m q)"
  by (simp add: load32_store32_other)

text \<open>A store changes the four bytes of its word and no other.\<close>

lemma store32_frame [mem_simps]:
  assumes "4 \<le> x - p"
  shows "store32 p v m x = m x"
proof -
  have "x \<noteq> p" "x \<noteq> p + 1" "x \<noteq> p + 2" "x \<noteq> p + 3"
    using assms by (auto simp: word_le_nat_alt)
  then show ?thesis
    by (simp add: store32_def)
qed

text \<open>Byte \<open>x\<close> lies in the \<open>n\<close> bytes that start at \<open>p\<close>.\<close>

definition in_range :: "u32 \<Rightarrow> nat \<Rightarrow> u32 \<Rightarrow> bool" where
  "in_range p n x \<longleftrightarrow> unat (x - p) < n"

lemma store32_frame_range: "\<not> in_range p 4 x \<Longrightarrow> store32 p v m x = m x"
  by (rule store32_frame) (simp add: in_range_def word_le_nat_alt)

lemma in_range_sub:
  assumes "in_range (p + of_nat k) n x" "k + n \<le> l" "l \<le> 2 ^ 32"
  shows "in_range p l x"
proof -
  have "unat (of_nat k :: u32) \<le> k"
    by (simp add: unat_of_nat)
  moreover have "unat ((x - (p + of_nat k)) + of_nat k) \<le> unat (x - (p + of_nat k)) + unat (of_nat k :: u32)"
    by (subst unat_word_ariths) simp
  moreover have "(x - (p + of_nat k)) + of_nat k = x - p"
    by simp
  ultimately show ?thesis
    using assms by (simp add: in_range_def)
qed

subsection \<open>Addresses as numbers\<close>

text \<open>
  Block and node addresses are natural numbers in the specifications; \<open>of_nat\<close> turns
  them into the 32-bit addresses the code computes with.
\<close>

lemma unat_bound: "unat (w :: u32) < 2 ^ 32"
  using unsigned_less [of w] by simp

lemma of_nat_eq_u32 [simp]:
  "a < 2 ^ 32 \<Longrightarrow> b < 2 ^ 32 \<Longrightarrow> (of_nat a :: u32) = of_nat b \<longleftrightarrow> a = b"
  by (simp add: word_unat_eq_iff unat_of_nat)

lemma unat_of_nat_u32 [simp]: "a < 2 ^ 32 \<Longrightarrow> unat (of_nat a :: u32) = a"
  by (simp add: unat_of_nat)

lemma of_nat_less_u32 [simp]:
  "a < 2 ^ 32 \<Longrightarrow> b < 2 ^ 32 \<Longrightarrow> (of_nat a :: u32) < of_nat b \<longleftrightarrow> a < b"
  by (simp add: word_less_nat_alt)

lemma of_nat_le_u32 [simp]:
  "a < 2 ^ 32 \<Longrightarrow> b < 2 ^ 32 \<Longrightarrow> (of_nat a :: u32) \<le> of_nat b \<longleftrightarrow> a \<le> b"
  by (simp add: word_le_nat_alt)

lemma of_nat_diff_u32: "b \<le> a \<Longrightarrow> (of_nat a :: u32) - of_nat b = of_nat (a - b)"
  by (simp add: of_nat_diff)

lemma in_range_of_nat:
  assumes "a + n \<le> 2 ^ 32"
  shows "in_range (of_nat a) n x \<longleftrightarrow> a \<le> unat x \<and> unat x < a + n"
proof (cases "n = 0")
  case True
  then show ?thesis by (simp add: in_range_def)
next
  case False
  then have a: "unat (of_nat a :: u32) = a"
    using assms by simp
  show ?thesis
  proof (cases "a \<le> unat x")
    case True
    then have "unat (x - of_nat a) = unat x - a"
      using a by (simp add: unat_sub word_le_nat_alt)
    then show ?thesis using True False by (auto simp: in_range_def)
  next
    case False
    then have "unat (x - of_nat a) = 2 ^ 32 + unat x - a"
      using a by (simp add: unat_sub_if_size word_size)
    then show ?thesis using False assms by (auto simp: in_range_def)
  qed
qed

lemma load32_cong:
  assumes "\<And>x. in_range p 4 x \<Longrightarrow> m' x = m x"
  shows "load32 m' p = load32 m p"
proof -
  have "in_range p 4 p" "in_range p 4 (p + 1)" "in_range p 4 (p + 2)" "in_range p 4 (p + 3)"
    by (simp_all add: in_range_def)
  then show ?thesis
    by (simp add: load32_def assms)
qed

subsection \<open>Lists\<close>

lemma distinct_butlast_last: "distinct xs \<Longrightarrow> y \<in> set (butlast xs) \<Longrightarrow> y \<noteq> last xs"
  by (induction xs) (auto split: if_splits)

lemma map_remove1_inj:
  "inj_on f (set xs) \<Longrightarrow> a \<in> set xs \<Longrightarrow> map f (remove1 a xs) = remove1 (f a) (map f xs)"
  by (induction xs) (auto simp: inj_on_def)

text \<open>The allocation flag in bit 0 of an even number.\<close>

lemma even_or_1:
  assumes "even n"
  shows "(of_nat n :: u32) OR 1 = of_nat (Suc n)"
proof -
  have "(of_nat n :: u32) OR 1 = of_nat (n OR Suc 0)"
    by (subst of_nat_or_eq) simp
  also have "n OR Suc 0 = Suc n"
    using assms by (simp add: or_Suc_0_eq)
  finally show ?thesis .
qed


subsection \<open>Bytes, halfwords and blocks of memory\<close>

definition load16 :: "mem \<Rightarrow> u32 \<Rightarrow> u16" where
  "load16 m p = ucast (m p) OR push_bit 8 (ucast (m (p + 1)))"

definition store16 :: "u32 \<Rightarrow> u16 \<Rightarrow> mem \<Rightarrow> mem" where
  "store16 p v m = m(p := ucast v, p + 1 := ucast (drop_bit 8 v))"

definition store8 :: "u32 \<Rightarrow> u8 \<Rightarrow> mem \<Rightarrow> mem" where
  "store8 p v m = m(p := v)"

text \<open>The \<open>n\<close> bytes from \<open>p\<close> on, and writing a list of bytes.\<close>

fun read_bytes :: "mem \<Rightarrow> u32 \<Rightarrow> nat \<Rightarrow> u8 list" where
  "read_bytes m p 0 = []"
| "read_bytes m p (Suc n) = m p # read_bytes m (p + 1) n"

fun write_bytes :: "u32 \<Rightarrow> u8 list \<Rightarrow> mem \<Rightarrow> mem" where
  "write_bytes p [] m = m"
| "write_bytes p (b # bs) m = write_bytes (p + 1) bs (m(p := b))"

text \<open>The C library's \<open>memcpy\<close> and \<open>memset\<close> (for areas that do not overlap).\<close>

definition memcpy :: "u32 \<Rightarrow> u32 \<Rightarrow> nat \<Rightarrow> mem \<Rightarrow> mem" where
  "memcpy dst src n m = write_bytes dst (read_bytes m src n) m"

definition memset :: "u32 \<Rightarrow> u8 \<Rightarrow> nat \<Rightarrow> mem \<Rightarrow> mem" where
  "memset p v n m = write_bytes p (replicate n v) m"

lemma read_bytes_numeral [simp]:
  "read_bytes m p (numeral k) = m p # read_bytes m (p + 1) (pred_numeral k)"
  by (simp add: numeral_eq_Suc)

lemma length_read_bytes [simp]: "length (read_bytes m p n) = n"
  by (induction m p n rule: read_bytes.induct) auto

lemma read_bytes_nth: "i < n \<Longrightarrow> read_bytes m p n ! i = m (p + of_nat i)"
  by (induction m p n arbitrary: i rule: read_bytes.induct)
    (auto simp: nth_Cons algebra_simps split: nat.splits)

lemma read_bytes_cong: "(\<And>i. i < n \<Longrightarrow> m' (p + of_nat i) = m (p + of_nat i)) \<Longrightarrow> read_bytes m' p n = read_bytes m p n"
  by (rule nth_equalityI) (simp_all add: read_bytes_nth)

lemma offset_eq:
  "i < 2 ^ 32 \<Longrightarrow> j < 2 ^ 32 \<Longrightarrow> (p :: u32) + of_nat i = p + of_nat j \<longleftrightarrow> i = j"
  by simp

lemma write_bytes_nth:
  "length bs \<le> 2 ^ 32 \<Longrightarrow> i < length bs \<Longrightarrow> write_bytes p bs m (p + of_nat i) = bs ! i"
  and write_bytes_other:
  "length bs \<le> 2 ^ 32 \<Longrightarrow> (\<And>j. j < length bs \<Longrightarrow> x \<noteq> p + of_nat j) \<Longrightarrow> write_bytes p bs m x = m x"
proof -
  have *: "length bs \<le> 2 ^ 32 \<Longrightarrow>
    (\<forall>i < length bs. write_bytes p bs m (p + of_nat i) = bs ! i) \<and>
    (\<forall>x. (\<forall>j < length bs. x \<noteq> p + of_nat j) \<longrightarrow> write_bytes p bs m x = m x)"
  proof (induction bs arbitrary: p m)
    case (Cons b bs)
    have len: "length bs \<le> 2 ^ 32" using Cons.prems by simp
    have IH: "\<And>i. i < length bs \<Longrightarrow> write_bytes (p + 1) bs (m(p := b)) (p + 1 + of_nat i) = bs ! i"
      and IHx: "\<And>x. (\<forall>j < length bs. x \<noteq> p + 1 + of_nat j) \<Longrightarrow> write_bytes (p + 1) bs (m(p := b)) x = (m(p := b)) x"
      using Cons.IH [OF len, of "p + 1" "m(p := b)"] by blast+
    have "p \<noteq> p + 1 + of_nat j" if "j < length bs" for j
    proof
      assume "p = p + 1 + of_nat j"
      then have "p + of_nat 0 = p + of_nat (Suc j)" by simp
      then have "0 = Suc j" by (subst (asm) offset_eq) (use Cons.prems that in auto)
      then show False by simp
    qed
    then have p: "write_bytes (p + 1) bs (m(p := b)) p = b" using IHx [of p] by simp
    have "write_bytes p (b # bs) m (p + of_nat i) = (b # bs) ! i" if "i < length (b # bs)" for i
      using that p IH by (cases i) (auto simp: algebra_simps)
    moreover have "write_bytes p (b # bs) m x = m x" if "\<forall>j < length (b # bs). x \<noteq> p + of_nat j" for x
    proof -
      have "\<forall>j < length bs. x \<noteq> p + 1 + of_nat j" "x \<noteq> p"
        using that by (auto simp: algebra_simps dest: spec [of _ "Suc _"] spec [of _ 0])
      then show ?thesis using IHx [of x] by simp
    qed
    ultimately show ?case by blast
  qed simp
  show "length bs \<le> 2 ^ 32 \<Longrightarrow> i < length bs \<Longrightarrow> write_bytes p bs m (p + of_nat i) = bs ! i"
    and "length bs \<le> 2 ^ 32 \<Longrightarrow> (\<And>j. j < length bs \<Longrightarrow> x \<noteq> p + of_nat j) \<Longrightarrow> write_bytes p bs m x = m x"
    using * by auto
qed

lemma read_write_bytes: "length bs \<le> 2 ^ 32 \<Longrightarrow> read_bytes (write_bytes p bs m) p (length bs) = bs"
  by (rule nth_equalityI) (simp_all add: read_bytes_nth write_bytes_nth)

lemma write_bytes_frame:
  assumes "length bs \<le> 2 ^ 32" "\<not> in_range p (length bs) x"
  shows "write_bytes p bs m x = m x"
proof (rule write_bytes_other [OF assms(1)])
  fix j assume j: "j < length bs"
  show "x \<noteq> p + of_nat j"
  proof
    assume "x = p + of_nat j"
    then have "unat (x - p) \<le> j" by (simp add: unat_of_nat)
    with j assms(2) show False by (simp add: in_range_def)
  qed
qed

lemma read_bytes_append: "read_bytes m p (n + k) = read_bytes m p n @ read_bytes m (p + of_nat n) k"
  by (induction m p n rule: read_bytes.induct) (auto simp: algebra_simps)

lemma write_bytes_append:
  "write_bytes p (xs @ ys) m = write_bytes (p + of_nat (length xs)) ys (write_bytes p xs m)"
  by (induction xs arbitrary: p m) (simp_all add: add.assoc)


lemma memset_byte: "n \<le> 2 ^ 32 \<Longrightarrow> in_range p n x \<Longrightarrow> memset p v n m x = v"
  and memset_frame: "n \<le> 2 ^ 32 \<Longrightarrow> \<not> in_range p n x \<Longrightarrow> memset p v n m x = m x"
proof -
  show "memset p v n m x = v" if "n \<le> 2 ^ 32" "in_range p n x"
  proof -
    have "unat (x - p) < n" using that(2) by (simp add: in_range_def)
    then have "write_bytes p (replicate n v) m (p + of_nat (unat (x - p))) = v"
      using that(1) by (subst write_bytes_nth) auto
    then show ?thesis by (simp add: memset_def)
  qed
  show "memset p v n m x = m x" if "n \<le> 2 ^ 32" "\<not> in_range p n x"
    using that by (simp add: memset_def write_bytes_frame)
qed

lemma load32_zero:
  assumes "\<And>x. in_range p 4 x \<Longrightarrow> m x = 0"
  shows "load32 m p = 0"
proof -
  have "load32 m p = load32 (\<lambda>_. 0) p" by (rule load32_cong) (rule assms)
  also have "\<dots> = 0" by (simp add: load32_def)
  finally show ?thesis .
qed

end
