(* ===== verification/Linked_List.thy ===== *)
theory Linked_List
  imports Prelude
begin

text \<open>
  The intrusive circular doubly linked lists of \<open>list.c\<close> and \<open>list.h\<close>, over the byte memory.
  A \<open>struct list\<close> at address \<open>p\<close> has \<open>next\<close> at \<open>p\<close> and \<open>prev\<close> at \<open>p + 4\<close>; the list itself is
  its head node. \<open>dlist m h xs\<close> says that the list headed by \<open>h\<close> holds the nodes \<open>xs\<close> in
  \<open>next\<close> order with consistent back links; the lemmas show what each operation of \<open>list.c\<close>
  does to \<open>xs\<close> and that it changes no byte outside the nodes it links. The locale
  \<open>list_interface\<close> states that contract for the clients.
\<close>

unbundle bit_operations_syntax

subsection \<open>The operations of list.c\<close>

definition list_next :: "mem \<Rightarrow> u32 \<Rightarrow> u32" where
  "list_next m p = load32 m p"

definition list_prev :: "mem \<Rightarrow> u32 \<Rightarrow> u32" where
  "list_prev m p = load32 m (p + 4)"

definition set_list_next :: "u32 \<Rightarrow> u32 \<Rightarrow> mem \<Rightarrow> mem" where
  "set_list_next p v m = store32 p v m"

definition set_list_prev :: "u32 \<Rightarrow> u32 \<Rightarrow> mem \<Rightarrow> mem" where
  "set_list_prev p v m = store32 (p + 4) v m"

definition INIT_LIST :: "u32 \<Rightarrow> mem \<Rightarrow> mem" where
  "INIT_LIST p m = set_list_prev p p (set_list_next p p m)"

definition list_add_raw :: "u32 \<Rightarrow> u32 \<Rightarrow> u32 \<Rightarrow> mem \<Rightarrow> mem" where
  "list_add_raw new prv nxt m =
     (let m = set_list_prev nxt new m;
          m = set_list_prev new prv m;
          m = set_list_next new nxt m
      in set_list_next prv new m)"

definition list_add :: "u32 \<Rightarrow> u32 \<Rightarrow> mem \<Rightarrow> mem" where
  "list_add new head m = list_add_raw new head (list_next m head) m"

definition list_add_tail :: "u32 \<Rightarrow> u32 \<Rightarrow> mem \<Rightarrow> mem" where
  "list_add_tail new head m = list_add_raw new (list_prev m head) head m"

definition list_del :: "u32 \<Rightarrow> mem \<Rightarrow> mem" where
  "list_del entry m =
     (let m = set_list_next (list_prev m entry) (list_next m entry) m;
          m = set_list_prev (list_next m entry) (list_prev m entry) m;
          m = set_list_next entry 0 m
      in set_list_prev entry 0 m)"

definition list_splice :: "u32 \<Rightarrow> u32 \<Rightarrow> mem \<Rightarrow> mem" where
  "list_splice from_list head m =
     (let first = list_next m from_list;
          last_node = list_prev m from_list;
          m = set_list_prev first head m;
          m = set_list_next head first m;
          m = set_list_next last_node (list_next m head) m
      in set_list_prev (list_next m head) last_node m)"

definition list_empty :: "mem \<Rightarrow> u32 \<Rightarrow> bool" where
  "list_empty m head \<longleftrightarrow> list_next m head = head"

text \<open>The macro \<open>list_pop\<close>: the popped node, or \<open>NULL\<close>, and the new memory.\<close>

definition list_pop :: "u32 \<Rightarrow> mem \<Rightarrow> u32 \<times> mem" where
  "list_pop head m =
     (if list_empty m head then (0, m)
      else (let v = list_next m head in (v, list_del v m)))"

text \<open>
  The nodes \<open>list_for_each\<close> visits from \<open>pos\<close> on: \<open>None\<close> when the loop never comes back to the
  head.
\<close>

partial_function (option) list_visit :: "mem \<Rightarrow> u32 \<Rightarrow> u32 \<Rightarrow> u32 list option" where
  "list_visit m head pos =
     (if pos = head then Some []
      else do { ps \<leftarrow> list_visit m head (list_next m pos); Some (pos # ps) })"

definition list_for_each :: "mem \<Rightarrow> u32 \<Rightarrow> u32 list option" where
  "list_for_each m head = list_visit m head (list_next m head)"

subsection \<open>Well-formed lists\<close>

text \<open>Distinct aligned nodes that do not overlap.\<close>

definition nodes_ok :: "u32 list \<Rightarrow> bool" where
  "nodes_ok ps \<longleftrightarrow> distinct ps \<and> (\<forall>p \<in> set ps. aligned4 p \<and> p + 4 \<notin> set ps)"

text \<open>A chain of consistent links from \<open>p\<close> through \<open>xs\<close> to \<open>q\<close>.\<close>

fun lseg :: "mem \<Rightarrow> u32 \<Rightarrow> u32 list \<Rightarrow> u32 \<Rightarrow> bool" where
  "lseg m p [] q \<longleftrightarrow> list_next m p = q \<and> list_prev m q = p"
| "lseg m p (x # xs) q \<longleftrightarrow> list_next m p = x \<and> list_prev m x = p \<and> lseg m x xs q"

definition dlist :: "mem \<Rightarrow> u32 \<Rightarrow> u32 list \<Rightarrow> bool" where
  "dlist m h xs \<longleftrightarrow> nodes_ok (h # xs) \<and> lseg m h xs h"

lemma lseg_append [simp]:
  "lseg m p (xs @ x # ys) q \<longleftrightarrow> lseg m p xs x \<and> lseg m x ys q"
  by (induction xs arbitrary: p) auto

lemma lseg_next: "lseg m p xs q \<Longrightarrow> list_next m p = hd (xs @ [q])"
  by (cases xs) auto

lemma lseg_prev: "lseg m p xs q \<Longrightarrow> list_prev m q = last (p # xs)"
  by (induction xs arbitrary: p) auto

lemma lseg_cong:
  assumes "lseg m p xs q"
    and "\<And>x. x \<in> set (p # xs) \<Longrightarrow> list_next m' x = list_next m x"
    and "\<And>x. x \<in> set (xs @ [q]) \<Longrightarrow> list_prev m' x = list_prev m x"
  shows "lseg m' p xs q"
  using assms by (induction xs arbitrary: p) auto


lemma lseg_retarget:
  assumes "lseg m p xs q"
    and "\<And>x. x \<in> set (butlast (p # xs)) \<Longrightarrow> list_next m' x = list_next m x"
    and "\<And>x. x \<in> set xs \<Longrightarrow> list_prev m' x = list_prev m x"
    and "list_next m' (last (p # xs)) = n" and "list_prev m' n = last (p # xs)"
  shows "lseg m' p xs n"
  using assms by (induction xs arbitrary: p) (auto split: if_splits)

lemma lseg_resource:
  assumes "lseg m p xs q"
    and "\<And>x. x \<in> set xs \<Longrightarrow> list_next m' x = list_next m x"
    and "\<And>x. x \<in> set (tl (xs @ [q])) \<Longrightarrow> list_prev m' x = list_prev m x"
    and "list_next m' n = hd (xs @ [q])" and "list_prev m' (hd (xs @ [q])) = n"
  shows "lseg m' n xs q"
  using assms by (cases xs) (auto intro: lseg_cong)

subsection \<open>Reading fields after a store\<close>

definition node_set :: "u32 set \<Rightarrow> bool" where
  "node_set S \<longleftrightarrow> (\<forall>p \<in> S. aligned4 p \<and> p + 4 \<notin> S)"

lemma node_set_aligned: "node_set S \<Longrightarrow> p \<in> S \<Longrightarrow> aligned4 p"
  and node_set_apart: "node_set S \<Longrightarrow> p \<in> S \<Longrightarrow> q \<in> S \<Longrightarrow> p + 4 \<noteq> q"
  by (auto simp: node_set_def)

lemma nodes_ok_iff: "nodes_ok ps \<longleftrightarrow> distinct ps \<and> node_set (set ps)"
  by (simp add: nodes_ok_def node_set_def)

lemma list_fields [mem_simps]:
  assumes "node_set S" "p \<in> S" "q \<in> S"
  shows "list_next (set_list_next p v m) q = (if q = p then v else list_next m q)"
    and "list_next (set_list_prev p v m) q = list_next m q"
    and "list_prev (set_list_prev p v m) q = (if q = p then v else list_prev m q)"
    and "list_prev (set_list_next p v m) q = list_prev m q"
  using node_set_aligned [OF assms(1,2)] node_set_aligned [OF assms(1,3)]
    node_set_apart [OF assms] node_set_apart [OF assms(1,3,2)]
  by (auto simp: list_next_def list_prev_def set_list_next_def set_list_prev_def
      load32_store32 aligned4_add)

lemma list_add_raw_fields:
  assumes S: "node_set S" "p \<in> S" "q \<in> S" "n \<in> S" "x \<in> S" and "n \<noteq> p" "n \<noteq> q"
  shows "list_next (list_add_raw n p q m) x =
           (if x = p then n else if x = n then q else list_next m x)"
    and "list_prev (list_add_raw n p q m) x =
           (if x = n then p else if x = q then n else list_prev m x)"
  using assms by (simp_all add: list_add_raw_def Let_def list_fields [OF S(1)])

lemma list_del_fields:
  assumes S: "node_set S" "e \<in> S" "x \<in> S"
    and nb: "list_prev m e \<in> S" "list_next m e \<in> S" "list_prev m e \<noteq> e" "list_next m e \<noteq> e"
  shows "list_next (list_del e m) x =
           (if x = e then 0 else if x = list_prev m e then list_next m e else list_next m x)"
    and "list_prev (list_del e m) x =
           (if x = e then 0 else if x = list_next m e then list_prev m e else list_prev m x)"
  using assms by (auto simp: list_del_def Let_def list_fields [OF S(1)])

subsection \<open>What the operations do to the nodes of a list\<close>

lemma dlist_nodes_ok: "dlist m h xs \<Longrightarrow> nodes_ok (h # xs)"
  by (simp add: dlist_def)

lemma dlist_init: "aligned4 h \<Longrightarrow> dlist (INIT_LIST h m) h []"
  using list_fields [of "{h}" h h]
  by (simp add: dlist_def nodes_ok_def INIT_LIST_def node_set_def)

lemma dlist_insert:
  assumes "dlist m h (xs @ ys)" and ok: "nodes_ok (n # h # xs @ ys)"
  shows "dlist (list_add_raw n (last (h # xs)) (hd (ys @ [h])) m) h (xs @ n # ys)"
proof -
  let ?S = "set (n # h # xs @ ys)" and ?p = "last (h # xs)" and ?q = "hd (ys @ [h])"
  let ?m = "list_add_raw n ?p ?q m"
  have p: "?p \<in> set (h # xs)" by (rule last_in_set) simp
  have q: "?q \<in> set (ys @ [h])" by (rule hd_in_set) simp
  have S: "node_set ?S" and d: "distinct (n # h # xs @ ys)"
    using ok by (auto simp: nodes_ok_iff)
  have pS: "?p \<in> ?S" "?q \<in> ?S" "n \<in> ?S" "n \<noteq> ?p" "n \<noteq> ?q"
    using p q d by auto
  note f = list_add_raw_fields [OF S pS(1-3) _ pS(4,5), of _ m]
  have seg: "lseg m h xs ?q" "ys \<noteq> [] \<Longrightarrow> lseg m ?q (tl ys) h"
    using assms(1) by (cases ys; simp add: dlist_def)+
  have "lseg ?m h xs n"
  proof (rule lseg_retarget [OF seg(1)])
    fix x assume x: "x \<in> set (butlast (h # xs))"
    from x d have "x \<noteq> ?p"
      by (intro distinct_butlast_last) auto
    moreover from x have "x \<in> set (h # xs)" by (rule in_set_butlastD)
    moreover from this d have "x \<noteq> n" "x \<in> ?S" by auto
    ultimately show "list_next ?m x = list_next m x"
      using f(1) [of x] by (simp del: last.simps)
  next
    fix x assume x: "x \<in> set xs"
    with d q have "x \<noteq> ?q" "x \<noteq> n" by auto
    with x show "list_prev ?m x = list_prev m x" using f(2) [of x] by auto
  qed (use f pS in auto)
  moreover have "lseg ?m n ys h"
  proof (cases ys)
    case Nil
    with f pS show ?thesis by auto
  next
    case (Cons y zs)
    have "lseg ?m y zs h"
    proof (rule lseg_cong)
      show "lseg m y zs h" using seg(2) Cons by simp
    next
      fix x assume "x \<in> set (y # zs)"
      with d p Cons have "x \<noteq> ?p" "x \<noteq> n" "x \<in> ?S" by auto
      then show "list_next ?m x = list_next m x" using f(1) [of x] by auto
    next
      fix x assume "x \<in> set (zs @ [h])"
      with d Cons have "x \<noteq> ?q" "x \<noteq> n" "x \<in> ?S" by auto
      then show "list_prev ?m x = list_prev m x" using f(2) [of x] by auto
    qed
    with f pS Cons show ?thesis by auto
  qed
  ultimately show ?thesis
    using ok by (auto simp: dlist_def nodes_ok_def)
qed

lemma dlist_add:
  "dlist m h xs \<Longrightarrow> nodes_ok (n # h # xs) \<Longrightarrow> dlist (list_add n h m) h (n # xs)"
  using dlist_insert [of m h "[]" xs n]
  by (simp add: list_add_def dlist_def lseg_next [of m h xs h])

lemma dlist_add_tail:
  "dlist m h xs \<Longrightarrow> nodes_ok (n # h # xs) \<Longrightarrow> dlist (list_add_tail n h m) h (xs @ [n])"
  using dlist_insert [of m h xs "[]" n] lseg_prev [of m h xs h]
  by (simp add: list_add_tail_def dlist_def)

lemma dlist_del:
  assumes "dlist m h (xs @ e # ys)"
  shows "dlist (list_del e m) h (xs @ ys)"
proof -
  let ?S = "set (h # xs @ e # ys)" and ?p = "last (h # xs)" and ?q = "hd (ys @ [h])"
  let ?m = "list_del e m"
  have p: "?p \<in> set (h # xs)" by (rule last_in_set) simp
  have q: "?q \<in> set (ys @ [h])" by (rule hd_in_set) simp
  have S: "node_set ?S" and d: "distinct (h # xs @ e # ys)"
    using assms by (auto simp: dlist_def nodes_ok_iff)
  have seg: "lseg m h xs e" "lseg m e ys h"
    using assms by (auto simp: dlist_def)
  have pq: "list_prev m e = ?p" "list_next m e = ?q"
    using lseg_prev [OF seg(1)] lseg_next [OF seg(2)] by auto
  have pS: "?p \<in> ?S" "?q \<in> ?S" "?p \<noteq> e" "?q \<noteq> e"
    using p q d by auto
  note f = list_del_fields [OF S, of e _ m, unfolded pq, OF _ _ pS]
  have xs: "lseg ?m h xs ?q"
  proof (rule lseg_retarget [OF seg(1)])
    fix x assume x: "x \<in> set (butlast (h # xs))"
    from x d have "x \<noteq> ?p"
      by (intro distinct_butlast_last) auto
    moreover from x have "x \<in> set (h # xs)" by (rule in_set_butlastD)
    moreover from this d have "x \<noteq> e" "x \<in> ?S" by auto
    ultimately show "list_next ?m x = list_next m x"
      using f(1) [of x] by (simp del: last.simps)
  next
    fix x assume x: "x \<in> set xs"
    with d q have "x \<noteq> ?q" "x \<noteq> e" by auto
    with x show "list_prev ?m x = list_prev m x" using f(2) [of x] by auto
  qed (use f pS in auto)
  have "lseg ?m h (xs @ ys) h"
  proof (cases ys)
    case Nil
    with xs show ?thesis by simp
  next
    case (Cons y zs)
    have "lseg ?m y zs h"
    proof (rule lseg_cong)
      show "lseg m y zs h" using seg(2) Cons by simp
    next
      fix x assume "x \<in> set (y # zs)"
      with d p Cons have "x \<noteq> ?p" "x \<noteq> e" "x \<in> ?S" by auto
      then show "list_next ?m x = list_next m x" using f(1) [of x] by auto
    next
      fix x assume "x \<in> set (zs @ [h])"
      with d Cons have "x \<noteq> ?q" "x \<noteq> e" "x \<in> ?S" by auto
      then show "list_prev ?m x = list_prev m x" using f(2) [of x] by auto
    qed
    with xs Cons show ?thesis by simp
  qed
  then show ?thesis
    using assms by (auto simp: dlist_def nodes_ok_def)
qed

lemma dlist_empty: "dlist m h xs \<Longrightarrow> list_empty m h \<longleftrightarrow> xs = []"
  by (cases xs) (auto simp: dlist_def nodes_ok_def list_empty_def)

lemma list_visit_lseg:
  "lseg m p xs h \<Longrightarrow> h \<notin> set xs \<Longrightarrow> list_visit m h (list_next m p) = Some xs"
proof (induction xs arbitrary: p)
  case Nil
  then show ?case by (simp add: list_visit.simps)
next
  case (Cons x xs)
  then have "list_visit m h (list_next m x) = Some xs" by simp
  with Cons.prems show ?case
    by (subst list_visit.simps) auto
qed

lemma dlist_for_each: "dlist m h xs \<Longrightarrow> list_for_each m h = Some xs"
  by (auto simp: dlist_def nodes_ok_def list_for_each_def intro: list_visit_lseg)

subsection \<open>Frame: the bytes outside the linked nodes\<close>

definition node_bytes :: "u32 list \<Rightarrow> u32 \<Rightarrow> bool" where
  "node_bytes ps x \<longleftrightarrow> (\<exists>p \<in> set ps. in_range p 8 x)"

lemma in_range_node: "in_range p 4 x \<Longrightarrow> in_range p 8 x"
  and in_range_node4: "in_range (p + 4) 4 x \<Longrightarrow> in_range p 8 x"
  using in_range_sub [of p 0 4 x 8] in_range_sub [of p 4 4 x 8] by auto

lemma set_list_frame:
  assumes "\<not> in_range p 8 x"
  shows "set_list_next p v m x = m x" and "set_list_prev p v m x = m x"
  using assms in_range_node in_range_node4
  by (auto simp: set_list_next_def set_list_prev_def intro: store32_frame_range)

lemma list_add_raw_frame:
  "\<not> node_bytes [n, p, q] x \<Longrightarrow> list_add_raw n p q m x = m x"
  by (simp add: list_add_raw_def Let_def set_list_frame node_bytes_def)

lemma dlist_next_in: "dlist m h xs \<Longrightarrow> p \<in> set (h # xs) \<Longrightarrow> list_next m p \<in> set (h # xs)"
  and dlist_prev_in: "dlist m h xs \<Longrightarrow> p \<in> set (h # xs) \<Longrightarrow> list_prev m p \<in> set (h # xs)"
proof -
  assume "dlist m h xs" and p: "p \<in> set (h # xs)"
  then have seg: "lseg m h xs h" by (simp add: dlist_def)
  have nx: "lseg m a ys b \<Longrightarrow> p \<in> set (a # ys) \<Longrightarrow> list_next m p \<in> set (ys @ [b])" for a b ys
    by (induction ys arbitrary: a) auto
  have pv: "lseg m a ys b \<Longrightarrow> p \<in> set (ys @ [b]) \<Longrightarrow> list_prev m p \<in> set (a # ys)" for a b ys
    by (induction ys arbitrary: a) auto
  show "list_next m p \<in> set (h # xs)" using nx [OF seg p] by auto
  show "list_prev m p \<in> set (h # xs)" using pv [OF seg] p by auto
qed

lemma list_add_frame:
  assumes "dlist m h xs" "\<not> node_bytes (n # h # xs) x"
  shows "list_add n h m x = m x" and "list_add_tail n h m x = m x"
  using dlist_next_in [OF assms(1), of h] dlist_prev_in [OF assms(1), of h] assms(2)
  by (auto simp: list_add_def list_add_tail_def node_bytes_def intro!: list_add_raw_frame)

lemma list_del_frame:
  assumes dl: "dlist m h xs" "e \<in> set xs" and x: "\<not> node_bytes (h # xs) x"
  shows "list_del e m x = m x"
proof -
  let ?S = "set (h # xs)"
  have S: "node_set ?S" and e: "e \<in> ?S"
    using dl by (auto simp: dlist_def nodes_ok_iff)
  obtain ys zs where xs: "xs = ys @ e # zs"
    using dl(2) by (auto simp: in_set_conv_decomp)
  have "list_prev m e \<noteq> e"
    using dl lseg_prev [of m h ys e] unfolding xs
    by (auto simp: dlist_def nodes_ok_def split: if_splits)
  then have "list_prev (set_list_next (list_prev m e) (list_next m e) m) e = list_prev m e"
    "list_next (set_list_next (list_prev m e) (list_next m e) m) e = list_next m e"
    by (simp_all add: list_fields [OF S dlist_prev_in [OF dl(1) e] e])
  moreover have "\<not> in_range (list_prev m e) 8 x" "\<not> in_range (list_next m e) 8 x" "\<not> in_range e 8 x"
    using dlist_prev_in [OF dl(1) e] dlist_next_in [OF dl(1) e] e x
    by (auto simp: node_bytes_def)
  ultimately show ?thesis
    by (simp add: list_del_def Let_def set_list_frame)
qed

lemma list_fields_cong:
  assumes "\<And>x. in_range p 8 x \<Longrightarrow> m' x = m x"
  shows "list_next m' p = list_next m p" and "list_prev m' p = list_prev m p"
  using assms in_range_node in_range_node4
  by (auto simp: list_next_def list_prev_def intro!: load32_cong)

lemma dlist_cong:
  assumes "dlist m h xs" "\<And>x. node_bytes (h # xs) x \<Longrightarrow> m' x = m x"
  shows "dlist m' h xs"
proof -
  have eq: "list_next m' p = list_next m p" "list_prev m' p = list_prev m p"
    if "p \<in> set (h # xs)" for p
    using that assms(2) by (auto intro!: list_fields_cong simp: node_bytes_def)
  have "lseg m' h xs h"
    by (rule lseg_cong [of m]) (use assms(1) eq in \<open>auto simp: dlist_def\<close>)
  then show ?thesis using assms(1) by (simp add: dlist_def)
qed

lemma dlist_pop: "dlist m h (x # xs) \<Longrightarrow> list_pop h m = (x, list_del x m)"
  using dlist_empty [of m h "x # xs"] by (simp add: list_pop_def dlist_def Let_def)

lemma dlist_pop_empty: "dlist m h [] \<Longrightarrow> list_pop h m = (0, m)"
  using dlist_empty [of m h "[]"] by (simp add: list_pop_def)

subsection \<open>The interface the clients rely on\<close>

text \<open>Popping \<open>k\<close> times: the nodes returned, in order, and the final memory.\<close>

fun drain :: "(u32 \<Rightarrow> mem \<Rightarrow> u32 \<times> mem) \<Rightarrow> u32 \<Rightarrow> nat \<Rightarrow> mem \<Rightarrow> u32 list \<times> mem" where
  "drain pop h 0 m = ([], m)"
| "drain pop h (Suc k) m =
     (let (n, m1) = pop h m; (ns, m2) = drain pop h k m1 in (n # ns, m2))"

locale list_interface =
  fixes rep :: "mem \<Rightarrow> u32 \<Rightarrow> u32 list \<Rightarrow> bool"
    and init :: "u32 \<Rightarrow> mem \<Rightarrow> mem"
    and add :: "u32 \<Rightarrow> u32 \<Rightarrow> mem \<Rightarrow> mem"
    and add_tail :: "u32 \<Rightarrow> u32 \<Rightarrow> mem \<Rightarrow> mem"
    and del :: "u32 \<Rightarrow> mem \<Rightarrow> mem"
    and pop :: "u32 \<Rightarrow> mem \<Rightarrow> u32 \<times> mem"
    and visit :: "mem \<Rightarrow> u32 \<Rightarrow> u32 list option"
  assumes rep_ok: "rep m h xs \<Longrightarrow> nodes_ok (h # xs)"
    and rep_init: "aligned4 h \<Longrightarrow> rep (init h m) h []"
    and rep_add: "rep m h xs \<Longrightarrow> nodes_ok (n # h # xs) \<Longrightarrow> rep (add n h m) h (n # xs)"
    and rep_add_tail: "rep m h xs \<Longrightarrow> nodes_ok (n # h # xs) \<Longrightarrow> rep (add_tail n h m) h (xs @ [n])"
    and rep_del: "rep m h (xs @ e # ys) \<Longrightarrow> rep (del e m) h (xs @ ys)"
    and rep_pop: "rep m h (x # xs) \<Longrightarrow> pop h m = (x, del x m)"
    and rep_pop_Nil: "rep m h [] \<Longrightarrow> pop h m = (0, m)"
    and rep_visit: "rep m h xs \<Longrightarrow> visit m h = Some xs"
    and rep_cong: "rep m h xs \<Longrightarrow> (\<And>x. node_bytes (h # xs) x \<Longrightarrow> m' x = m x) \<Longrightarrow> rep m' h xs"
    and add_frame: "rep m h xs \<Longrightarrow> \<not> node_bytes (n # h # xs) x \<Longrightarrow> add n h m x = m x"
    and add_tail_frame: "rep m h xs \<Longrightarrow> \<not> node_bytes (n # h # xs) x \<Longrightarrow> add_tail n h m x = m x"
    and del_frame: "rep m h xs \<Longrightarrow> e \<in> set xs \<Longrightarrow> \<not> node_bytes (h # xs) x \<Longrightarrow> del e m x = m x"
begin

lemma rep_remove:
  assumes "rep m h xs" "e \<in> set xs"
  shows "rep (del e m) h (remove1 e xs)"
proof -
  from split_list_first [OF assms(2)] obtain ys zs where xs: "xs = ys @ e # zs" "e \<notin> set ys"
    by blast
  with rep_del [of m h ys e zs] assms(1) show ?thesis
    by (simp add: remove1_append)
qed

lemma rep_unique: "rep m h xs \<Longrightarrow> rep m h ys \<Longrightarrow> xs = ys"
  by (metis rep_visit option.inject)

lemma add_all:
  "rep m h xs \<Longrightarrow> nodes_ok (rev ns @ h # xs) \<Longrightarrow>
     rep (fold (\<lambda>n. add n h) ns m) h (rev ns @ xs)"
proof (induction ns arbitrary: m xs)
  case (Cons n ns)
  have "rep (add n h m) h (n # xs)"
    using Cons.prems by (intro rep_add) (auto simp: nodes_ok_def)
  with Cons.IH [of "add n h m" "n # xs"] Cons.prems(2) show ?case
    by (auto simp: nodes_ok_def)
qed simp

lemma add_tail_all:
  "rep m h xs \<Longrightarrow> nodes_ok (ns @ h # xs) \<Longrightarrow>
     rep (fold (\<lambda>n. add_tail n h) ns m) h (xs @ ns)"
proof (induction ns arbitrary: m xs)
  case (Cons n ns)
  have "rep (add_tail n h m) h (xs @ [n])"
    using Cons.prems by (intro rep_add_tail) (auto simp: nodes_ok_def)
  with Cons.IH [of "add_tail n h m" "xs @ [n]"] Cons.prems(2) show ?case
    by (auto simp: nodes_ok_def)
qed simp

lemma drain_rep: "rep m h (xs @ ys) \<Longrightarrow> fst (drain pop h (length xs) m) = xs"
proof (induction xs arbitrary: m)
  case (Cons x xs)
  have "rep (del x m) h (xs @ ys)"
    using rep_del [of m h "[]" x "xs @ ys"] Cons.prems by simp
  with Cons show ?case
    by (simp add: rep_pop split_beta)
qed simp

text \<open>Popping returns what was added at the head newest first, at the tail oldest first.\<close>

lemma add_drain_lifo:
  assumes "rep m h []" "nodes_ok (rev ns @ [h])"
  shows "fst (drain pop h (length ns) (fold (\<lambda>n. add n h) ns m)) = rev ns"
  using drain_rep [of _ h "rev ns" "[]"] add_all [OF assms] by simp

lemma add_tail_drain_fifo:
  assumes "rep m h []" "nodes_ok (ns @ [h])"
  shows "fst (drain pop h (length ns) (fold (\<lambda>n. add_tail n h) ns m)) = ns"
  using drain_rep [of _ h ns "[]"] add_tail_all [OF assms] by simp

lemma add_keeps_other:
  assumes "rep m h xs" "rep m k ys"
    and "\<And>x. node_bytes (k # ys) x \<Longrightarrow> \<not> node_bytes (n # h # xs) x"
  shows "rep (add n h m) k ys"
  using assms(2) by (rule rep_cong) (use assms add_frame in blast)

lemma del_keeps_other:
  assumes "rep m h xs" "rep m k ys" "e \<in> set xs"
    and "\<And>x. node_bytes (k # ys) x \<Longrightarrow> \<not> node_bytes (h # xs) x"
  shows "rep (del e m) k ys"
  using assms(2) by (rule rep_cong) (use assms del_frame in blast)

end

interpretation dl: list_interface dlist INIT_LIST list_add list_add_tail list_del list_pop list_for_each
  by unfold_locales
    (auto intro: dlist_nodes_ok dlist_init dlist_add dlist_add_tail dlist_del dlist_pop
      dlist_pop_empty dlist_for_each dlist_cong list_add_frame list_del_frame)

subsection \<open>Properties\<close>

text \<open>C26: \<open>list_add\<close> puts the new node first and \<open>list_add_tail\<close> puts it last; \<open>list_del\<close>
  unlinks exactly its node; each changes only bytes of the nodes of the list.\<close>

theorem list_ops_spec:
  assumes "dlist m h (xs @ e # ys)" "nodes_ok (n # h # xs @ e # ys)"
  shows "dlist (list_add n h m) h (n # xs @ e # ys)
    \<and> dlist (list_add_tail n h m) h (xs @ e # ys @ [n])
    \<and> dlist (list_del e m) h (xs @ ys)
    \<and> (\<forall>x. \<not> node_bytes (n # h # xs @ e # ys) x \<longrightarrow>
         list_add n h m x = m x \<and> list_add_tail n h m x = m x \<and> list_del e m x = m x)"
proof -
  have "dlist (list_add_tail n h m) h ((xs @ e # ys) @ [n])"
    using assms by (rule dl.rep_add_tail)
  moreover have "\<not> node_bytes (n # h # xs @ e # ys) x \<Longrightarrow> list_del e m x = m x" for x
    using assms(1) by (intro list_del_frame) (auto simp: node_bytes_def)
  ultimately show ?thesis
    using dl.rep_add [OF assms] dl.rep_del [OF assms(1)] list_add_frame [OF assms(1)] by auto
qed

lemma node_example: "nodes_ok [0x1010, 0x1000]" "nodes_ok [0x1020, 0x1010, 0x1000]"
  "nodes_ok [0x1020, 0x1000, 0x1010]"
  by (simp_all add: nodes_ok_def aligned4_def)

lemma list_ops_spec_witness:
  "\<exists>m. dlist m 0x1000 [0x1010] \<and> dlist (list_add_tail 0x1020 0x1000 m) 0x1000 [0x1010, 0x1020]
    \<and> dlist (list_del 0x1010 m) 0x1000 []"
proof -
  let ?m = "list_add 0x1010 0x1000 (INIT_LIST 0x1000 (\<lambda>_. 0))"
  have "dlist ?m 0x1000 ([] @ 0x1010 # [])"
    using dl.rep_add [OF dl.rep_init] node_example(1) by (simp add: aligned4_def)
  from list_ops_spec [OF this, of "0x1020"] this node_example(3) show ?thesis by auto
qed

text \<open>A list filled with \<open>list_add\<close> and emptied with \<open>list_pop\<close> is a stack: the nodes come
  out in the reverse of the order they went in. Every queue of the network stack (received
  packets, IPv4 and Ethernet transmissions) is used this way.\<close>

theorem list_add_pop_is_lifo:
  assumes "aligned4 h" "nodes_ok (rev ns @ [h])"
  shows "fst (drain list_pop h (length ns) (fold (\<lambda>n. list_add n h) ns (INIT_LIST h m))) = rev ns"
  using dl.rep_init [OF assms(1)] assms(2) by (rule dl.add_drain_lifo)

lemma list_add_pop_is_lifo_witness:
  "fst (drain list_pop 0x1000 2 (fold (\<lambda>n. list_add n 0x1000) [0x1010, 0x1020] (INIT_LIST 0x1000 (\<lambda>_. 0))))
    = [0x1020, 0x1010]"
  using list_add_pop_is_lifo [of "0x1000" "[0x1010, 0x1020]" "\<lambda>_. 0"] node_example(2)
  by (simp add: aligned4_def numeral_2_eq_2)

text \<open>With \<open>list_add_tail\<close>, as the run queue uses it, nodes come out in the order they went
  in.\<close>

theorem list_add_tail_pop_is_fifo:
  assumes "aligned4 h" "nodes_ok (ns @ [h])"
  shows "fst (drain list_pop h (length ns) (fold (\<lambda>n. list_add_tail n h) ns (INIT_LIST h m))) = ns"
  using dl.rep_init [OF assms(1)] assms(2) by (rule dl.add_tail_drain_fifo)

lemma list_add_tail_pop_is_fifo_witness:
  "fst (drain list_pop 0x1000 2 (fold (\<lambda>n. list_add_tail n 0x1000) [0x1020, 0x1010] (INIT_LIST 0x1000 (\<lambda>_. 0))))
    = [0x1020, 0x1010]"
  using list_add_tail_pop_is_fifo [of "0x1000" "[0x1020, 0x1010]" "\<lambda>_. 0"] node_example(2)
  by (simp add: aligned4_def numeral_2_eq_2)

subsection \<open>list_splice\<close>

lemma list_visit_trapped:
  assumes "list_visit m h p = Some r"
  shows "\<forall>S. h \<notin> S \<longrightarrow> (\<forall>q \<in> S. list_next m q \<in> S) \<longrightarrow> p \<notin> S"
proof (rule list_visit.raw_induct [where P = "\<lambda>m h p r. \<forall>S. h \<notin> S \<longrightarrow> (\<forall>q \<in> S. list_next m q \<in> S) \<longrightarrow> p \<notin> S", OF _ assms])
  fix f m h p r
  assume IH: "\<And>m h p r. f m h p = Some r \<Longrightarrow> \<forall>S. h \<notin> S \<longrightarrow> (\<forall>q \<in> S. list_next m q \<in> S) \<longrightarrow> p \<notin> S"
    and eq: "(if p = h then Some [] else do { ps \<leftarrow> f m h (list_next m p); Some (p # ps) }) = Some r"
  show "\<forall>S. h \<notin> S \<longrightarrow> (\<forall>q \<in> S. list_next m q \<in> S) \<longrightarrow> p \<notin> S"
  proof (cases "p = h")
    case False
    with eq obtain ps where "f m h (list_next m p) = Some ps"
      by (auto split: bind_splits)
    from IH [OF this] show ?thesis by blast
  qed simp
qed

lemma lseg_next_inside:
  "lseg m p xs q \<Longrightarrow> distinct (p # xs) \<Longrightarrow> x \<in> set (p # xs) \<Longrightarrow> x \<noteq> last (p # xs) \<Longrightarrow>
     list_next m x \<in> set xs"
  by (induction xs arbitrary: p) (auto split: if_splits)

lemma list_splice_next:
  assumes S: "node_set S" and "list_next m f \<in> S" "list_prev m f \<in> S" "h \<in> S" "x \<in> S"
    and "list_prev m f \<noteq> h"
  shows "list_next (list_splice f h m) x =
    (if x = h \<or> x = list_prev m f then list_next m f else list_next m x)"
  using assms by (auto simp: list_splice_def Let_def list_fields [OF S])

text \<open>C32: splicing a non-empty list breaks the target: after \<open>list_splice\<close> the last spliced node
  points back at the first one and the target's own nodes are lost, so a traversal of the target
  never gets back to its head. (The code re-reads \<open>head->next\<close> after overwriting it.)\<close>

theorem list_splice_breaks_target:
  assumes "dlist m f (a # as)" "dlist m h xs"
    and "nodes_ok (f # a # as @ h # xs)"
  shows "list_for_each (list_splice f h m) h = None"
proof -
  let ?m = "list_splice f h m" and ?S = "set (f # a # as @ h # xs)" and ?l = "last (a # as)"
  have seg: "lseg m f (a # as) f" and S: "node_set ?S"
    and d: "distinct (f # a # as @ h # xs)"
    using assms by (auto simp: dlist_def nodes_ok_iff)
  have ends: "list_next m f = a" "list_prev m f = ?l"
    using seg lseg_prev [OF seg] by auto
  have l: "?l \<in> set (a # as)" by (rule last_in_set) simp
  have hl: "?l \<noteq> h" "?l \<in> ?S" "a \<in> ?S" "h \<in> ?S" using l d by auto
  have nx: "list_next ?m x = (if x = h \<or> x = ?l then a else list_next m x)" if "x \<in> ?S" for x
    using list_splice_next [OF S, of m f h x, unfolded ends, OF hl(3,2,4) that hl(1)] .
  have "list_next ?m q \<in> set (a # as)" if "q \<in> set (a # as)" for q
    using that nx [of q] d lseg_next_inside [of m a as f q] seg by (auto split: if_splits)
  moreover have "h \<notin> set (a # as)" using d by auto
  ultimately have "a \<notin> set (a # as)" if "list_visit ?m h a = Some r" for r
    using list_visit_trapped [OF that] by blast
  then have "list_visit ?m h a = None" by (cases "list_visit ?m h a") simp_all
  with nx [of h] show ?thesis
    by (simp add: list_for_each_def)
qed

lemma list_splice_breaks_target_witness:
  "\<exists>m. dlist m 0x1000 [0x1010] \<and> dlist m 0x1020 []
    \<and> list_for_each (list_splice 0x1000 0x1020 m) 0x1020 = None"
proof -
  let ?m0 = "INIT_LIST 0x1020 (\<lambda>_. 0)"
  let ?m1 = "INIT_LIST 0x1000 ?m0" and ?m2 = "list_add 0x1010 0x1000 (INIT_LIST 0x1000 ?m0)"
  have d0: "dlist ?m0 0x1020 []" by (rule dl.rep_init) (simp add: aligned4_def)
  have d1: "dlist ?m1 0x1000 []" by (rule dl.rep_init) (simp add: aligned4_def)
  have sep: "\<not> node_bytes [0x1010, 0x1000] x" if "node_bytes [0x1020] x" for x
    using that in_range_of_nat [of "0x1020" 8 x] in_range_of_nat [of "0x1010" 8 x] in_range_of_nat [of "0x1000" 8 x]
    by (auto simp: node_bytes_def)
  have "dlist ?m1 0x1020 []"
  proof (rule dl.rep_cong [OF d0])
    fix x :: u32 assume "node_bytes [0x1020] x"
    from sep [OF this] show "?m1 x = ?m0 x"
      by (simp add: INIT_LIST_def set_list_frame node_bytes_def)
  qed
  from dl.add_keeps_other [OF d1 this] sep have "dlist ?m2 0x1020 []" by blast
  moreover have "dlist ?m2 0x1000 [0x1010]" using dl.rep_add [OF d1 node_example(1)] .
  moreover have "nodes_ok [0x1000, 0x1010, 0x1020]" by (simp add: nodes_ok_def aligned4_def)
  ultimately show ?thesis
    using list_splice_breaks_target [of ?m2 "0x1000" "0x1010" "[]" "0x1020" "[]"] by auto
qed


subsection \<open>Linking a node twice\<close>

text \<open>Adding a node that is already the first of the list to its tail destroys the list. When it
  was the only node the list becomes a loop that never returns to the head, otherwise every other
  node is lost. (The scheduler does this when a process is woken before it has been switched out.)\<close>

theorem list_add_tail_linked_node:
  assumes "dlist m h (x # xs)"
  shows "list_for_each (list_add_tail x h m) h = (if xs = [] then None else Some [x])"
proof -
  let ?S = "set (h # x # xs)" and ?l = "last (x # xs)"
  let ?m = "list_add_tail x h m"
  have S: "node_set ?S" and d: "distinct (h # x # xs)"
    using assms by (auto simp: dlist_def nodes_ok_iff)
  have seg: "lseg m h (x # xs) h" using assms by (simp add: dlist_def)
  have l: "list_prev m h = ?l" using lseg_prev [OF seg] by simp
  have lx: "?l \<in> set (x # xs)" by (rule last_in_set) simp
  have lS: "?l \<in> ?S" using lx by auto
  have eq: "?m = list_add_raw x ?l h m" by (simp add: list_add_tail_def l)
  have nx: "list_next ?m y = (if y = ?l then x else if y = x then h else list_next m y)" if "y \<in> ?S" for y
  proof -
    have xS: "x \<in> ?S" and hS: "h \<in> ?S" by simp_all
    show ?thesis
      unfolding eq list_add_raw_def Let_def
      by (simp only: list_fields [OF S lS that] list_fields [OF S xS that] list_fields [OF S hS that])
  qed
  have hx: "list_next ?m h = x"
    using nx [of h] seg d lx by auto
  show ?thesis
  proof (cases "xs = []")
    case True
    then have "list_next ?m x = x" using nx [of x] by simp
    then have "\<forall>q \<in> {x}. list_next ?m q \<in> {x}" by simp
    moreover have "h \<notin> {x}" using d by auto
    ultimately have "list_visit ?m h x = None"
      using list_visit_trapped [of ?m h x] by (cases "list_visit ?m h x") blast+
    then show ?thesis using True hx by (simp add: list_for_each_def)
  next
    case False
    then have "?l \<noteq> x" using d by (auto simp: last_in_set)
    then have "list_next ?m x = h" using nx [of x] by simp
    moreover have "x \<noteq> h" using d by auto
    ultimately have "list_visit ?m h x = Some [x]"
      by (subst list_visit.simps) (simp add: list_visit.simps [of _ h h])
    then show ?thesis using False hx by (simp add: list_for_each_def)
  qed
qed

text \<open>When the first node is popped again after that, the head still points to it, and its own link is NULL.\<close>

lemma linked_node_popped:
  assumes "dlist m h (x # xs)"
  shows "\<exists>m'. list_pop h (list_add_tail x h m) = (x, m') \<and> list_next m' h = x \<and> list_next m' x = 0"
proof -
  let ?S = "set (h # x # xs)" and ?l = "last (x # xs)"
  let ?m = "list_add_tail x h m"
  have S: "node_set ?S" and d: "distinct (h # x # xs)"
    using assms by (auto simp: dlist_def nodes_ok_iff)
  have seg: "lseg m h (x # xs) h" using assms by (simp add: dlist_def)
  have l: "list_prev m h = ?l" using lseg_prev [OF seg] by simp
  have lx: "?l \<in> set (x # xs)" by (rule last_in_set) simp
  have lS: "?l \<in> ?S" and hl: "?l \<noteq> h" using lx d by auto
  have xS: "x \<in> ?S" and hS: "h \<in> ?S" and xh: "x \<noteq> h" using d by auto
  note f = list_fields [OF S]
  have eq: "?m = list_add_raw x ?l h m" by (simp add: list_add_tail_def l)
  have nx: "list_next ?m y = (if y = ?l then x else if y = x then h else list_next m y)" if "y \<in> ?S" for y
    unfolding eq list_add_raw_def Let_def by (simp only: f [OF lS that] f [OF xS that] f [OF hS that])
  have pv: "list_prev ?m y = (if y = x then ?l else if y = h then x else list_prev m y)" if "y \<in> ?S" for y
    unfolding eq list_add_raw_def Let_def by (simp only: f [OF lS that] f [OF xS that] f [OF hS that])
  have x: "list_prev ?m x = ?l" "list_next ?m x = (if ?l = x then x else h)" "list_next ?m h = x"
    using nx [OF xS] nx [OF hS] pv [OF xS] hl xh seg by auto
  have nS: "list_next ?m x \<in> ?S" unfolding x(2) by simp
  let ?m1 = "set_list_next ?l (list_next ?m x) ?m"
  have m1: "list_prev ?m1 x = ?l" "list_next ?m1 x = list_next ?m x" "list_next ?m1 h = x"
    using f [OF lS xS] f [OF lS hS] x hl by auto
  let ?m2 = "set_list_prev (list_next ?m x) ?l ?m1"
  have m2: "list_next ?m2 h = x" using f(2) [OF nS hS] m1(3) by simp
  have del: "list_del x ?m = set_list_prev x 0 (set_list_next x 0 ?m2)" by (simp only: list_del_def Let_def x(1) m1(1,2))
  have "list_next (list_del x ?m) h = x" "list_next (list_del x ?m) x = 0"
    unfolding del using f [OF xS hS] f [OF xS xS] m2 xh by simp_all
  moreover have "list_pop h ?m = (x, list_del x ?m)" using x(3) xh by (simp add: list_pop_def list_empty_def Let_def)
  ultimately show ?thesis by blast
qed

lemma list_add_tail_linked_node_witness:
  "\<exists>m. dlist m 0x1000 [0x1020, 0x1010] \<and> list_for_each (list_add_tail 0x1020 0x1000 m) 0x1000 = Some [0x1020]"
proof -
  let ?m = "list_add 0x1020 0x1000 (list_add 0x1010 0x1000 (INIT_LIST 0x1000 (\<lambda>_. 0)))"
  have "dlist ?m 0x1000 [0x1020, 0x1010]"
    using dl.rep_add [OF dl.rep_add [OF dl.rep_init node_example(1)] node_example(3)]
    by (simp add: aligned4_def)
  from list_add_tail_linked_node [OF this] this show ?thesis by auto
qed

end
