(* ===== verification/Machine.thy ===== *)
theory Machine
  imports Linked_List
begin

text \<open>
  The processor state every component works on: the interrupt mask of \<open>irq.h\<close>, the RAM, and
  where the linker put the one static object the allocator needs. The components above extend
  this record with their own statics, so that an operation of a lower layer leaves the state of
  the layers above alone by its type.
\<close>

record machine =
  primask :: bool
  ram :: mem
  mem_free_list :: u32

subsection \<open>irq.h\<close>

text \<open>
  PRIMASK has one bit; \<open>True\<close> masks interrupts. \<open>irq_flags_t\<close> values are the mask read back by
  \<open>__read_psr\<close>.
\<close>

definition cpsie :: "'a machine_scheme \<Rightarrow> 'a machine_scheme" where
  "cpsie s = s\<lparr>primask := False\<rparr>"

definition cpsid :: "'a machine_scheme \<Rightarrow> 'a machine_scheme" where
  "cpsid s = s\<lparr>primask := True\<rparr>"

definition read_psr :: "'a machine_scheme \<Rightarrow> bool" where
  "read_psr s = primask s"

definition restore_psr :: "bool \<Rightarrow> 'a machine_scheme \<Rightarrow> 'a machine_scheme" where
  "restore_psr state s = s\<lparr>primask := state\<rparr>"

definition irq_disable :: "'a machine_scheme \<Rightarrow> bool \<times> 'a machine_scheme" where
  "irq_disable s = (read_psr s, cpsid s)"

definition irq_enable :: "bool \<Rightarrow> 'a machine_scheme \<Rightarrow> 'a machine_scheme" where
  "irq_enable state s = restore_psr state s"

lemmas irq_defs = cpsie_def cpsid_def read_psr_def restore_psr_def irq_disable_def irq_enable_def

end
