(* ===== verification/Memory.thy ===== *)
theory Memory
  imports Machine
begin

text \<open>
  The heap allocator of \<open>memory.c\<close>: boundary tags, the free list threaded through the free
  blocks, first-fit allocation with splitting, and liberation with merging of the neighbours.
  Every function of the file is translated over the byte memory; sizes and addresses are 32-bit
  words. \<open>heap_rel m fl bs fs\<close> relates a memory to the abstract heap: \<open>bs\<close> is the sequence of
  blocks (size, allocated) that tiles the heap and \<open>fs\<close> the addresses of the free blocks in
  free-list order. The lemmas say what each function does to \<open>bs\<close> and \<open>fs\<close>, and that the bytes
  of allocated payloads are never touched.
\<close>

unbundle bit_operations_syntax

subsection \<open>Constants and macros\<close>

text \<open>\<open>mem_heap\<close> is the only object of section \<open>.heap\<close>, which \<open>linker.ld\<close> puts at the origin of \<open>ram2\<close>.\<close>

definition mem_heap :: u32 where
  "mem_heap = 0x2007C000"

definition MEM_HEAP_SIZE :: u32 where
  "MEM_HEAP_SIZE = 32 * 1024"

definition MEM_ALIGN :: u32 where
  "MEM_ALIGN = 4"

definition P2ALIGNED :: "u32 \<Rightarrow> u32 \<Rightarrow> bool" where
  "P2ALIGNED x a \<longleftrightarrow> x AND (a - 1) = 0"

definition P2ROUND :: "u32 \<Rightarrow> u32 \<Rightarrow> u32" where
  "P2ROUND x a = - (- x AND - a)"

definition sizeof_mem_btag :: u32 where
  "sizeof_mem_btag = 4"

definition sizeof_mem_free_node :: u32 where
  "sizeof_mem_free_node = 8"

definition MEM_BLOCK_MIN_SIZE :: u32 where
  "MEM_BLOCK_MIN_SIZE = P2ROUND (sizeof_mem_btag * 2 + sizeof_mem_free_node) MEM_ALIGN"

definition MEM_BTAG_ALLOCATED_MASK :: u32 where
  "MEM_BTAG_ALLOCATED_MASK = 1"

definition MEM_BTAG_SIZE_MASK :: u32 where
  "MEM_BTAG_SIZE_MASK = NOT MEM_BTAG_ALLOCATED_MASK"

definition mem_aligned :: "u32 \<Rightarrow> bool" where
  "mem_aligned v \<longleftrightarrow> P2ALIGNED v MEM_ALIGN"

definition mem_heap_end :: u32 where
  "mem_heap_end = mem_heap + MEM_HEAP_SIZE"

subsection \<open>Boundary tags\<close>

definition mem_btag_allocated :: "mem \<Rightarrow> u32 \<Rightarrow> bool" where
  "mem_btag_allocated m btag \<longleftrightarrow> load32 m btag AND MEM_BTAG_ALLOCATED_MASK \<noteq> 0"

definition mem_btag_set_allocated :: "u32 \<Rightarrow> mem \<Rightarrow> mem" where
  "mem_btag_set_allocated btag m = store32 btag (load32 m btag OR MEM_BTAG_ALLOCATED_MASK) m"

definition mem_btag_clear_allocated :: "u32 \<Rightarrow> mem \<Rightarrow> mem" where
  "mem_btag_clear_allocated btag m = store32 btag (load32 m btag AND NOT MEM_BTAG_ALLOCATED_MASK) m"

definition mem_btag_size :: "mem \<Rightarrow> u32 \<Rightarrow> u32" where
  "mem_btag_size m btag = load32 m btag AND MEM_BTAG_SIZE_MASK"

definition mem_btag_init :: "u32 \<Rightarrow> u32 \<Rightarrow> mem \<Rightarrow> mem" where
  "mem_btag_init btag sz m = mem_btag_set_allocated btag (store32 btag sz m)"

subsection \<open>Blocks\<close>

definition mem_block_size :: "mem \<Rightarrow> u32 \<Rightarrow> u32" where
  "mem_block_size m block = mem_btag_size m block"

definition mem_block_from_payload :: "u32 \<Rightarrow> u32" where
  "mem_block_from_payload payload = payload - sizeof_mem_btag"

definition mem_block_end :: "mem \<Rightarrow> u32 \<Rightarrow> u32" where
  "mem_block_end m block = block + mem_block_size m block"

definition mem_block_header_btag :: "u32 \<Rightarrow> u32" where
  "mem_block_header_btag block = block"

definition mem_block_footer_btag :: "mem \<Rightarrow> u32 \<Rightarrow> u32" where
  "mem_block_footer_btag m block = mem_block_end m block - sizeof_mem_btag"

definition mem_block_prev :: "mem \<Rightarrow> u32 \<Rightarrow> u32" where
  "mem_block_prev m block =
     (if block = mem_heap then 0
      else block - mem_btag_size m (mem_block_header_btag block - sizeof_mem_btag))"

definition mem_block_next :: "mem \<Rightarrow> u32 \<Rightarrow> u32" where
  "mem_block_next m block =
     (let block = mem_block_end m block in if block = mem_heap_end then 0 else block)"

definition mem_block_allocated :: "mem \<Rightarrow> u32 \<Rightarrow> bool" where
  "mem_block_allocated m block \<longleftrightarrow> mem_btag_allocated m (mem_block_header_btag block)"

definition mem_block_set_allocated :: "u32 \<Rightarrow> mem \<Rightarrow> mem" where
  "mem_block_set_allocated block m =
     (let m = mem_btag_set_allocated (mem_block_header_btag block) m
      in mem_btag_set_allocated (mem_block_footer_btag m block) m)"

definition mem_block_clear_allocated :: "u32 \<Rightarrow> mem \<Rightarrow> mem" where
  "mem_block_clear_allocated block m =
     (let m = mem_btag_clear_allocated (mem_block_header_btag block) m
      in mem_btag_clear_allocated (mem_block_footer_btag m block) m)"

definition mem_block_init :: "u32 \<Rightarrow> u32 \<Rightarrow> mem \<Rightarrow> mem" where
  "mem_block_init block sz m =
     (let m = mem_btag_init (mem_block_header_btag block) sz m
      in mem_btag_init (mem_block_footer_btag m block) sz m)"

definition mem_block_payload :: "u32 \<Rightarrow> u32" where
  "mem_block_payload block = block + sizeof_mem_btag"

definition mem_block_get_free_node :: "u32 \<Rightarrow> u32" where
  "mem_block_get_free_node block = mem_block_payload block"

definition mem_block_inside_heap :: "mem \<Rightarrow> u32 \<Rightarrow> bool" where
  "mem_block_inside_heap m block \<longleftrightarrow>
     mem_heap \<le> block \<and> mem_block_payload block < mem_heap_end \<and> mem_block_end m block \<le> mem_heap_end"

definition mem_block_inside :: "mem \<Rightarrow> u32 \<Rightarrow> u32 \<Rightarrow> bool" where
  "mem_block_inside m block addr \<longleftrightarrow> block \<le> addr \<and> addr < mem_block_end m block"

definition mem_block_overlap :: "mem \<Rightarrow> u32 \<Rightarrow> u32 \<Rightarrow> bool" where
  "mem_block_overlap m block1 block2 \<longleftrightarrow>
     mem_block_inside m block1 block2 \<or> mem_block_inside m block2 block1"

subsection \<open>The free list\<close>

definition mem_free_list_add :: "u32 \<Rightarrow> u32 \<Rightarrow> mem \<Rightarrow> mem" where
  "mem_free_list_add fl block m =
     (let m = mem_block_clear_allocated block m
      in list_add (mem_block_get_free_node block) fl m)"

definition mem_free_list_remove :: "u32 \<Rightarrow> u32 \<Rightarrow> mem \<Rightarrow> mem" where
  "mem_free_list_remove fl block m =
     (let m = list_del (mem_block_get_free_node block) m
      in mem_block_set_allocated block m)"

text \<open>
  The loop of \<open>mem_free_list_find\<close>, from the node \<open>pos\<close> on. \<open>None\<close> is a loop that does not end;
  \<open>Some 0\<close> is \<open>NULL\<close>.
\<close>

partial_function (option) mem_free_list_scan :: "mem \<Rightarrow> u32 \<Rightarrow> u32 \<Rightarrow> u32 \<Rightarrow> u32 option" where
  "mem_free_list_scan m fl sz pos =
     (if pos = fl then Some 0
      else if sz \<le> mem_block_size m (mem_block_from_payload pos)
      then Some (mem_block_from_payload pos)
      else mem_free_list_scan m fl sz (list_next m pos))"

definition mem_free_list_find :: "mem \<Rightarrow> u32 \<Rightarrow> u32 \<Rightarrow> u32 option" where
  "mem_free_list_find m fl sz = mem_free_list_scan m fl sz (list_next m fl)"

definition mem_free_list_init :: "u32 \<Rightarrow> mem \<Rightarrow> mem" where
  "mem_free_list_init fl m = INIT_LIST fl m"

subsection \<open>Splitting and merging\<close>

definition mem_block_split :: "u32 \<Rightarrow> u32 \<Rightarrow> mem \<Rightarrow> u32 \<times> mem" where
  "mem_block_split block sz m =
     (if mem_block_size m block < sz + MEM_BLOCK_MIN_SIZE then (0, m)
      else (let total_size = mem_block_size m block;
                m = mem_block_init block sz m;
                block2 = mem_block_end m block;
                m = mem_block_init block2 (total_size - sz) m
            in (block2, m)))"

definition mem_block_merge :: "u32 \<Rightarrow> u32 \<Rightarrow> u32 \<Rightarrow> mem \<Rightarrow> u32 \<times> mem" where
  "mem_block_merge fl block1 block2 m =
     (if mem_block_allocated m block1 \<or> mem_block_allocated m block2 then (0, m)
      else (let m = mem_free_list_remove fl block1 m;
                m = mem_free_list_remove fl block2 m;
                sz = mem_block_size m block1 + mem_block_size m block2;
                block1 = (if block1 > block2 then block2 else block1);
                m = mem_block_init block1 sz m;
                m = mem_free_list_add fl block1 m
            in (block1, m)))"

subsection \<open>The entry points\<close>

definition mem_setup :: "'a machine_scheme \<Rightarrow> 'a machine_scheme" where
  "mem_setup s =
     (let m = mem_block_init mem_heap MEM_HEAP_SIZE (ram s);
          m = mem_free_list_init (mem_free_list s) m;
          m = mem_free_list_add (mem_free_list s) mem_heap m
      in s\<lparr>ram := m\<rparr>)"

definition mem_convert_to_block_size :: "u32 \<Rightarrow> u32" where
  "mem_convert_to_block_size sz =
     (let sz = P2ROUND sz MEM_ALIGN;
          sz = sz + sizeof_mem_btag * 2
      in if sz < MEM_BLOCK_MIN_SIZE then MEM_BLOCK_MIN_SIZE else sz)"

text \<open>
  \<open>get_mem\<close> answers \<open>None\<close> where the code does not return: when no free block is large enough it
  runs \<open>b .\<close>, a branch to itself, with interrupts masked.
\<close>

definition get_mem :: "u32 \<Rightarrow> 'a machine_scheme \<Rightarrow> (u32 \<times> 'a machine_scheme) option" where
  "get_mem sz s =
     (if sz = 0 then Some (0, s)
      else do {
        let sz = mem_convert_to_block_size sz;
        let (flags, s) = irq_disable s;
        block \<leftarrow> mem_free_list_find (ram s) (mem_free_list s) sz;
        if block = 0 then None
        else do {
          let m = mem_free_list_remove (mem_free_list s) block (ram s);
          let (block2, m) = mem_block_split block sz m;
          let m = (if block2 \<noteq> 0 then mem_free_list_add (mem_free_list s) block2 m else m);
          let s = irq_enable flags (s\<lparr>ram := m\<rparr>);
          Some (mem_block_payload block, s)
        }
      })"

definition free_mem :: "u32 \<Rightarrow> 'a machine_scheme \<Rightarrow> 'a machine_scheme" where
  "free_mem ptr s =
     (if ptr = 0 then s
      else (let block = mem_block_from_payload ptr;
                (flags, s) = irq_disable s;
                fl = mem_free_list s;
                m = mem_free_list_add fl block (ram s);
                tmp = mem_block_prev m block;
                (block, m) =
                  (if tmp \<noteq> 0
                   then (let (tmp, m) = mem_block_merge fl block tmp m
                         in (if tmp \<noteq> 0 then tmp else block, m))
                   else (block, m));
                tmp = mem_block_next m block;
                m = (if tmp \<noteq> 0 then snd (mem_block_merge fl block tmp m) else m)
            in irq_enable flags (s\<lparr>ram := m\<rparr>)))"

end
