(* ===== verification/Heap_Layout.thy ===== *)
theory Heap_Layout
  imports Memory
begin

text \<open>
  The abstract heap of the allocator: a sequence of blocks \<open>(size, allocated)\<close> laid out one
  after the other from \<open>heap_base\<close>, its block addresses, and the three disjoint kinds of heap
  bytes (boundary tags, payloads of allocated blocks, insides of free blocks). \<open>tags_at\<close> says that
  a memory carries the boundary tags of such a sequence. Pure facts about layouts and their
  frame conditions; the operations of \<open>memory.c\<close> are related to them in \<open>Memory_Proofs\<close>.
\<close>

unbundle bit_operations_syntax

type_synonym blocks = "(nat \<times> bool) list"

definition heap_base :: nat where
  "heap_base = 0x2007C000"

definition heap_size :: nat where
  "heap_size = 32768"

definition bsum :: "blocks \<Rightarrow> nat" where
  "bsum bs = sum_list (map fst bs)"

lemma bsum_simps [simp]:
  "bsum [] = 0" "bsum ((s, f) # bs) = s + bsum bs" "bsum (xs @ ys) = bsum xs + bsum ys"
  by (simp_all add: bsum_def)

text \<open>Block sizes are multiples of 4 and at least \<open>MEM_BLOCK_MIN_SIZE\<close>, which is 16.\<close>

definition sizes_ok :: "blocks \<Rightarrow> bool" where
  "sizes_ok bs \<longleftrightarrow> (\<forall>(s, f) \<in> set bs. 16 \<le> s \<and> 4 dvd s)"

lemma sizes_ok_simps [simp]:
  "sizes_ok []" "sizes_ok ((s, f) # bs) \<longleftrightarrow> 16 \<le> s \<and> 4 dvd s \<and> sizes_ok bs"
  "sizes_ok (xs @ ys) \<longleftrightarrow> sizes_ok xs \<and> sizes_ok ys"
  by (auto simp: sizes_ok_def)

lemma sizes_ok_dvd: "sizes_ok bs \<Longrightarrow> 4 dvd bsum bs"
  by (induction bs) auto

fun layout :: "nat \<Rightarrow> blocks \<Rightarrow> (nat \<times> nat \<times> bool) list" where
  "layout a [] = []"
| "layout a ((s, f) # bs) = (a, s, f) # layout (a + s) bs"

lemma layout_append [simp]: "layout a (xs @ ys) = layout a xs @ layout (a + bsum xs) ys"
  by (induction a xs rule: layout.induct) (auto simp: add.assoc)

lemma layout_bounds:
  "(c, s, f) \<in> set (layout a bs) \<Longrightarrow> a \<le> c \<and> c + s \<le> a + bsum bs"
  by (induction a bs rule: layout.induct) auto

lemma layout_size:
  "sizes_ok bs \<Longrightarrow> (c, s, f) \<in> set (layout a bs) \<Longrightarrow> 16 \<le> s \<and> 4 dvd s"
  by (induction a bs rule: layout.induct) auto

lemma layout_aligned:
  "sizes_ok bs \<Longrightarrow> 4 dvd a \<Longrightarrow> (c, s, f) \<in> set (layout a bs) \<Longrightarrow> 4 dvd c"
  by (induction a bs rule: layout.induct) (auto simp: dvd_add)

text \<open>Two entries of a layout are the same block or lie apart.\<close>

lemma layout_apart:
  assumes "sizes_ok bs" "(c, s, f) \<in> set (layout a bs)" "(c', s', f') \<in> set (layout a bs)"
  shows "(c = c' \<and> s = s' \<and> f = f') \<or> c + s \<le> c' \<or> c' + s' \<le> c"
  using assms by (induction a bs rule: layout.induct) (auto dest: layout_bounds)

lemma layout_split:
  "(c, s, f) \<in> set (layout a bs) \<Longrightarrow> \<exists>xs ys. bs = xs @ (s, f) # ys \<and> c = a + bsum xs"
proof (induction a bs rule: layout.induct)
  case (2 a t g bs)
  then show ?case
  proof (cases "(c, s, f) \<in> set (layout (a + t) bs)")
    case True
    then obtain xs ys where "bs = xs @ (s, f) # ys" "c = a + t + bsum xs"
      using 2 by blast
    then have "(t, g) # bs = ((t, g) # xs) @ (s, f) # ys \<and> c = a + bsum ((t, g) # xs)"
      by simp
    then show ?thesis by blast
  next
    case False
    with 2 have "(t, g) # bs = [] @ (s, f) # bs \<and> c = a + bsum []" by simp
    then show ?thesis by blast
  qed
qed simp

subsection \<open>Free and live blocks\<close>

definition free_from :: "nat \<Rightarrow> blocks \<Rightarrow> nat list" where
  "free_from a bs = map fst (filter (\<lambda>(c, s, f). \<not> f) (layout a bs))"

lemma free_from_simps [simp]:
  "free_from a [] = []"
  "free_from a ((s, f) # bs) = (if f then free_from (a + s) bs else a # free_from (a + s) bs)"
  "free_from a (xs @ ys) = free_from a xs @ free_from (a + bsum xs) ys"
  by (simp_all add: free_from_def)

definition free_addrs :: "blocks \<Rightarrow> nat list" where
  "free_addrs bs = free_from heap_base bs"

lemma free_addrs_iff: "c \<in> set (free_addrs bs) \<longleftrightarrow> (\<exists>s. (c, s, False) \<in> set (layout heap_base bs))"
  by (force simp: free_addrs_def free_from_def)

lemma distinct_layout: "sizes_ok bs \<Longrightarrow> distinct (map fst (layout a bs))"
  by (induction a bs rule: layout.induct) (auto dest!: layout_bounds)

lemma distinct_free_addrs: "sizes_ok bs \<Longrightarrow> distinct (free_addrs bs)"
  by (simp add: free_addrs_def free_from_def distinct_map_filter distinct_layout)

lemma free_addrs_bounds:
  "sizes_ok bs \<Longrightarrow> c \<in> set (free_addrs bs) \<Longrightarrow> heap_base \<le> c \<and> c + 16 \<le> heap_base + bsum bs"
  using layout_size by (fastforce simp: free_addrs_iff dest: layout_bounds)

text \<open>The live allocations: payload address and payload length of every allocated block.\<close>

definition live :: "blocks \<Rightarrow> (nat \<times> nat) set" where
  "live bs = {(c + 4, s - 8) | c s. (c, s, True) \<in> set (layout heap_base bs)}"

subsection \<open>The three kinds of heap bytes\<close>

definition tag_byte :: "blocks \<Rightarrow> nat \<Rightarrow> bool" where
  "tag_byte bs x \<longleftrightarrow> (\<exists>c s f. (c, s, f) \<in> set (layout heap_base bs) \<and>
     (c \<le> x \<and> x < c + 4 \<or> c + s - 4 \<le> x \<and> x < c + s))"

definition payload_byte :: "blocks \<Rightarrow> nat \<Rightarrow> bool" where
  "payload_byte bs x \<longleftrightarrow> (\<exists>c s. (c, s, True) \<in> set (layout heap_base bs) \<and>
     c + 4 \<le> x \<and> x < c + s - 4)"

definition free_byte :: "blocks \<Rightarrow> nat \<Rightarrow> bool" where
  "free_byte bs x \<longleftrightarrow> (\<exists>c s. (c, s, False) \<in> set (layout heap_base bs) \<and>
     c + 4 \<le> x \<and> x < c + s - 4)"

text \<open>A byte determines its block.\<close>

lemma layout_byte_unique:
  assumes "sizes_ok bs" "(c, s, f) \<in> set (layout a bs)" "(c', s', f') \<in> set (layout a bs)"
    and "c \<le> x" "x < c + s" "c' \<le> x" "x < c' + s'"
  shows "c' = c \<and> s' = s \<and> f' = f"
  using layout_apart [OF assms(1-3)] assms(4-) by auto

lemma tag_byteE:
  assumes "tag_byte bs x" "sizes_ok bs"
  obtains c s f where "(c, s, f) \<in> set (layout heap_base bs)" "c \<le> x" "x < c + s" "16 \<le> s"
    "x < c + 4 \<or> c + s - 4 \<le> x"
proof -
  from assms(1) obtain c s f where "(c, s, f) \<in> set (layout heap_base bs)"
    "c \<le> x \<and> x < c + 4 \<or> c + s - 4 \<le> x \<and> x < c + s"
    by (auto simp: tag_byte_def)
  moreover from this have "16 \<le> s" using layout_size [OF assms(2)] by blast
  ultimately show thesis by (intro that [of c s f]) auto
qed

lemma heap_bytes_disjoint:
  assumes ok: "sizes_ok bs"
  shows "tag_byte bs x \<Longrightarrow> \<not> payload_byte bs x"
    and "tag_byte bs x \<Longrightarrow> \<not> free_byte bs x"
    and "payload_byte bs x \<Longrightarrow> \<not> free_byte bs x"
proof -
  have tag: False
    if "tag_byte bs x" "(c, s, f) \<in> set (layout heap_base bs)" "c + 4 \<le> x" "x < c + s - 4"
    for c s f
    using that(1) ok
  proof (rule tag_byteE)
    fix c' s' f' assume "(c', s', f') \<in> set (layout heap_base bs)" "c' \<le> x" "x < c' + s'"
      "x < c' + 4 \<or> c' + s' - 4 \<le> x" "16 \<le> s'"
    with layout_byte_unique [OF ok that(2), of c' s' f' x] that(3,4) show False by auto
  qed
  show "tag_byte bs x \<Longrightarrow> \<not> payload_byte bs x"
    using tag by (auto simp: payload_byte_def)
  show "tag_byte bs x \<Longrightarrow> \<not> free_byte bs x"
    using tag by (auto simp: free_byte_def)
  show "payload_byte bs x \<Longrightarrow> \<not> free_byte bs x"
  proof
    assume "payload_byte bs x" "free_byte bs x"
    then obtain c s c' s' where "(c, s, True) \<in> set (layout heap_base bs)" "c + 4 \<le> x" "x < c + s - 4"
      "(c', s', False) \<in> set (layout heap_base bs)" "c' + 4 \<le> x" "x < c' + s' - 4"
      by (auto simp: payload_byte_def free_byte_def)
    moreover from this have "c \<le> x" "x < c + s" "c' \<le> x" "x < c' + s'" by linarith+
    ultimately show False
      using layout_byte_unique [OF ok, of c s True heap_base c' s' False x] by auto
  qed
qed

lemma free_node_free_byte:
  assumes "sizes_ok bs" "c \<in> set (free_addrs bs)" "c + 4 \<le> x" "x < c + 12"
  shows "free_byte bs x"
proof -
  obtain s where s: "(c, s, False) \<in> set (layout heap_base bs)"
    using assms(2) by (auto simp: free_addrs_iff)
  with layout_size [OF assms(1) s] assms(3,4) show ?thesis
    unfolding free_byte_def by (intro exI [of _ c] exI [of _ s]) auto
qed

lemma heap_byte_bounds:
  assumes ok: "sizes_ok bs" and "tag_byte bs x \<or> payload_byte bs x \<or> free_byte bs x"
  shows "heap_base \<le> x \<and> x < heap_base + bsum bs"
proof -
  obtain c s f where "(c, s, f) \<in> set (layout heap_base bs)" "c \<le> x" "x < c + s"
    using assms(2) by (fastforce simp: payload_byte_def free_byte_def elim: tag_byteE [OF _ ok])
  with layout_bounds [OF this(1)] show ?thesis by simp
qed

subsection \<open>Boundary tags in memory\<close>

text \<open>The value of a tag: the size, with the allocation flag in bit 0.\<close>

definition btag :: "nat \<Rightarrow> bool \<Rightarrow> u32" where
  "btag s f = (if f then of_nat s OR 1 else of_nat s)"

text \<open>The address of the footer of the block of size \<open>s\<close> at \<open>c\<close>.\<close>

definition foot :: "nat \<Rightarrow> nat \<Rightarrow> nat" where
  "foot c s = c + s - 4"

definition has_tags :: "mem \<Rightarrow> nat \<times> nat \<times> bool \<Rightarrow> bool" where
  "has_tags m = (\<lambda>(c, s, f).
     load32 m (of_nat c) = btag s f \<and> load32 m (of_nat (foot c s)) = btag s f)"

definition tags_at :: "mem \<Rightarrow> blocks \<Rightarrow> bool" where
  "tags_at m bs \<longleftrightarrow> list_all (has_tags m) (layout heap_base bs)"

lemma tags_atD: "tags_at m bs \<Longrightarrow> b \<in> set (layout heap_base bs) \<Longrightarrow> has_tags m b"
  by (simp add: tags_at_def list_all_iff)

lemma tags_at_append:
  "tags_at m (xs @ ys) \<longleftrightarrow>
     tags_at m xs \<and> list_all (has_tags m) (layout (heap_base + bsum xs) ys)"
  by (simp add: tags_at_def)

text \<open>The tags of one block survive a change that spares its tag bytes.\<close>

lemma has_tags_cong:
  assumes "has_tags m (c, s, f)" "16 \<le> s" "c + s \<le> 2 ^ 32"
    and eq: "\<And>x. c \<le> unat x \<and> unat x < c + 4 \<or> c + s - 4 \<le> unat x \<and> unat x < c + s \<Longrightarrow> m' x = m x"
  shows "has_tags m' (c, s, f)"
proof -
  have word: "load32 m' (of_nat d) = load32 m (of_nat d)"
    if "d + 4 \<le> 2 ^ 32" "d = c \<or> d = foot c s" for d
    by (rule load32_cong, rule eq) (use that assms(2) in \<open>auto simp: in_range_of_nat foot_def\<close>)
  moreover have "c + 4 \<le> 2 ^ 32" "foot c s + 4 \<le> 2 ^ 32"
    using assms(2,3) by (simp_all add: foot_def)
  ultimately show ?thesis
    using assms(1) by (auto simp: has_tags_def)
qed

lemma tags_at_cong:
  assumes ok: "sizes_ok bs" and bound: "heap_base + bsum bs \<le> 2 ^ 32" and "tags_at m bs"
    and eq: "\<And>x. tag_byte bs (unat x) \<Longrightarrow> m' x = m x"
  shows "tags_at m' bs"
  unfolding tags_at_def list_all_iff
proof
  fix b assume b: "b \<in> set (layout heap_base bs)"
  obtain c s f where csf: "b = (c, s, f)" by (cases b)
  show "has_tags m' b"
    unfolding csf
  proof (rule has_tags_cong [of m])
    show "m' x = m x" if "c \<le> unat x \<and> unat x < c + 4 \<or> c + s - 4 \<le> unat x \<and> unat x < c + s" for x
      using that b csf by (intro eq) (auto simp: tag_byte_def)
  qed (use b csf layout_size [OF ok] layout_bounds bound assms(3)
      in \<open>fastforce simp: tags_at_def list_all_iff\<close>)+
qed

text \<open>
  Rewriting the blocks \<open>mid\<close> to \<open>mid'\<close> of the same total size: it is enough that the new tags of
  \<open>mid'\<close> are there and that no tag outside the rewritten bytes has changed.
\<close>

lemma tags_at_update:
  assumes ok: "sizes_ok (xs @ mid @ ys)" and bound: "heap_base + bsum (xs @ mid @ ys) \<le> 2 ^ 32"
    and tags: "tags_at m (xs @ mid @ ys)" and sum: "bsum mid' = bsum mid"
    and new: "list_all (has_tags m') (layout (heap_base + bsum xs) mid')"
    and eq: "\<And>x. tag_byte (xs @ mid @ ys) (unat x) \<Longrightarrow>
      \<not> (heap_base + bsum xs \<le> unat x \<and> unat x < heap_base + bsum xs + bsum mid) \<Longrightarrow> m' x = m x"
  shows "tags_at m' (xs @ mid' @ ys)"
proof -
  have same: "has_tags m' (c, s, f)"
    if mem: "(c, s, f) \<in> set (layout heap_base (xs @ mid @ ys))"
      and out: "c + s \<le> heap_base + bsum xs \<or> heap_base + bsum xs + bsum mid \<le> c" for c s f
  proof (rule has_tags_cong [of m])
    show s: "16 \<le> s" using layout_size [OF ok mem] by simp
    show "m' x = m x" if "c \<le> unat x \<and> unat x < c + 4 \<or> c + s - 4 \<le> unat x \<and> unat x < c + s" for x
    proof (rule eq)
      show "tag_byte (xs @ mid @ ys) (unat x)"
        unfolding tag_byte_def using that mem by blast
    qed (use that out s in auto)
    show "has_tags m (c, s, f)" using mem tags by (simp add: tags_at_def list_all_iff)
    show "c + s \<le> 2 ^ 32" using layout_bounds [OF mem] bound by simp
  qed
  have "list_all (has_tags m') (layout heap_base xs)"
    unfolding list_all_iff
    by (auto intro!: same dest: layout_bounds)
  moreover have "list_all (has_tags m') (layout (heap_base + bsum xs + bsum mid) ys)"
    unfolding list_all_iff
    by (auto intro!: same dest: layout_bounds simp: add.assoc)
  ultimately show ?thesis
    using new sum by (simp add: tags_at_def add.assoc)
qed

end
