(* ===== verification/Memory_Proofs.thy ===== *)
theory Memory_Proofs
  imports Heap_Layout
begin

text \<open>
  Correctness of \<open>memory.c\<close> against the abstract heap of \<open>Heap_Layout\<close>.
\<close>

unbundle bit_operations_syntax

subsection \<open>Constants evaluated\<close>

lemma mem_consts [simp]:
  "mem_heap = of_nat heap_base" "MEM_HEAP_SIZE = of_nat heap_size"
  "mem_heap_end = of_nat (heap_base + heap_size)" "MEM_BLOCK_MIN_SIZE = 16"
  by (simp_all add: mem_heap_def MEM_HEAP_SIZE_def mem_heap_end_def heap_base_def heap_size_def
      MEM_BLOCK_MIN_SIZE_def P2ROUND_def sizeof_mem_btag_def sizeof_mem_free_node_def MEM_ALIGN_def)

lemma heap_consts: "heap_base + heap_size < 2 ^ 32" "4 dvd heap_base" "4 dvd heap_size" "0 < heap_base"
  by (simp_all add: heap_base_def heap_size_def)

subsection \<open>Tag values\<close>

lemma even_word_bit:
  assumes "even s" shows "\<not> bit (of_nat s :: u32) 0"
proof -
  have "bit (of_nat s :: u32) 0 \<longleftrightarrow> bit s 0" by (simp add: bit_of_nat_iff)
  with assms show ?thesis by (simp add: bit_0)
qed

lemma tag_word:
  assumes "\<not> bit (w :: u32) 0"
  shows "(w OR 1) AND NOT 1 = w" "w AND NOT 1 = w" "(w OR 1) AND 1 = 1" "w AND 1 = 0"
  by (rule bit_word_eqI, use assms in \<open>auto simp: bit_simps intro: gr0I\<close>)+

lemmas tag_defs = mem_btag_allocated_def mem_btag_set_allocated_def mem_btag_clear_allocated_def
  mem_btag_size_def mem_btag_init_def MEM_BTAG_ALLOCATED_MASK_def MEM_BTAG_SIZE_MASK_def

lemma btag_value:
  assumes "4 dvd s"
  shows "btag s f AND - 2 = of_nat s" "(btag s f AND 1 = 0) \<longleftrightarrow> \<not> f" "btag s f OR 1 = btag s True"
    "of_nat s OR 1 = btag s True" "of_nat s AND - 2 = (of_nat s :: u32)" "btag s False = of_nat s"
proof -
  have "even s" using assms by (auto elim: dvdE)
  note w = tag_word [OF even_word_bit [OF this]]
  show "btag s f AND - 2 = of_nat s" "(btag s f AND 1 = 0) \<longleftrightarrow> \<not> f" "btag s f OR 1 = btag s True"
    "of_nat s OR 1 = btag s True" "of_nat s AND - 2 = (of_nat s :: u32)" "btag s False = of_nat s"
    using w by (auto simp: btag_def or.assoc)
qed

subsection \<open>Writing both tags of a block\<close>

definition put_tags :: "nat \<Rightarrow> nat \<Rightarrow> bool \<Rightarrow> mem \<Rightarrow> mem" where
  "put_tags a s f m = store32 (of_nat (foot a s)) (btag s f) (store32 (of_nat a) (btag s f) m)"

lemma store32_twice [simp]: "store32 p v (store32 p w m) = store32 p v m"
  by (auto simp: store32_def fun_upd_def)

lemma foot_facts:
  assumes "4 dvd a" "4 dvd s" "16 \<le> s" "a + s \<le> 2 ^ 32"
  shows "aligned4 (of_nat a)" "aligned4 (of_nat (foot a s))"
    "(of_nat a :: u32) \<noteq> of_nat (foot a s)" "(of_nat (foot a s) :: u32) \<noteq> of_nat a"
    "of_nat a + of_nat s - 4 = (of_nat (foot a s) :: u32)"
proof -
  have "4 dvd foot a s" "foot a s < 2 ^ 32" "a < 2 ^ 32" "a \<noteq> foot a s"
    using assms by (auto simp: foot_def intro!: dvd_diff_nat dvd_add)
  then show "aligned4 (of_nat a)" "aligned4 (of_nat (foot a s))"
    "(of_nat a :: u32) \<noteq> of_nat (foot a s)" "(of_nat (foot a s) :: u32) \<noteq> of_nat a"
    using assms(1) by (auto intro: aligned4_of_nat)
  show "of_nat a + of_nat s - 4 = (of_nat (foot a s) :: u32)"
    using assms(3) by (simp add: foot_def of_nat_diff)
qed

lemma put_tags_frame:
  assumes "\<not> (a \<le> unat x \<and> unat x < a + 4)" "\<not> (foot a s \<le> unat x \<and> unat x < foot a s + 4)"
    and "16 \<le> s" "a + s \<le> 2 ^ 32"
  shows "put_tags a s f m x = m x"
proof -
  have "foot a s + 4 \<le> 2 ^ 32" "a + 4 \<le> 2 ^ 32"
    using assms(3,4) by (simp_all add: foot_def)
  then show ?thesis
    using assms(1,2) by (simp add: put_tags_def store32_frame_range in_range_of_nat)
qed

lemma has_tags_put_tags:
  assumes "4 dvd a" "4 dvd s" "16 \<le> s" "a + s \<le> 2 ^ 32"
  shows "has_tags (put_tags a s f m) (a, s, f)"
  using foot_facts [OF assms]
  by (simp add: has_tags_def put_tags_def load32_store32)

text \<open>The three ways the code writes tags: on a fresh block, and to set or clear the flag.\<close>

lemmas block_defs = Let_def mem_block_header_btag_def mem_block_footer_btag_def
  mem_block_end_def mem_block_size_def sizeof_mem_btag_def tag_defs

lemma mem_block_init_eq:
  assumes "4 dvd a" "4 dvd s" "16 \<le> s" "a + s \<le> 2 ^ 32"
  shows "mem_block_init (of_nat a) (of_nat s) m = put_tags a s True m"
  using foot_facts [OF assms]
  by (simp add: mem_block_init_def block_defs btag_value [OF assms(2)] put_tags_def)

lemma block_fields:
  assumes "has_tags m (a, s, f)" "4 dvd s" "16 \<le> s"
  shows "mem_block_size m (of_nat a) = of_nat s"
    and "mem_block_allocated m (of_nat a) \<longleftrightarrow> f"
    and "mem_block_end m (of_nat a) = of_nat (a + s)"
    and "mem_btag_size m (of_nat (foot a s)) = of_nat s"
  using assms btag_value [OF assms(2)]
  by (simp_all add: has_tags_def mem_block_allocated_def block_defs)

lemma mem_block_flag_eq:
  assumes tags: "has_tags m (a, s, f)" and s: "4 dvd a" "4 dvd s" "16 \<le> s" "a + s \<le> 2 ^ 32"
  shows "mem_block_set_allocated (of_nat a) m = put_tags a s True m"
    and "mem_block_clear_allocated (of_nat a) m = put_tags a s False m"
  using tags foot_facts [OF s]
  by (simp_all add: mem_block_set_allocated_def mem_block_clear_allocated_def block_defs
      has_tags_def btag_value [OF s(2)] load32_store32 put_tags_def)

subsection \<open>The representation relation\<close>

text \<open>The static free-list head is an aligned node outside the heap array.\<close>

definition fl_ok :: "u32 \<Rightarrow> bool" where
  "fl_ok fl \<longleftrightarrow> aligned4 fl \<and>
     (unat fl + 8 \<le> heap_base \<or> heap_base + heap_size \<le> unat fl \<and> unat fl + 8 \<le> 2 ^ 32)"

text \<open>The free-list node of the block at \<open>c\<close> is the start of its payload.\<close>

definition node_ptr :: "nat \<Rightarrow> u32" where
  "node_ptr c = of_nat (c + 4)"

definition heap_shape :: "blocks \<Rightarrow> bool" where
  "heap_shape bs \<longleftrightarrow> sizes_ok bs \<and> bsum bs = heap_size"

definition heap_rel :: "mem \<Rightarrow> u32 \<Rightarrow> blocks \<Rightarrow> nat list \<Rightarrow> bool" where
  "heap_rel m fl bs fs \<longleftrightarrow> heap_shape bs \<and> fl_ok fl \<and> tags_at m bs
     \<and> dlist m fl (map node_ptr fs) \<and> distinct fs \<and> set fs = set (free_addrs bs)"

lemma heap_relD:
  assumes "heap_rel m fl bs fs"
  shows "heap_shape bs" "sizes_ok bs" "bsum bs = heap_size" "fl_ok fl" "tags_at m bs"
    "dlist m fl (map node_ptr fs)" "distinct fs" "set fs = set (free_addrs bs)"
  using assms by (simp_all add: heap_rel_def heap_shape_def)

lemma shape_sizes: "heap_shape bs \<Longrightarrow> sizes_ok bs"
  by (simp add: heap_shape_def)

lemma shape_bound: "heap_shape bs \<Longrightarrow> heap_base + bsum bs \<le> 2 ^ 32"
  using heap_consts by (simp add: heap_shape_def)

lemma block_facts:
  assumes "heap_shape (xs @ (s, f) # ys)" "a = heap_base + bsum xs"
  shows "(a, s, f) \<in> set (layout heap_base (xs @ (s, f) # ys))" "4 dvd a" "4 dvd s" "16 \<le> s"
    "a + s \<le> heap_base + heap_size" "a + s \<le> 2 ^ 32" "heap_base \<le> a"
  using assms heap_consts by (auto simp: heap_shape_def intro!: dvd_add sizes_ok_dvd)

lemma free_addr_facts:
  assumes "heap_shape bs" "c \<in> set (free_addrs bs)"
  shows "4 dvd c" "heap_base \<le> c" "c + 16 \<le> heap_base + heap_size"
proof -
  obtain s where s: "(c, s, False) \<in> set (layout heap_base bs)"
    using assms(2) by (auto simp: free_addrs_iff)
  show "4 dvd c"
    using layout_aligned [OF _ _ s] assms(1) heap_consts by (simp add: heap_shape_def)
  show "heap_base \<le> c" "c + 16 \<le> heap_base + heap_size"
    using free_addrs_bounds [OF _ assms(2)] assms(1) by (auto simp: heap_shape_def)
qed

lemma unat_node_ptr:
  assumes "heap_shape bs" "c \<in> set (free_addrs bs)"
  shows "unat (node_ptr c) = c + 4" "c + 16 \<le> 2 ^ 32"
  using free_addr_facts [OF assms] heap_consts(1)
  unfolding node_ptr_def by (auto simp del: of_nat_add)

lemma node_bytes_free:
  assumes shape: "heap_shape bs" and fl: "fl_ok fl" and cs: "set cs \<subseteq> set (free_addrs bs)"
    and x: "node_bytes (fl # map node_ptr cs) x"
  shows "\<not> tag_byte bs (unat x) \<and> \<not> payload_byte bs (unat x)"
proof -
  have ok: "sizes_ok bs" "bsum bs = heap_size" using shape by (auto simp: heap_shape_def)
  consider "in_range fl 8 x" | c where "c \<in> set cs" "in_range (node_ptr c) 8 x"
    using x by (auto simp: node_bytes_def)
  then show ?thesis
  proof cases
    case 1
    moreover have "unat fl + 8 \<le> 2 ^ 32"
      using fl heap_consts(1) by (auto simp: fl_ok_def)
    ultimately have "unat fl \<le> unat x \<and> unat x < unat fl + 8"
      using in_range_of_nat [of "unat fl" 8 x] by simp
    then have "\<not> (heap_base \<le> unat x \<and> unat x < heap_base + bsum bs)"
      using fl ok(2) by (auto simp: fl_ok_def)
    then show ?thesis using heap_byte_bounds [OF ok(1)] by blast
  next
    case 2
    then have c: "c \<in> set (free_addrs bs)" using cs by blast
    have "c + 4 \<le> unat x \<and> unat x < c + 12"
      using 2(2) unat_node_ptr [OF shape c]
      unfolding node_ptr_def by (subst (asm) in_range_of_nat) auto
    then have "free_byte bs (unat x)"
      by (intro free_node_free_byte [OF ok(1) c]) auto
    then show ?thesis using heap_bytes_disjoint [OF ok(1)] by blast
  qed
qed

lemma free_apart:
  assumes "heap_shape bs" "c \<in> set (free_addrs bs)" "d \<in> set (free_addrs bs)" "c \<noteq> d"
  shows "c + 16 \<le> d \<or> d + 16 \<le> c"
proof -
  obtain s t where st: "(c, s, False) \<in> set (layout heap_base bs)" "(d, t, False) \<in> set (layout heap_base bs)"
    using assms(2,3) by (auto simp: free_addrs_iff)
  have ok: "sizes_ok bs" using assms(1) by (simp add: heap_shape_def)
  show ?thesis
    using layout_apart [OF ok st] layout_size [OF ok st(1)] layout_size [OF ok st(2)] assms(4)
    by auto
qed

lemma nodes_ok_free:
  assumes shape: "heap_shape bs" and fl: "fl_ok fl" and d: "distinct cs"
    and cs: "set cs \<subseteq> set (free_addrs bs)"
  shows "nodes_ok (fl # map node_ptr cs)"
proof -
  have un: "unat (node_ptr c) = c + 4" "unat (node_ptr c + 4) = c + 8" "aligned4 (node_ptr c)"
    "heap_base \<le> c" "c + 16 \<le> heap_base + heap_size" if "c \<in> set cs" for c
    using unat_node_ptr [OF shape, of c] free_addr_facts [OF shape, of c] that cs
    by (auto simp: unat_word_ariths aligned4_iff_dvd)
  have f: "unat (fl + 4) = unat fl + 4" "unat fl + 8 \<le> 2 ^ 32"
    using fl heap_consts(1) by (auto simp: fl_ok_def unat_word_ariths)
  have out: "c + 16 \<le> unat fl \<or> unat fl + 8 \<le> c" if "c \<in> set cs" for c
    using un(4,5) [OF that] fl by (auto simp: fl_ok_def)
  have "inj_on node_ptr (set cs)"
    using un(1) by (intro inj_onI) (metis add_right_cancel)
  moreover have "fl \<noteq> node_ptr c" "fl + 4 \<noteq> node_ptr c" "node_ptr c + 4 \<noteq> fl" if "c \<in> set cs" for c
    using un(1,2) [OF that] out [OF that] f by auto
  moreover have "node_ptr c + 4 \<noteq> node_ptr e" if "c \<in> set cs" "e \<in> set cs" for c e
  proof
    assume "node_ptr c + 4 = node_ptr e"
    then have "c + 8 = e + 4" using un(1) [OF that(2)] un(2) [OF that(1)] by metis
    with free_apart [OF shape, of c e] that cs show False by auto
  qed
  ultimately show ?thesis
    using d fl un(3) by (auto simp: nodes_ok_def distinct_map fl_ok_def)
qed

subsection \<open>Changing the tags of one block\<close>

text \<open>Rewriting tags inside \<open>[a, a + n)\<close> keeps every node of the free list and every payload
  outside.\<close>

lemma put_tags_not_tag:
  assumes "heap_shape (xs @ (s, g) # ys)" "a = heap_base + bsum xs"
    and "\<not> tag_byte (xs @ (s, g) # ys) (unat x)"
  shows "put_tags a s f m x = m x"
proof (rule put_tags_frame)
  note b = block_facts [OF assms(1,2)]
  have "tag_byte (xs @ (s, g) # ys) (unat x)"
    if "a \<le> unat x \<and> unat x < a + 4 \<or> a + s - 4 \<le> unat x \<and> unat x < a + s"
    unfolding tag_byte_def using b(1) that by blast
  with assms(3) b(4)
  show "\<not> (a \<le> unat x \<and> unat x < a + 4)" "\<not> (foot a s \<le> unat x \<and> unat x < foot a s + 4)"
    by (auto simp: foot_def)
  show "16 \<le> s" "a + s \<le> 2 ^ 32" using b by auto
qed

lemma put_tags_tags_at:
  assumes shape: "heap_shape (xs @ (s, g) # ys)" and a: "a = heap_base + bsum xs"
    and tags: "tags_at m (xs @ (s, g) # ys)"
  shows "tags_at (put_tags a s f m) (xs @ (s, f) # ys)"
proof -
  note b = block_facts [OF shape a]
  have "tags_at (put_tags a s f m) (xs @ [(s, f)] @ ys)"
  proof (rule tags_at_update [of xs "[(s, g)]" ys m])
    show "list_all (has_tags (put_tags a s f m)) (layout (heap_base + bsum xs) [(s, f)])"
      using has_tags_put_tags [OF b(2-4,6)] by (simp add: a)
    show "put_tags a s f m x = m x"
      if "\<not> (heap_base + bsum xs \<le> unat x \<and> unat x < heap_base + bsum xs + bsum [(s, g)])" for x
      using that b by (intro put_tags_frame) (auto simp: a foot_def)
  qed (use shape tags shape_bound [OF shape] in \<open>simp_all add: heap_shape_def\<close>)
  then show ?thesis by simp
qed

lemma heap_shape_flag: "heap_shape (xs @ (s, f) # ys) \<Longrightarrow> heap_shape (xs @ (s, g) # ys)"
  by (simp add: heap_shape_def)

lemma tag_byte_flag: "tag_byte (xs @ (s, f) # ys) x \<longleftrightarrow> tag_byte (xs @ (s, g) # ys) x"
  by (auto simp: tag_byte_def)

lemma free_addrs_flag:
  assumes "a = heap_base + bsum xs"
  shows "set (free_addrs (xs @ (s, False) # ys)) = insert a (set (free_addrs (xs @ (s, True) # ys)))"
  using assms by (auto simp: free_addrs_def)

lemma not_free_addr:
  assumes "heap_shape (xs @ (s, True) # ys)" "a = heap_base + bsum xs"
  shows "a \<notin> set (free_addrs (xs @ (s, True) # ys))"
proof
  assume "a \<in> set (free_addrs (xs @ (s, True) # ys))"
  then obtain t where t: "(a, t, False) \<in> set (layout heap_base (xs @ (s, True) # ys))"
    by (auto simp: free_addrs_iff)
  have ok: "sizes_ok (xs @ (s, True) # ys)" using assms(1) by (simp add: heap_shape_def)
  show False
    using layout_apart [OF ok t block_facts(1) [OF assms]] layout_size [OF ok t] block_facts(4) [OF assms]
    by auto
qed

lemma payload_byte_free: "payload_byte (xs @ (s, False) # ys) x \<Longrightarrow> payload_byte (xs @ (s, True) # ys) x"
  by (auto simp: payload_byte_def)

subsection \<open>The free-list operations\<close>

lemma mem_free_list_add_rel:
  assumes rel: "heap_rel m fl (xs @ (s, True) # ys) fs" and a: "a = heap_base + bsum xs"
  shows "heap_rel (mem_free_list_add fl (of_nat a) m) fl (xs @ (s, False) # ys) (a # fs)"
    and "payload_byte (xs @ (s, False) # ys) (unat x) \<Longrightarrow>
      mem_free_list_add fl (of_nat a) m x = m x"
proof -
  let ?bs = "xs @ (s, True) # ys" and ?bs' = "xs @ (s, False) # ys"
  let ?m1 = "put_tags a s False m"
  note r = heap_relD [OF rel]
  note b = block_facts [OF r(1) a]
  have shape': "heap_shape ?bs'" using r(1) by (rule heap_shape_flag)
  have "has_tags m (a, s, True)"
    using r(5) b(1) by (rule tags_atD)
  from mem_block_flag_eq(2) [OF this b(2-4,6)]
  have eq: "mem_free_list_add fl (of_nat a) m = list_add (node_ptr a) fl ?m1"
    by (simp add: mem_free_list_add_def Let_def mem_block_get_free_node_def mem_block_payload_def
        sizeof_mem_btag_def node_ptr_def)
  have tags1: "tags_at ?m1 ?bs'" using r(1) a r(5) by (rule put_tags_tags_at)
  have dl1: "dlist ?m1 fl (map node_ptr fs)"
    using r(6)
  proof (rule dlist_cong)
    fix x assume "node_bytes (fl # map node_ptr fs) x"
    with node_bytes_free [OF r(1,4), of fs x] r(8) have "\<not> tag_byte ?bs (unat x)" by simp
    then show "?m1 x = m x" by (rule put_tags_not_tag [OF r(1) a])
  qed
  have frees: "set (a # fs) = set (free_addrs ?bs')" "distinct (a # fs)"
    using not_free_addr [OF r(1) a] r(7,8) free_addrs_flag [OF a] by auto
  have ok: "nodes_ok (fl # map node_ptr (a # fs))"
    using nodes_ok_free [OF shape' r(4) frees(2)] frees(1) by blast
  then have ok': "nodes_ok (node_ptr a # fl # map node_ptr fs)"
    by (auto simp: nodes_ok_def)
  have frame: "list_add (node_ptr a) fl ?m1 x = ?m1 x"
    if "tag_byte ?bs' (unat x) \<or> payload_byte ?bs' (unat x)" for x
  proof (rule list_add_frame(1) [OF dl1])
    show "\<not> node_bytes (node_ptr a # fl # map node_ptr fs) x"
      using node_bytes_free [OF shape' r(4), of "a # fs" x] frees(1) that
      by (auto simp: node_bytes_def)
  qed
  have "tags_at (list_add (node_ptr a) fl ?m1) ?bs'"
    by (rule tags_at_cong [OF shape_sizes [OF shape'] shape_bound [OF shape'] tags1])
      (rule frame, rule disjI1)
  moreover have "dlist (list_add (node_ptr a) fl ?m1) fl (map node_ptr (a # fs))"
    using dlist_add [OF dl1 ok'] by simp
  ultimately show "heap_rel (mem_free_list_add fl (of_nat a) m) fl ?bs' (a # fs)"
    using shape' r(4) frees unfolding eq heap_rel_def by blast
  show "mem_free_list_add fl (of_nat a) m x = m x" if "payload_byte ?bs' (unat x)" for x
  proof -
    have "\<not> tag_byte ?bs (unat x)"
      using that heap_bytes_disjoint(1) [of ?bs' "unat x"] shape'
      by (auto simp: heap_shape_def tag_byte_flag [of xs s True ys _ False])
    then show ?thesis
      using frame [of x] that put_tags_not_tag [OF r(1) a] by (simp add: eq)
  qed
qed

lemma mem_free_list_remove_rel:
  assumes rel: "heap_rel m fl (xs @ (s, False) # ys) fs" and a: "a = heap_base + bsum xs"
  shows "heap_rel (mem_free_list_remove fl (of_nat a) m) fl (xs @ (s, True) # ys) (remove1 a fs)"
    and "payload_byte (xs @ (s, False) # ys) (unat x) \<Longrightarrow>
      mem_free_list_remove fl (of_nat a) m x = m x"
proof -
  let ?bs = "xs @ (s, False) # ys" and ?bs' = "xs @ (s, True) # ys"
  let ?m1 = "list_del (node_ptr a) m"
  note r = heap_relD [OF rel]
  note b = block_facts [OF r(1) a]
  have shape': "heap_shape ?bs'" using r(1) by (rule heap_shape_flag)
  have a_in: "a \<in> set fs" using r(8) free_addrs_flag [OF a, of s ys] by simp
  have inj: "inj_on node_ptr (set fs)"
    using unat_node_ptr(1) [OF r(1)] r(8) by (intro inj_onI) (metis add_right_cancel)
  have na: "node_ptr a \<in> set (map node_ptr fs)" using a_in by simp
  have rem: "map node_ptr (remove1 a fs) = remove1 (node_ptr a) (map node_ptr fs)"
    using inj a_in by (rule map_remove1_inj)
  have dl1: "dlist ?m1 fl (map node_ptr (remove1 a fs))"
    using dl.rep_remove [OF r(6) na] by (simp add: rem)
  have frame: "?m1 x = m x" if "tag_byte ?bs (unat x) \<or> payload_byte ?bs (unat x)" for x
    using node_bytes_free [OF r(1,4), of fs x] r(8) that
    by (intro list_del_frame [OF r(6) na]) auto
  have tags1: "tags_at ?m1 ?bs"
    by (rule tags_at_cong [OF r(2) shape_bound [OF r(1)] r(5)]) (rule frame, rule disjI1)
  then have "has_tags ?m1 (a, s, False)"
    using b(1) by (rule tags_atD)
  from mem_block_flag_eq(1) [OF this b(2-4,6)]
  have eq: "mem_free_list_remove fl (of_nat a) m = put_tags a s True ?m1"
    by (simp add: mem_free_list_remove_def Let_def mem_block_get_free_node_def
        mem_block_payload_def sizeof_mem_btag_def node_ptr_def)
  have tags2: "tags_at (put_tags a s True ?m1) ?bs'"
    using r(1) a tags1 by (rule put_tags_tags_at)
  have frees: "set (remove1 a fs) = set (free_addrs ?bs')" "distinct (remove1 a fs)"
    using not_free_addr [OF shape' a] r(7,8) free_addrs_flag [OF a, of s ys]
    by (auto simp: set_remove1_eq)
  have dl2: "dlist (put_tags a s True ?m1) fl (map node_ptr (remove1 a fs))"
    using dl1
  proof (rule dlist_cong)
    fix x assume "node_bytes (fl # map node_ptr (remove1 a fs)) x"
    with node_bytes_free [OF shape' r(4), of "remove1 a fs" x] frees(1)
    have "\<not> tag_byte ?bs (unat x)" by (simp add: tag_byte_flag [of xs s False ys _ True])
    then show "put_tags a s True ?m1 x = ?m1 x" by (rule put_tags_not_tag [OF r(1) a])
  qed
  show "heap_rel (mem_free_list_remove fl (of_nat a) m) fl ?bs' (remove1 a fs)"
    using shape' r(4) tags2 dl2 frees by (simp add: eq heap_rel_def)
  show "mem_free_list_remove fl (of_nat a) m x = m x" if "payload_byte ?bs (unat x)" for x
    using that frame [of x] put_tags_not_tag [OF r(1) a, of x True ?m1] heap_bytes_disjoint(1) [OF r(2), of "unat x"]
    by (auto simp: eq)
qed

subsection \<open>Splitting and merging\<close>

text \<open>
  The general step: a memory in which the blocks \<open>mid\<close> have become \<open>mid'\<close>, with the same free
  blocks, and in which only tag bytes of the new layout inside the rewritten range have changed.
\<close>

lemma heap_rel_retag:
  assumes rel: "heap_rel m fl (xs @ mid @ ys) fs" and shape': "heap_shape (xs @ mid' @ ys)"
    and frees: "set (free_addrs (xs @ mid' @ ys)) = set (free_addrs (xs @ mid @ ys))"
    and new: "list_all (has_tags m') (layout (heap_base + bsum xs) mid')"
    and inside: "\<And>x. \<not> (heap_base + bsum xs \<le> unat x \<and> unat x < heap_base + bsum xs + bsum mid) \<Longrightarrow> m' x = m x"
    and spare: "\<And>x. \<not> tag_byte (xs @ mid' @ ys) (unat x) \<Longrightarrow> m' x = m x"
  shows "heap_rel m' fl (xs @ mid' @ ys) fs"
proof -
  note r = heap_relD [OF rel]
  have sum: "bsum mid' = bsum mid"
    using r(3) shape' by (simp add: heap_shape_def)
  have "tags_at m' (xs @ mid' @ ys)"
    by (rule tags_at_update [OF r(2) shape_bound [OF r(1)] r(5) sum new]) (rule inside)
  moreover have "dlist m' fl (map node_ptr fs)"
    using r(6)
  proof (rule dlist_cong)
    fix x assume "node_bytes (fl # map node_ptr fs) x"
    with node_bytes_free [OF shape' r(4), of fs x] r(8) frees show "m' x = m x" by (intro spare) simp
  qed
  ultimately show ?thesis
    using shape' r(4,7,8) frees by (simp add: heap_rel_def)
qed

lemma mem_block_split_rel:
  assumes rel: "heap_rel m fl (xs @ (s, True) # ys) fs" and a: "a = heap_base + bsum xs"
    and n: "16 \<le> n" "4 dvd n" "n + 16 \<le> s"
  obtains m' where "mem_block_split (of_nat a) (of_nat n) m = (of_nat (a + n), m')"
    "heap_rel m' fl (xs @ (n, True) # (s - n, True) # ys) fs"
    "\<And>x. payload_byte (xs @ (n, True) # (s - n, True) # ys) (unat x) \<Longrightarrow> m' x = m x"
proof -
  let ?bs = "xs @ (s, True) # ys" and ?bs' = "xs @ (n, True) # (s - n, True) # ys"
  let ?m1 = "put_tags a n True m" let ?m' = "put_tags (a + n) (s - n) True ?m1"
  note r = heap_relD [OF rel]
  note b = block_facts [OF r(1) a]
  have shape': "heap_shape ?bs'"
    using r(1) n by (auto simp: heap_shape_def)
  then have shape2: "heap_shape ((xs @ [(n, True)]) @ (s - n, True) # ys)" by simp
  have a2: "a + n = heap_base + bsum (xs @ [(n, True)])" by (simp add: a)
  note b1 = block_facts [OF shape' a] and b2 = block_facts [OF shape2 a2]
  have t1: "has_tags ?m1 (a, n, True)" using b1 by (intro has_tags_put_tags) auto
  have t2: "has_tags ?m' (a + n, s - n, True)" using b2 by (intro has_tags_put_tags) auto
  have t1': "has_tags ?m' (a, n, True)"
  proof (rule has_tags_cong [OF t1])
    fix x :: u32 assume "a \<le> unat x \<and> unat x < a + 4 \<or> a + n - 4 \<le> unat x \<and> unat x < a + n"
    then show "?m' x = ?m1 x"
      using b1 b2 by (intro put_tags_frame) (auto simp: foot_def)
  qed (use b1 in auto)
  have sz: "mem_block_size m (of_nat a) = of_nat s"
    using block_fields(1) [OF tags_atD [OF r(5) b(1)] b(3,4)] .
  have diff: "of_nat s - of_nat n = (of_nat (s - n) :: u32)"
    using n(3) by (intro of_nat_diff_u32) simp
  have "\<not> of_nat s < (of_nat n + 16 :: u32)"
  proof -
    have "of_nat n + 16 = (of_nat (n + 16) :: u32)" by simp
    moreover have "(of_nat (n + 16) :: u32) \<le> of_nat s"
      using n(3) b(5) heap_consts(1) by (subst of_nat_le_u32) auto
    ultimately show ?thesis by simp
  qed
  then have eq: "mem_block_split (of_nat a) (of_nat n) m = (of_nat (a + n), ?m')"
    using mem_block_init_eq [OF b1(2-4,6), of m] mem_block_init_eq [OF b2(2-4,6), of ?m1]
      block_fields(3) [OF t1 b1(3,4)]
    by (simp add: mem_block_split_def Let_def sz diff del: of_nat_add)
  have spare: "?m' x = m x" if "\<not> tag_byte ?bs' (unat x)" for x
    using put_tags_not_tag [OF shape' a that] put_tags_not_tag [OF shape2 a2, of x] that by simp
  have "heap_rel ?m' fl (xs @ [(n, True), (s - n, True)] @ ys) fs"
  proof (rule heap_rel_retag [of m fl xs "[(s, True)]" ys fs])
    show "set (free_addrs (xs @ [(n, True), (s - n, True)] @ ys)) = set (free_addrs (xs @ [(s, True)] @ ys))"
      using n(3) by (simp add: free_addrs_def add.assoc)
    show "list_all (has_tags ?m') (layout (heap_base + bsum xs) [(n, True), (s - n, True)])"
      using t1' t2 by (simp add: a)
    show "?m' x = m x" if "\<not> (heap_base + bsum xs \<le> unat x \<and> unat x < heap_base + bsum xs + bsum [(s, True)])" for x
    proof -
      have "?m' x = ?m1 x" using that n b2 by (intro put_tags_frame) (auto simp: a foot_def)
      also have "\<dots> = m x" using that n b1 by (intro put_tags_frame) (auto simp: a foot_def)
      finally show ?thesis .
    qed
    show "?m' x = m x" if "\<not> tag_byte (xs @ [(n, True), (s - n, True)] @ ys) (unat x)" for x
      using that by (intro spare) simp
  qed (use rel shape' in simp_all)
  moreover have "?m' x = m x" if "payload_byte ?bs' (unat x)" for x
    using that heap_bytes_disjoint(1) [OF shape_sizes [OF shape'], of "unat x"]
    by (intro spare) auto
  ultimately show thesis using that [OF eq] by simp
qed

lemma mem_block_split_small:
  assumes "heap_rel m fl (xs @ (s, f) # ys) fs" "a = heap_base + bsum xs" "s < n + 16" "n < 2 ^ 31"
  shows "mem_block_split (of_nat a) (of_nat n) m = (0, m)"
proof -
  note r = heap_relD [OF assms(1)]
  note b = block_facts [OF r(1) assms(2)]
  have "mem_block_size m (of_nat a) = of_nat s"
    using block_fields(1) [OF tags_atD [OF r(5) b(1)] b(3,4)] .
  moreover have "of_nat n + 16 = (of_nat (n + 16) :: u32)" by simp
  moreover have "(of_nat s :: u32) < of_nat (n + 16)"
    using assms(3,4) b(5) heap_consts(1) by (subst of_nat_less_u32) auto
  ultimately show ?thesis by (simp add: mem_block_split_def)
qed

lemma mem_block_join_rel:
  assumes rel: "heap_rel m fl (xs @ (s, True) # (t, True) # ys) fs" and a: "a = heap_base + bsum xs"
  shows "heap_rel (mem_block_init (of_nat a) (of_nat (s + t)) m) fl (xs @ (s + t, True) # ys) fs"
    and "payload_byte (xs @ (s, True) # (t, True) # ys) (unat x) \<Longrightarrow>
      mem_block_init (of_nat a) (of_nat (s + t)) m x = m x"
proof -
  let ?bs = "xs @ (s, True) # (t, True) # ys" and ?bs' = "xs @ (s + t, True) # ys"
  note r = heap_relD [OF rel]
  have shape': "heap_shape ?bs'" using r(1) by (auto simp: heap_shape_def)
  note b = block_facts [OF r(1) a] and b' = block_facts [OF shape' a]
  have eq: "mem_block_init (of_nat a) (of_nat (s + t)) m = put_tags a (s + t) True m"
    using b' by (intro mem_block_init_eq) auto
  have "heap_rel (put_tags a (s + t) True m) fl (xs @ [(s + t, True)] @ ys) fs"
  proof (rule heap_rel_retag [of m fl xs "[(s, True), (t, True)]" ys fs])
    show "list_all (has_tags (put_tags a (s + t) True m)) (layout (heap_base + bsum xs) [(s + t, True)])"
      using has_tags_put_tags [OF b'(2-4,6)] by (simp add: a)
    show "put_tags a (s + t) True m x = m x"
      if "\<not> (heap_base + bsum xs \<le> unat x \<and> unat x < heap_base + bsum xs + bsum [(s, True), (t, True)])" for x
      using that b' by (intro put_tags_frame) (auto simp: a foot_def)
    show "put_tags a (s + t) True m x = m x" if "\<not> tag_byte (xs @ [(s + t, True)] @ ys) (unat x)" for x
      using that by (intro put_tags_not_tag [OF shape' a]) simp
  qed (use rel shape' in \<open>simp_all add: free_addrs_def add.assoc\<close>)
  then show "heap_rel (mem_block_init (of_nat a) (of_nat (s + t)) m) fl ?bs' fs"
    by (simp add: eq del: of_nat_add)
  assume p: "payload_byte ?bs (unat x)"
  then have nt: "\<not> tag_byte ?bs (unat x)" using heap_bytes_disjoint(1) [OF r(2)] by blast
  have "\<not> tag_byte ?bs' (unat x)"
  proof
    assume "tag_byte ?bs' (unat x)"
    then obtain c u g where c: "(c, u, g) \<in> set (layout heap_base ?bs')"
      and x: "c \<le> unat x \<and> unat x < c + 4 \<or> c + u - 4 \<le> unat x \<and> unat x < c + u"
      by (auto simp: tag_byte_def)
    have st: "(a, s, True) \<in> set (layout heap_base ?bs)" "(a + s, t, True) \<in> set (layout heap_base ?bs)"
      by (simp_all add: a)
    consider "(c, u, g) \<in> set (layout heap_base ?bs)" | "c = a" "u = s + t"
      using c by (auto simp: a add.assoc)
    then have "tag_byte ?bs (unat x)"
    proof cases
      case 1
      with x show ?thesis unfolding tag_byte_def by blast
    next
      case 2
      with x have "a \<le> unat x \<and> unat x < a + 4 \<or> a + s + t - 4 \<le> unat x \<and> unat x < a + s + t"
        by (simp add: add.assoc)
      with st show ?thesis unfolding tag_byte_def by blast
    qed
    with nt show False ..
  qed
  then show "mem_block_init (of_nat a) (of_nat (s + t)) m x = m x"
    unfolding eq by (rule put_tags_not_tag [OF shape' a])
qed

subsection \<open>Searching the free list\<close>

definition size_at :: "blocks \<Rightarrow> nat \<Rightarrow> nat" where
  "size_at bs c = (case map_of (layout heap_base bs) c of None \<Rightarrow> 0 | Some (s, f) \<Rightarrow> s)"

lemma size_at_eq: "sizes_ok bs \<Longrightarrow> (c, s, f) \<in> set (layout heap_base bs) \<Longrightarrow> size_at bs c = s"
  using distinct_layout [of bs heap_base] by (simp add: size_at_def)

lemma mem_free_list_scan_lseg:
  assumes "lseg m p (map node_ptr gs) fl" "fl \<notin> set (map node_ptr gs)" "n < 2 ^ 32"
    and "\<And>c. c \<in> set gs \<Longrightarrow> mem_block_size m (of_nat c) = of_nat (size_at bs c) \<and> size_at bs c < 2 ^ 32"
  shows "mem_free_list_scan m fl (of_nat n) (list_next m p) =
    Some (case List.find (\<lambda>c. n \<le> size_at bs c) gs of None \<Rightarrow> 0 | Some c \<Rightarrow> of_nat c)"
  using assms
proof (induction gs arbitrary: p)
  case Nil
  then show ?case by (simp add: mem_free_list_scan.simps)
next
  case (Cons c gs)
  have blk: "mem_block_from_payload (node_ptr c) = of_nat c"
    by (simp add: mem_block_from_payload_def sizeof_mem_btag_def node_ptr_def)
  from Cons have "mem_free_list_scan m fl (of_nat n) (list_next m (node_ptr c)) =
      Some (case List.find (\<lambda>c. n \<le> size_at bs c) gs of None \<Rightarrow> 0 | Some c \<Rightarrow> of_nat c)"
    by auto
  with Cons.prems show ?case
    by (subst mem_free_list_scan.simps) (auto simp: blk)
qed

lemma mem_free_list_find_rel:
  assumes rel: "heap_rel m fl bs fs" and n: "n < 2 ^ 32"
  shows "mem_free_list_find m fl (of_nat n) =
    Some (case List.find (\<lambda>c. n \<le> size_at bs c) fs of None \<Rightarrow> 0 | Some c \<Rightarrow> of_nat c)"
  unfolding mem_free_list_find_def
proof (rule mem_free_list_scan_lseg)
  note r = heap_relD [OF rel]
  show "lseg m fl (map node_ptr fs) fl" "fl \<notin> set (map node_ptr fs)"
    using r(6) by (auto simp: dlist_def nodes_ok_def)
  fix c assume "c \<in> set fs"
  then obtain s where s: "(c, s, False) \<in> set (layout heap_base bs)"
    using r(8) by (auto simp: free_addrs_iff)
  moreover have "c + s \<le> heap_base + heap_size"
    using layout_bounds [OF s] r(3) by simp
  ultimately show "mem_block_size m (of_nat c) = of_nat (size_at bs c) \<and> size_at bs c < 2 ^ 32"
    using block_fields(1) [OF tags_atD [OF r(5) s]] layout_size [OF r(2) s] size_at_eq [OF r(2) s]
      heap_consts(1) by simp
qed (rule n)

end
