(* ===== verification/Memory_Correct.thy ===== *)
theory Memory_Correct
  imports Memory_Proofs
begin

text \<open>
  The entry points of the allocator. \<open>heap_inv\<close> is its invariant: the memory represents a
  sequence of blocks and a free list, and no two free blocks are adjacent. \<open>alloc_spec\<close> and
  \<open>release_spec\<close> are the abstract heap operations; \<open>get_mem\<close> and \<open>free_mem\<close> refine them, on every
  branch. The locale \<open>heap_interface\<close> is what the rest of the system relies on.
\<close>

unbundle bit_operations_syntax

subsection \<open>Merging two neighbours\<close>

lemma payload_bytes_split [simp]:
  "payload_byte (xs @ (s, True) # ys) x \<longleftrightarrow>
     payload_byte (xs @ (s, False) # ys) x \<or>
     heap_base + bsum xs + 4 \<le> x \<and> x < heap_base + bsum xs + s - 4"
  by (auto simp: payload_byte_def)

lemma free_block_fields:
  assumes "heap_rel m fl (xs @ (s, f) # ys) fs" "a = heap_base + bsum xs"
  shows "mem_block_allocated m (of_nat a) \<longleftrightarrow> f" "mem_block_size m (of_nat a) = of_nat s"
    "mem_block_end m (of_nat a) = of_nat (a + s)" "has_tags m (a, s, f)"
proof -
  note r = heap_relD [OF assms(1)]
  note b = block_facts [OF r(1) assms(2)]
  have t: "has_tags m (a, s, f)" using r(5) b(1) by (rule tags_atD)
  then show "has_tags m (a, s, f)" .
  show "mem_block_allocated m (of_nat a) \<longleftrightarrow> f" "mem_block_size m (of_nat a) = of_nat s"
    "mem_block_end m (of_nat a) = of_nat (a + s)"
    using block_fields [OF t b(3,4)] by auto
qed

text \<open>Both free blocks leave the free list, become one allocated block, which is freed.\<close>

lemma merge_tail_rel:
  assumes rel: "heap_rel m fl (xs @ (s, True) # (t, True) # ys) fs" and p: "p = heap_base + bsum xs"
  shows "heap_rel (mem_free_list_add fl (of_nat p) (mem_block_init (of_nat p) (of_nat (s + t)) m)) fl
      (xs @ (s + t, False) # ys) (p # fs)"
    and "payload_byte (xs @ (s, False) # (t, False) # ys) (unat x) \<Longrightarrow>
      mem_free_list_add fl (of_nat p) (mem_block_init (of_nat p) (of_nat (s + t)) m) x = m x"
proof -
  note j = mem_block_join_rel [OF rel p]
  note ad = mem_free_list_add_rel [OF j(1) p]
  show "heap_rel (mem_free_list_add fl (of_nat p) (mem_block_init (of_nat p) (of_nat (s + t)) m)) fl
      (xs @ (s + t, False) # ys) (p # fs)"
    by (rule ad(1))
  assume x: "payload_byte (xs @ (s, False) # (t, False) # ys) (unat x)"
  then have "payload_byte (xs @ (s, True) # (t, True) # ys) (unat x)"
    and "payload_byte (xs @ (s + t, False) # ys) (unat x)"
    by (auto simp: payload_byte_def add.assoc)
  with j(2) ad(2) show "mem_free_list_add fl (of_nat p) (mem_block_init (of_nat p) (of_nat (s + t)) m) x = m x"
    by simp
qed

text \<open>Taking two neighbours off the free list, in either order.\<close>

lemma remove_both_rel:
  assumes rel: "heap_rel m fl (xs @ (s, False) # (t, False) # ys) fs"
    and p: "p = heap_base + bsum xs" and q: "q = p + s"
    and ord: "(b1 = p \<and> b2 = q) \<or> (b1 = q \<and> b2 = p)"
  defines "m2 \<equiv> mem_free_list_remove fl (of_nat b2) (mem_free_list_remove fl (of_nat b1) m)"
  shows "heap_rel m2 fl (xs @ (s, True) # (t, True) # ys) (remove1 b2 (remove1 b1 fs))"
    and "payload_byte (xs @ (s, False) # (t, False) # ys) (unat x) \<Longrightarrow> m2 x = m x"
proof -
  have q': "q = heap_base + bsum (xs @ [(s, f)])" for f by (simp add: p q)
  from ord show "heap_rel m2 fl (xs @ (s, True) # (t, True) # ys) (remove1 b2 (remove1 b1 fs))"
    and "payload_byte (xs @ (s, False) # (t, False) # ys) (unat x) \<Longrightarrow> m2 x = m x"
  proof (atomize (full), elim disjE conjE, goal_cases)
    case 1
    note r1 = mem_free_list_remove_rel [OF rel p]
    have "heap_rel (mem_free_list_remove fl (of_nat p) m) fl
        ((xs @ [(s, True)]) @ (t, False) # ys) (remove1 p fs)"
      using r1(1) by simp
    note r2 = mem_free_list_remove_rel [OF this q']
    show ?case
      using r1(2) [of x] r2(1) r2(2) [of x] by (auto simp: m2_def 1)
  next
    case 2
    have "heap_rel m fl ((xs @ [(s, False)]) @ (t, False) # ys) fs"
      using rel by simp
    note r1 = mem_free_list_remove_rel [OF this q']
    have "heap_rel (mem_free_list_remove fl (of_nat q) m) fl
        (xs @ (s, False) # (t, True) # ys) (remove1 q fs)"
      using r1(1) by simp
    note r2 = mem_free_list_remove_rel [OF this p]
    have "payload_byte (xs @ (s, False) # (t, True) # ys) (unat x)"
      if "payload_byte (xs @ (s, False) # (t, False) # ys) (unat x)"
      using that payload_bytes_split [of "xs @ [(s, False)]" t ys "unat x"] by simp
    then show ?case
      using r1(2) [of x] r2(1) r2(2) [of x] by (auto simp: m2_def 2)
  qed
qed

lemma mem_block_merge_rel:
  assumes rel: "heap_rel m fl (xs @ (s, False) # (t, False) # ys) fs"
    and p: "p = heap_base + bsum xs" and q: "q = p + s"
    and ord: "(b1 = p \<and> b2 = q) \<or> (b1 = q \<and> b2 = p)"
  obtains m' where "mem_block_merge fl (of_nat b1) (of_nat b2) m = (of_nat p, m')"
    "heap_rel m' fl (xs @ (s + t, False) # ys) (p # remove1 b2 (remove1 b1 fs))"
    "\<And>x. payload_byte (xs @ (s, False) # (t, False) # ys) (unat x) \<Longrightarrow> m' x = m x"
proof -
  let ?m2 = "mem_free_list_remove fl (of_nat b2) (mem_free_list_remove fl (of_nat b1) m)"
  let ?m' = "mem_free_list_add fl (of_nat p) (mem_block_init (of_nat p) (of_nat (s + t)) ?m2)"
  note rb = remove_both_rel [OF rel p q ord]
  have q': "q = heap_base + bsum (xs @ [(s, f)])" for f by (simp add: p q)
  have rel': "heap_rel m fl ((xs @ [(s, False)]) @ (t, False) # ys) fs" using rel by simp
  have rb': "heap_rel ?m2 fl ((xs @ [(s, True)]) @ (t, True) # ys) (remove1 b2 (remove1 b1 fs))"
    using rb(1) by simp
  have "\<not> mem_block_allocated m (of_nat b1)" "\<not> mem_block_allocated m (of_nat b2)"
    using free_block_fields(1) [OF rel p] free_block_fields(1) [OF rel' q'] ord by auto
  moreover have "mem_block_size ?m2 (of_nat b1) + mem_block_size ?m2 (of_nat b2) = of_nat (s + t)"
    using free_block_fields(2) [OF rb(1) p] free_block_fields(2) [OF rb' q'] ord by auto
  moreover have "(if of_nat b2 < (of_nat b1 :: u32) then of_nat b2 else of_nat b1) = (of_nat p :: u32)"
  proof -
    have "p < 2 ^ 32" "q < 2 ^ 32" "p < q"
      using block_facts [OF heap_relD(1) [OF rel] p] block_facts [OF heap_relD(1) [OF rel'] q']
        heap_consts(1) q by auto
    then have "(of_nat p :: u32) < of_nat q" by (subst of_nat_less_u32)
    then show ?thesis using ord by (auto dest: order.asym)
  qed
  ultimately have eq: "mem_block_merge fl (of_nat b1) (of_nat b2) m = (of_nat p, ?m')"
    by (simp add: mem_block_merge_def Let_def del: of_nat_add)
  show thesis
  proof (rule that [OF eq])
    show "heap_rel ?m' fl (xs @ (s + t, False) # ys) (p # remove1 b2 (remove1 b1 fs))"
      by (rule merge_tail_rel(1) [OF rb(1) p])
    show "?m' x = m x" if "payload_byte (xs @ (s, False) # (t, False) # ys) (unat x)" for x
      using merge_tail_rel(2) [OF rb(1) p that] rb(2) [OF that] by simp
  qed
qed

subsection \<open>Initialisation\<close>

lemma mem_setup_rel:
  assumes fl: "fl_ok (mem_free_list s)"
  shows "heap_rel (ram (mem_setup s)) (mem_free_list s) [(heap_size, False)] [heap_base]"
proof -
  let ?fl = "mem_free_list s"
  let ?m1 = "mem_block_init mem_heap MEM_HEAP_SIZE (ram s)"
  let ?m2 = "mem_free_list_init ?fl ?m1"
  have b: "4 dvd heap_base" "4 dvd heap_size" "16 \<le> heap_size" "heap_base + heap_size \<le> 2 ^ 32"
    by (simp_all add: heap_base_def heap_size_def)
  have shape: "heap_shape [(heap_size, True)]" using b by (simp add: heap_shape_def)
  have m1: "?m1 = put_tags heap_base heap_size True (ram s)"
    using mem_block_init_eq [OF b] by simp
  have "has_tags ?m1 (heap_base, heap_size, True)"
    unfolding m1 by (rule has_tags_put_tags [OF b])
  then have tags1: "tags_at ?m1 [(heap_size, True)]" by (simp add: tags_at_def)
  have "?m2 x = ?m1 x" if "tag_byte [(heap_size, True)] (unat x)" for x
  proof -
    have "\<not> node_bytes [?fl] x"
      using node_bytes_free [OF shape fl, of "[]" x] that by auto
    then show ?thesis
      by (simp add: mem_free_list_init_def INIT_LIST_def set_list_frame node_bytes_def)
  qed
  then have "tags_at ?m2 [(heap_size, True)]"
    by (intro tags_at_cong [OF shape_sizes [OF shape] shape_bound [OF shape] tags1])
  moreover have "dlist ?m2 ?fl []"
    using fl by (auto simp: mem_free_list_init_def fl_ok_def intro: dlist_init)
  ultimately have "heap_rel ?m2 ?fl ([] @ (heap_size, True) # []) []"
    using shape fl by (simp add: heap_rel_def free_addrs_def)
  from mem_free_list_add_rel(1) [OF this] show ?thesis
    by (simp add: mem_setup_def Let_def)
qed

subsection \<open>Request sizes\<close>

text \<open>The block size for a request of \<open>r\<close> bytes: rounded up to 4, plus two tags, at least 16.\<close>

definition block_size_of :: "nat \<Rightarrow> nat" where
  "block_size_of r = max 16 (4 * ((r + 3) div 4) + 8)"

lemma and_neg4: "x AND - 4 = x - x mod (4 :: u32)"
proof -
  have "x AND NOT (mask 2) = push_bit 2 (drop_bit 2 x)"
  proof (rule bit_word_eqI)
    fix n assume "n < LENGTH(32)"
    then show "bit (x AND NOT (mask 2)) n \<longleftrightarrow> bit (push_bit 2 (drop_bit 2 x)) n"
      by (cases "2 \<le> n") (auto simp: bit_simps simp flip: add_2_eq_Suc')
  qed
  moreover have "push_bit 2 (drop_bit 2 x) + take_bit 2 x = x"
    by (rule bits_ident)
  then have "push_bit 2 (drop_bit 2 x) = x - take_bit 2 x"
    by (simp add: algebra_simps)
  ultimately show ?thesis
    by (simp add: mask_eq_exp_minus_1 take_bit_eq_mod)
qed

lemma P2ROUND_4: "P2ROUND x 4 = of_nat (4 * ((unat x + 3) div 4))"
proof (cases "x = 0")
  case False
  define u where "u = unat x"
  have u: "0 < u" "u < 2 ^ 32" "x = of_nat u"
    using False unsigned_less [of x] by (auto simp: u_def unat_gt_0)
  have "- x = of_nat (2 ^ 32 - u)"
    using u by (simp add: of_nat_diff)
  then have "unat (- x) = 2 ^ 32 - u"
    using u by (simp only: unat_of_nat_u32)
  then have "unat (- x mod 4) = (2 ^ 32 - u) mod 4"
    by (simp add: unat_mod)
  then have m: "- x mod 4 = of_nat ((2 ^ 32 - u) mod 4)"
    by (simp add: word_unat_eq_iff unat_of_nat)
  have e: "4 * ((u + 3) div 4) = u + (2 ^ 32 - u) mod 4"
  proof -
    have "(u + d) mod 4 = 0 \<Longrightarrow> 4 * ((u + 3) div 4) = u + d mod 4" for d :: nat
      by presburger
    from this [of "2 ^ 32 - u"] show ?thesis using u(2) by simp
  qed
  have "P2ROUND x 4 = x + - x mod 4"
    by (simp add: P2ROUND_def and_neg4)
  also have "\<dots> = of_nat u + of_nat ((2 ^ 32 - u) mod 4)"
    unfolding m by (simp only: u(3))
  also have "\<dots> = of_nat (4 * ((u + 3) div 4))"
    by (simp only: e of_nat_add)
  finally show ?thesis by (simp only: u_def)
qed (simp add: P2ROUND_def)

lemma mem_convert_to_block_size_eq:
  assumes "unat r \<le> 2 ^ 32 - 12"
  shows "mem_convert_to_block_size r = of_nat (block_size_of (unat r))"
    and "block_size_of (unat r) < 2 ^ 32"
proof -
  let ?n = "4 * ((unat r + 3) div 4)"
  have n: "?n + 8 < 2 ^ 32"
    using assms by auto
  have "(of_nat ?n + 8 :: u32) = of_nat (?n + 8)" by simp
  moreover have "(of_nat (?n + 8) :: u32) < 16 \<longleftrightarrow> ?n + 8 < 16"
    using n of_nat_less_u32 [of "?n + 8" 16] by simp
  ultimately show "mem_convert_to_block_size r = of_nat (block_size_of (unat r))"
    by (auto simp: mem_convert_to_block_size_def Let_def MEM_ALIGN_def P2ROUND_4
        sizeof_mem_btag_def block_size_of_def max_def simp del: of_nat_add of_nat_mult)
  show "block_size_of (unat r) < 2 ^ 32" using n by (simp add: block_size_of_def)
qed

lemma block_size_of_facts: "16 \<le> block_size_of r" "4 dvd block_size_of r" "r + 8 \<le> block_size_of r"
  by (auto simp: block_size_of_def max_def)

subsection \<open>The abstract heap operations\<close>

text \<open>First fit with splitting: \<open>n\<close> is the block size wanted.\<close>

fun carve :: "nat \<Rightarrow> nat \<Rightarrow> nat \<Rightarrow> blocks \<Rightarrow> blocks" where
  "carve a c n [] = []"
| "carve a c n ((s, f) # bs) =
     (if a = c then (if s < n + 16 then [(s, True)] else [(n, True), (s - n, False)]) @ bs
      else (s, f) # carve (a + s) c n bs)"

definition alloc_spec :: "nat \<Rightarrow> blocks \<Rightarrow> nat list \<Rightarrow> (nat \<times> blocks \<times> nat list) option" where
  "alloc_spec n bs fs =
     (case List.find (\<lambda>c. n \<le> size_at bs c) fs of
        None \<Rightarrow> None
      | Some c \<Rightarrow> Some (c, carve heap_base c n bs,
          (if size_at bs c < n + 16 then remove1 c fs else (c + n) # remove1 c fs)))"

text \<open>Freeing the block at \<open>c\<close> and joining it with its free neighbours.\<close>

fun break_at :: "nat \<Rightarrow> nat \<Rightarrow> blocks \<Rightarrow> blocks \<times> blocks" where
  "break_at a c [] = ([], [])"
| "break_at a c ((s, f) # bs) =
     (if a = c then ([], (s, f) # bs)
      else (let (xs, ys) = break_at (a + s) c bs in ((s, f) # xs, ys)))"

definition join_prev :: "nat \<Rightarrow> nat \<Rightarrow> blocks \<Rightarrow> nat list \<Rightarrow> nat \<times> nat \<times> blocks \<times> nat list" where
  "join_prev c s xs fs =
     (if xs \<noteq> [] \<and> \<not> snd (last xs)
      then (let p = c - fst (last xs)
            in (p, fst (last xs) + s, butlast xs, p # remove1 p (remove1 c fs)))
      else (c, s, xs, fs))"

definition join_next :: "nat \<Rightarrow> nat \<Rightarrow> blocks \<Rightarrow> nat list \<Rightarrow> nat \<times> blocks \<times> nat list" where
  "join_next c s ys fs =
     (case ys of
        (t, False) # zs \<Rightarrow> (s + t, zs, c # remove1 (c + s) (remove1 c fs))
      | _ \<Rightarrow> (s, ys, fs))"

definition release_spec :: "nat \<Rightarrow> blocks \<Rightarrow> nat list \<Rightarrow> blocks \<times> nat list" where
  "release_spec c bs fs =
     (let (xs, ys) = break_at heap_base c bs;
          (p, s, xs, fs) = join_prev c (fst (hd ys)) xs (c # fs);
          (s, ys, fs) = join_next p s (tl ys) fs
      in (xs @ (s, False) # ys, fs))"

lemma carve_at:
  assumes "sizes_ok xs" "c = a + bsum xs"
  shows "carve a c n (xs @ (s, f) # ys) =
    xs @ (if s < n + 16 then [(s, True)] else [(n, True), (s - n, False)]) @ ys"
  using assms by (induction xs arbitrary: a) (auto simp: add.assoc)

lemma break_at_eq:
  assumes "sizes_ok xs" "c = a + bsum xs"
  shows "break_at a c (xs @ (s, f) # ys) = (xs, (s, f) # ys)"
  using assms by (induction xs arbitrary: a) (auto simp: add.assoc)

subsection \<open>The invariant\<close>

text \<open>No two neighbouring blocks are both free.\<close>

definition coalesced :: "blocks \<Rightarrow> bool" where
  "coalesced bs \<longleftrightarrow> successively (\<lambda>b c. snd b \<or> snd c) bs"

definition heap_inv :: "mem \<Rightarrow> u32 \<Rightarrow> blocks \<Rightarrow> nat list \<Rightarrow> bool" where
  "heap_inv m fl bs fs \<longleftrightarrow> heap_rel m fl bs fs \<and> coalesced bs"

lemma coalesced_simps [simp]:
  "coalesced []" "coalesced [b]"
  "coalesced ((s, True) # bs) \<longleftrightarrow> coalesced bs"
  "coalesced ((s, False) # bs) \<longleftrightarrow> (bs = [] \<or> snd (hd bs)) \<and> coalesced bs"
  by (cases bs; auto simp: coalesced_def)+

lemma coalesced_append:
  "coalesced (xs @ ys) \<longleftrightarrow>
     coalesced xs \<and> coalesced ys \<and> (xs = [] \<or> ys = [] \<or> snd (last xs) \<or> snd (hd ys))"
  by (auto simp: coalesced_def successively_append_iff)

subsection \<open>get_mem refines first-fit allocation\<close>

lemma machine_restore:
  "s\<lparr>primask := b, ram := m, primask := primask s\<rparr> = s\<lparr>ram := m\<rparr>"
  by (cases s) simp

lemma alloc_spec_cases [consumes 1, case_names none some]:
  assumes "heap_rel m fl bs fs"
  obtains (none) "List.find (\<lambda>c. n \<le> size_at bs c) fs = None" "alloc_spec n bs fs = None"
  | (some) c xs t ys where "List.find (\<lambda>c. n \<le> size_at bs c) fs = Some c"
      "bs = xs @ (t, False) # ys" "c = heap_base + bsum xs" "n \<le> t" "size_at bs c = t"
      "alloc_spec n bs fs = Some (c, xs @ (if t < n + 16 then [(t, True)] else [(n, True), (t - n, False)]) @ ys,
         if t < n + 16 then remove1 c fs else (c + n) # remove1 c fs)"
proof (cases "List.find (\<lambda>c. n \<le> size_at bs c) fs")
  case None
  then show thesis by (intro none) (simp_all add: alloc_spec_def)
next
  case (Some c)
  note r = heap_relD [OF assms]
  from Some have c: "n \<le> size_at bs c" "c \<in> set fs"
    by (auto simp: find_Some_iff)
  then obtain t where t: "(c, t, False) \<in> set (layout heap_base bs)"
    using r(8) by (auto simp: free_addrs_iff)
  then obtain xs ys where xs: "bs = xs @ (t, False) # ys" "c = heap_base + bsum xs"
    using layout_split by blast
  have sz: "size_at bs c = t" using size_at_eq [OF r(2) t] .
  have "sizes_ok xs" using r(2) xs by simp
  then have "carve heap_base c n bs =
      xs @ (if t < n + 16 then [(t, True)] else [(n, True), (t - n, False)]) @ ys"
    unfolding xs(1) using xs(2) by (rule carve_at)
  then show thesis
    using Some c xs sz by (intro some [of c xs t ys]) (simp_all add: alloc_spec_def)
qed

text \<open>The part of \<open>get_mem\<close> that works on the memory, after the search.\<close>

lemma get_mem_carve:
  assumes rel: "heap_rel m fl (xs @ (t, False) # ys) fs" and c: "c = heap_base + bsum xs"
    and n: "16 \<le> n" "4 dvd n" "n \<le> t"
  defines "m1 \<equiv> mem_free_list_remove fl (of_nat c) m"
  obtains b m2 m3 where "mem_block_split (of_nat c) (of_nat n) m1 = (b, m2)"
    "m3 = (if b \<noteq> 0 then mem_free_list_add fl b m2 else m2)"
    "heap_rel m3 fl (xs @ (if t < n + 16 then [(t, True)] else [(n, True), (t - n, False)]) @ ys)
      (if t < n + 16 then remove1 c fs else (c + n) # remove1 c fs)"
    "\<And>x. payload_byte (xs @ (t, False) # ys) (unat x) \<Longrightarrow> m3 x = m x"
proof -
  note r1 = mem_free_list_remove_rel [OF rel c, folded m1_def]
  note bf = block_facts [OF heap_relD(1) [OF rel] c]
  show thesis
  proof (cases "t < n + 16")
    case True
    have "mem_block_split (of_nat c) (of_nat n) m1 = (0, m1)"
      using mem_block_split_small [OF r1(1) c True] n(3) bf(5) heap_consts(1)
      by (simp add: heap_base_def heap_size_def)
    with True r1 show ?thesis by (intro that [of 0 m1 m1]) simp_all
  next
    case False
    then have "n + 16 \<le> t" by simp
    from mem_block_split_rel [OF r1(1) c n(1,2) this] obtain m2 where
      sp: "mem_block_split (of_nat c) (of_nat n) m1 = (of_nat (c + n), m2)"
      and rel2: "heap_rel m2 fl (xs @ (n, True) # (t - n, True) # ys) (remove1 c fs)"
      and pl2: "\<And>x. payload_byte (xs @ (n, True) # (t - n, True) # ys) (unat x) \<Longrightarrow> m2 x = m1 x"
      by blast
    have rel2': "heap_rel m2 fl ((xs @ [(n, True)]) @ (t - n, True) # ys) (remove1 c fs)"
      using rel2 by simp
    have c2: "c + n = heap_base + bsum (xs @ [(n, True)])" by (simp add: c)
    note ad = mem_free_list_add_rel [OF rel2' c2]
    have "c + n < 2 ^ 32" "0 < c + n" using n bf(4,5) heap_consts(1) by auto
    then have nz: "(of_nat (c + n) :: u32) \<noteq> 0"
      by (metis unat_of_nat_u32 unat_0 less_irrefl)
    show ?thesis
    proof (rule that [OF sp])
      show "mem_free_list_add fl (of_nat (c + n)) m2 =
          (if (of_nat (c + n) :: u32) \<noteq> 0 then mem_free_list_add fl (of_nat (c + n)) m2 else m2)"
        using nz by simp
      show "heap_rel (mem_free_list_add fl (of_nat (c + n)) m2) fl
          (xs @ (if t < n + 16 then [(t, True)] else [(n, True), (t - n, False)]) @ ys)
          (if t < n + 16 then remove1 c fs else (c + n) # remove1 c fs)"
        using ad(1) False by simp
      fix x :: u32 assume x: "payload_byte (xs @ (t, False) # ys) (unat x)"
      then have "payload_byte ((xs @ [(n, True)]) @ (t - n, False) # ys) (unat x)"
        using n(3) by (auto simp: payload_byte_def add.assoc)
      moreover from this have "payload_byte (xs @ (n, True) # (t - n, True) # ys) (unat x)"
        using payload_bytes_split [of "xs @ [(n, True)]" "t - n" ys "unat x"] by simp
      ultimately show "mem_free_list_add fl (of_nat (c + n)) m2 x = m x"
        using ad(2) pl2 r1(2) [OF x] by simp
    qed
  qed
qed


lemma carve_coalesced:
  assumes "coalesced (xs @ (t, False) # ys)"
  shows "coalesced (xs @ (if t < n + 16 then [(t, True)] else [(n, True), (t - n, False)]) @ ys)"
  using assms by (auto simp: coalesced_append)

lemma get_mem_step:
  assumes inv: "heap_inv (ram s) (mem_free_list s) bs fs" and sz: "sz \<noteq> 0" "unat sz \<le> 2 ^ 32 - 12"
  shows "case alloc_spec (block_size_of (unat sz)) bs fs of
      None \<Rightarrow> get_mem sz s = None
    | Some (c, bs', fs') \<Rightarrow> (\<exists>m. get_mem sz s = Some (of_nat (c + 4), s\<lparr>ram := m\<rparr>)
        \<and> heap_inv m (mem_free_list s) bs' fs'
        \<and> (\<forall>x. payload_byte bs (unat x) \<longrightarrow> m x = ram s x))"
proof -
  let ?n = "block_size_of (unat sz)" and ?fl = "mem_free_list s"
  have rel: "heap_rel (ram s) ?fl bs fs" and co: "coalesced bs"
    using inv by (auto simp: heap_inv_def)
  note bsz = mem_convert_to_block_size_eq [OF sz(2)]
  note fnd = mem_free_list_find_rel [OF rel bsz(2)]
  show ?thesis
    using rel
  proof (cases rule: alloc_spec_cases [where n = ?n])
    case none
    then show ?thesis
      using sz fnd by (simp add: get_mem_def bsz(1) irq_defs)
  next
    case (some c xs t ys)
    note bf = block_facts [OF heap_relD(1) [OF rel [unfolded some(2)]] some(3)]
    have nz: "(of_nat c :: u32) \<noteq> 0"
      using bf(4-7) heap_consts by (metis unat_of_nat_u32 unat_0 add_leE less_le_trans le_antisym less_irrefl
          add_le_same_cancel1 not_less)
    obtain b m2 m3 where g: "mem_block_split (of_nat c) (of_nat ?n) (mem_free_list_remove ?fl (of_nat c) (ram s)) = (b, m2)"
      "m3 = (if b \<noteq> 0 then mem_free_list_add ?fl b m2 else m2)"
      "heap_rel m3 ?fl (xs @ (if t < ?n + 16 then [(t, True)] else [(?n, True), (t - ?n, False)]) @ ys)
        (if t < ?n + 16 then remove1 c fs else (c + ?n) # remove1 c fs)"
      "\<And>x. payload_byte (xs @ (t, False) # ys) (unat x) \<Longrightarrow> m3 x = ram s x"
      using get_mem_carve [OF rel [unfolded some(2)] some(3) block_size_of_facts(1,2) some(4)] by blast
    have "get_mem sz s = Some (of_nat (c + 4), s\<lparr>ram := m3\<rparr>)"
      using sz(1) fnd some(1) nz g(1,2)
      by (simp add: get_mem_def bsz(1) irq_defs machine_restore mem_block_payload_def sizeof_mem_btag_def)
    then show ?thesis
      using some(6) g(3,4) co carve_coalesced unfolding some(2) heap_inv_def by auto
  qed
qed

subsection \<open>free_mem refines release with coalescing\<close>

lemma payload_byte_join:
  "payload_byte (xs @ (s, False) # (t, False) # ys) x \<longleftrightarrow> payload_byte (xs @ (s + t, False) # ys) x"
  by (auto simp: payload_byte_def add.assoc)

lemma block_addr_nonzero:
  assumes "heap_rel m fl (xs @ (s, f) # ys) fs" "c = heap_base + bsum xs"
  shows "(of_nat c :: u32) \<noteq> 0" "c < 2 ^ 32"
proof -
  note bf = block_facts [OF heap_relD(1) [OF assms(1)] assms(2)]
  show "c < 2 ^ 32" using bf(4,6) by simp
  then have "unat (of_nat c :: u32) = c" by (rule unat_of_nat_u32)
  with bf(7) heap_consts(4) show "(of_nat c :: u32) \<noteq> 0" by (intro notI) simp
qed

lemma merge_prev_rel:
  assumes rel: "heap_rel m fl (xs @ (s, False) # ys) fs" and c: "c = heap_base + bsum xs"
  defines "tmp \<equiv> mem_block_prev m (of_nat c)"
  obtains p s' xs' fs' m' where "join_prev c s xs fs = (p, s', xs', fs')"
    "(if tmp \<noteq> 0
      then (let (tmp, m) = mem_block_merge fl (of_nat c) tmp m in (if tmp \<noteq> 0 then tmp else of_nat c, m))
      else (of_nat c, m)) = (of_nat p, m')"
    "heap_rel m' fl (xs' @ (s', False) # ys) fs'" "p = heap_base + bsum xs'"
    "\<And>x. payload_byte (xs @ (s, False) # ys) (unat x) \<Longrightarrow> m' x = m x"
    "\<And>x. payload_byte (xs' @ (s', False) # ys) x = payload_byte (xs @ (s, False) # ys) x"
proof (cases xs rule: rev_cases)
  case Nil
  then have "tmp = 0" by (simp add: tmp_def mem_block_prev_def c)
  then show thesis
    using rel c Nil by (intro that [of c s xs fs m]) (simp_all add: join_prev_def)
next
  case (snoc xs0 pg)
  obtain t g where pg: "pg = (t, g)" by (cases pg)
  have xs: "xs = xs0 @ [(t, g)]" by (simp add: snoc pg)
  define q where "q = heap_base + bsum xs0"
  have cq: "c = q + t" by (simp add: c q_def xs)
  have rel': "heap_rel m fl (xs0 @ (t, g) # (s, False) # ys) fs" using rel by (simp add: xs)
  note bf = block_facts [OF heap_relD(1) [OF rel'] q_def]
  note ff = free_block_fields [OF rel' q_def]
  note nz = block_addr_nonzero [OF rel' q_def]
  have "foot q t = c - 4" by (simp add: foot_def cq)
  then have "mem_btag_size m (of_nat (c - 4)) = of_nat t"
    using block_fields(4) [OF ff(4) bf(3,4)] by simp
  moreover have "(of_nat c :: u32) - 4 = of_nat (c - 4)"
    using bf(4) cq of_nat_diff_u32 [of 4 c] by simp
  moreover have "(of_nat c :: u32) \<noteq> of_nat heap_base"
    using bf(4,7) block_addr_nonzero(2) [OF rel c] heap_consts(1) cq by (subst of_nat_eq_u32) auto
  ultimately have tmp: "tmp = of_nat q"
    by (simp add: tmp_def mem_block_prev_def mem_block_header_btag_def sizeof_mem_btag_def cq)
  show thesis
  proof (cases g)
    case True
    then have "mem_block_merge fl (of_nat c) tmp m = (0, m)"
      using ff(1) by (simp add: mem_block_merge_def tmp)
    then show thesis
      using rel c True nz(1) by (intro that [of c s xs fs m]) (simp_all add: join_prev_def xs tmp)
  next
    case False
    obtain m' where m': "mem_block_merge fl (of_nat c) (of_nat q) m = (of_nat q, m')"
      "heap_rel m' fl (xs0 @ (t + s, False) # ys) (q # remove1 q (remove1 c fs))"
      "\<And>x. payload_byte (xs0 @ (t, False) # (s, False) # ys) (unat x) \<Longrightarrow> m' x = m x"
      using mem_block_merge_rel [of m fl xs0 t s ys fs q c c q] rel' False q_def cq by auto
    show thesis
    proof (rule that [of q "t + s" xs0 "q # remove1 q (remove1 c fs)" m'])
      show "join_prev c s xs fs = (q, t + s, xs0, q # remove1 q (remove1 c fs))"
        using False by (simp add: join_prev_def xs cq)
      show "m' x = m x" if "payload_byte (xs @ (s, False) # ys) (unat x)" for x
        using that m'(3) False by (simp add: xs)
      show "payload_byte (xs0 @ (t + s, False) # ys) x = payload_byte (xs @ (s, False) # ys) x" for x
        using payload_byte_join [of xs0 t s ys x] False by (simp add: xs)
    qed (use m' nz(1) in \<open>simp_all add: tmp q_def\<close>)
  qed
qed

lemma merge_next_rel:
  assumes rel: "heap_rel m fl (xs @ (s, False) # ys) fs" and c: "c = heap_base + bsum xs"
  defines "tmp \<equiv> mem_block_next m (of_nat c)"
  obtains s' ys' fs' m' where "join_next c s ys fs = (s', ys', fs')"
    "(if tmp \<noteq> 0 then snd (mem_block_merge fl (of_nat c) tmp m) else m) = m'"
    "heap_rel m' fl (xs @ (s', False) # ys') fs'"
    "\<And>x. payload_byte (xs @ (s, False) # ys) (unat x) \<Longrightarrow> m' x = m x"
    "\<And>x. payload_byte (xs @ (s', False) # ys') x = payload_byte (xs @ (s, False) # ys) x"
proof (cases ys)
  case Nil
  have "c + s = heap_base + heap_size"
    using heap_relD(3) [OF rel] by (simp add: Nil c)
  then have "tmp = 0"
    using free_block_fields(3) [OF rel c]
    by (simp add: tmp_def mem_block_next_def Let_def del: of_nat_add)
  then show thesis
    using rel Nil by (intro that [of s ys fs m]) (simp_all add: join_next_def)
next
  case (Cons tg zs)
  obtain t g where tg: "tg = (t, g)" by (cases tg)
  have rel': "heap_rel m fl ((xs @ [(s, False)]) @ (t, g) # zs) fs" using rel by (simp add: Cons tg)
  have q: "c + s = heap_base + bsum (xs @ [(s, False)])" by (simp add: c)
  note bf = block_facts [OF heap_relD(1) [OF rel'] q]
  note ff = free_block_fields [OF rel' q]
  note nz = block_addr_nonzero [OF rel' q]
  have "(of_nat (c + s) :: u32) \<noteq> of_nat (heap_base + heap_size)"
    using bf(4,5) nz(2) heap_consts(1) by (subst of_nat_eq_u32) auto
  then have tmp: "tmp = of_nat (c + s)"
    using free_block_fields(3) [OF rel c]
    by (simp add: tmp_def mem_block_next_def Let_def del: of_nat_add)
  show thesis
  proof (cases g)
    case True
    then have "mem_block_merge fl (of_nat c) tmp m = (0, m)"
      using ff(1) by (simp add: mem_block_merge_def tmp del: of_nat_add)
    then show thesis
      using rel True by (intro that [of s ys fs m]) (simp_all add: join_next_def Cons tg)
  next
    case False
    obtain m' where m': "mem_block_merge fl (of_nat c) (of_nat (c + s)) m = (of_nat c, m')"
      "heap_rel m' fl (xs @ (s + t, False) # zs) (c # remove1 (c + s) (remove1 c fs))"
      "\<And>x. payload_byte (xs @ (s, False) # (t, False) # zs) (unat x) \<Longrightarrow> m' x = m x"
      using mem_block_merge_rel [of m fl xs s t zs fs c "c + s" c "c + s"] rel False c
      by (auto simp: Cons tg)
    show thesis
    proof (rule that [of "s + t" zs "c # remove1 (c + s) (remove1 c fs)" m'])
      show "join_next c s ys fs = (s + t, zs, c # remove1 (c + s) (remove1 c fs))"
        using False by (simp add: join_next_def Cons tg)
      show "(if tmp \<noteq> 0 then snd (mem_block_merge fl (of_nat c) tmp m) else m) = m'"
        using nz(1) m'(1) by (simp add: tmp del: of_nat_add)
      show "m' x = m x" if "payload_byte (xs @ (s, False) # ys) (unat x)" for x
        using that m'(3) False by (simp add: Cons tg)
      show "payload_byte (xs @ (s + t, False) # zs) x = payload_byte (xs @ (s, False) # ys) x" for x
        using payload_byte_join [of xs s t zs x] False by (simp add: Cons tg)
    qed (rule m'(2))
  qed
qed


lemma join_prev_coalesced:
  assumes "coalesced (xs @ (s, True) # ys)" "join_prev c s xs fs = (p, s', xs', fs')"
  shows "coalesced (xs' @ (s', True) # ys)" "xs' = [] \<or> snd (last xs')"
proof -
  have "coalesced (xs' @ (s', True) # ys) \<and> (xs' = [] \<or> snd (last xs'))"
  proof (cases "xs \<noteq> [] \<and> \<not> snd (last xs)")
    case True
    then obtain xs0 t where xs: "xs = xs0 @ [(t, False)]"
      by (metis append_butlast_last_id prod.collapse)
    with assms show ?thesis
      by (simp add: join_prev_def Let_def coalesced_append)
  next
    case False
    with assms show ?thesis by (auto simp: join_prev_def)
  qed
  then show "coalesced (xs' @ (s', True) # ys)" "xs' = [] \<or> snd (last xs')" by auto
qed

lemma join_next_coalesced:
  assumes "coalesced (xs @ (s, True) # ys)" "xs = [] \<or> snd (last xs)"
    and "join_next c s ys fs = (s', ys', fs')"
  shows "coalesced (xs @ (s', False) # ys')"
  using assms by (cases ys) (auto simp: join_next_def coalesced_append split: bool.splits)

lemma machine_masked:
  "ram (s\<lparr>primask := b\<rparr>) = ram s" "mem_free_list (s\<lparr>primask := b\<rparr>) = mem_free_list s"
  by (cases s; simp)+

lemma free_mem_stages:
  assumes "ptr \<noteq> 0" "mem_block_from_payload ptr = b"
    and "(if mem_block_prev (mem_free_list_add (mem_free_list s) b (ram s)) b \<noteq> 0
      then (let (tmp, m) = mem_block_merge (mem_free_list s) b
              (mem_block_prev (mem_free_list_add (mem_free_list s) b (ram s)) b)
              (mem_free_list_add (mem_free_list s) b (ram s))
            in (if tmp \<noteq> 0 then tmp else b, m))
      else (b, mem_free_list_add (mem_free_list s) b (ram s))) = (p, m2)"
    and "(if mem_block_next m2 p \<noteq> 0
      then snd (mem_block_merge (mem_free_list s) p (mem_block_next m2 p) m2) else m2) = m3"
  shows "free_mem ptr s = s\<lparr>ram := m3\<rparr>"
  using assms(1)
  by (simp only: free_mem_def irq_defs Let_def prod.case machine_masked if_False assms(2)
      assms(3) [unfolded Let_def] assms(4) machine_restore)

lemma free_mem_step:
  assumes inv: "heap_inv (ram s) (mem_free_list s) bs fs"
    and blk: "(c, n, True) \<in> set (layout heap_base bs)"
  shows "\<exists>m. free_mem (of_nat (c + 4)) s = s\<lparr>ram := m\<rparr> \<and>
    (case release_spec c bs fs of (bs', fs') \<Rightarrow>
       heap_inv m (mem_free_list s) bs' fs' \<and>
       (\<forall>x. payload_byte bs' (unat x) \<longrightarrow> m x = ram s x))"
proof -
  let ?fl = "mem_free_list s"
  obtain xs ys where bs: "bs = xs @ (n, True) # ys" and c: "c = heap_base + bsum xs"
    using layout_split [OF blk] by blast
  have rel: "heap_rel (ram s) ?fl (xs @ (n, True) # ys) fs" and co: "coalesced (xs @ (n, True) # ys)"
    using inv by (auto simp: heap_inv_def bs)
  let ?m1 = "mem_free_list_add ?fl (of_nat c) (ram s)"
  note a1 = mem_free_list_add_rel [OF rel c]
  obtain p s1 xs1 fs1 m2 where s1: "join_prev c n xs (c # fs) = (p, s1, xs1, fs1)"
    "(if mem_block_prev ?m1 (of_nat c) \<noteq> 0
      then (let (tmp, m) = mem_block_merge ?fl (of_nat c) (mem_block_prev ?m1 (of_nat c)) ?m1
            in (if tmp \<noteq> 0 then tmp else of_nat c, m))
      else (of_nat c, ?m1)) = (of_nat p, m2)"
    "heap_rel m2 ?fl (xs1 @ (s1, False) # ys) fs1" "p = heap_base + bsum xs1"
    "\<And>x. payload_byte (xs @ (n, False) # ys) (unat x) \<Longrightarrow> m2 x = ?m1 x"
    "\<And>x. payload_byte (xs1 @ (s1, False) # ys) x = payload_byte (xs @ (n, False) # ys) x"
    using merge_prev_rel [OF a1(1) c] by blast
  obtain s2 ys2 fs2 m3 where s2: "join_next p s1 ys fs1 = (s2, ys2, fs2)"
    "(if mem_block_next m2 (of_nat p) \<noteq> 0
      then snd (mem_block_merge ?fl (of_nat p) (mem_block_next m2 (of_nat p)) m2) else m2) = m3"
    "heap_rel m3 ?fl (xs1 @ (s2, False) # ys2) fs2"
    "\<And>x. payload_byte (xs1 @ (s1, False) # ys) (unat x) \<Longrightarrow> m3 x = m2 x"
    "\<And>x. payload_byte (xs1 @ (s2, False) # ys2) x = payload_byte (xs1 @ (s1, False) # ys) x"
    using merge_next_rel [OF s1(3,4)] by blast
  have ptr: "mem_block_from_payload (of_nat (c + 4)) = of_nat c"
    by (simp add: mem_block_from_payload_def sizeof_mem_btag_def)
  have nz: "(of_nat (c + 4) :: u32) \<noteq> 0"
  proof -
    have "c + 4 < 2 ^ 32" using block_facts(4,6) [OF heap_relD(1) [OF rel] c] by simp
    then have "unat (of_nat (c + 4) :: u32) = c + 4" by (rule unat_of_nat_u32)
    then show ?thesis by (intro notI) simp
  qed
  have "sizes_ok xs" using heap_relD(2) [OF rel] by simp
  then have "break_at heap_base c bs = (xs, (n, True) # ys)"
    using c unfolding bs by (rule break_at_eq)
  then have spec: "release_spec c bs fs = (xs1 @ (s2, False) # ys2, fs2)"
    by (simp add: release_spec_def s1(1) s2(1))
  have "coalesced (xs1 @ (s2, False) # ys2)"
    using join_prev_coalesced [OF co s1(1)] s2(1) by (blast intro: join_next_coalesced)
  then have "heap_inv m3 ?fl (xs1 @ (s2, False) # ys2) fs2"
    using s2(3) by (simp add: heap_inv_def)
  moreover have "m3 x = ram s x" if "payload_byte (xs1 @ (s2, False) # ys2) (unat x)" for x
    using that s1(5,6) s2(4,5) a1(2) by metis
  moreover have "free_mem (of_nat (c + 4)) s = s\<lparr>ram := m3\<rparr>"
    using free_mem_stages [OF nz ptr s1(2) s2(2)] .
  ultimately show ?thesis
    by (intro exI [of _ m3]) (simp add: spec)
qed

subsection \<open>Live allocations\<close>

lemma payload_byte_live: 
  assumes "sizes_ok bs"
  shows "payload_byte bs x \<longleftrightarrow> (\<exists>(p, l) \<in> live bs. p \<le> x \<and> x < p + l)"
proof -
  have "c + s - 4 = c + 4 + (s - 8)" if "(c, s, True) \<in> set (layout heap_base bs)" for c s
    using layout_size [OF assms that] by auto
  then show ?thesis
    unfolding payload_byte_def live_def by (auto; metis)
qed

lemma live_append: "live (xs @ ys) =
  live xs \<union> {(c + 4, s - 8) | c s. (c, s, True) \<in> set (layout (heap_base + bsum xs) ys)}"
  by (auto simp: live_def)

lemma live_flag:
  assumes "c = heap_base + bsum xs"
  shows "live (xs @ (s, True) # ys) = insert (c + 4, s - 8) (live (xs @ (s, False) # ys))"
  using assms by (auto simp: live_def)

lemma live_bounds:
  assumes "heap_shape bs" "(p, l) \<in> live bs"
  shows "heap_base < p" "p + l < heap_base + heap_size" "8 \<le> l" "4 dvd p"
proof -
  obtain c s where cs: "(c, s, True) \<in> set (layout heap_base bs)" "p = c + 4" "l = s - 8"
    using assms(2) by (auto simp: live_def)
  have ok: "sizes_ok bs" "bsum bs = heap_size" using assms(1) by (auto simp: heap_shape_def)
  note b = layout_bounds [OF cs(1)] layout_size [OF ok(1) cs(1)] layout_aligned [OF ok(1) heap_consts(2) cs(1)]
  show "heap_base < p" "p + l < heap_base + heap_size" "8 \<le> l" "4 dvd p"
    using b cs(2,3) ok(2) by auto
qed

text \<open>Two live allocations are the same or share no byte.\<close>

lemma live_apart:
  assumes "heap_shape bs" "(p, l) \<in> live bs" "(q, k) \<in> live bs"
  shows "(p = q \<and> l = k) \<or> p + l \<le> q \<or> q + k \<le> p"
proof -
  obtain c s where cs: "(c, s, True) \<in> set (layout heap_base bs)" "p = c + 4" "l = s - 8"
    using assms(2) by (auto simp: live_def)
  obtain d t where dt: "(d, t, True) \<in> set (layout heap_base bs)" "q = d + 4" "k = t - 8"
    using assms(3) by (auto simp: live_def)
  have ok: "sizes_ok bs" using assms(1) by (auto simp: heap_shape_def)
  show ?thesis
    using layout_apart [OF ok cs(1) dt(1)] layout_size [OF ok cs(1)] layout_size [OF ok dt(1)] cs(2,3) dt(2,3)
    by auto
qed


lemma live_join: "live (xs @ (s, False) # (t, False) # ys) = live (xs @ (s + t, False) # ys)"
  by (auto simp: live_def add.assoc)

lemma live_join_prev:
  assumes "c = heap_base + bsum xs" "join_prev c s xs fs = (p, s', xs', fs')"
  shows "live (xs' @ (s', False) # ys) = live (xs @ (s, False) # ys)"
proof (cases "xs \<noteq> [] \<and> \<not> snd (last xs)")
  case True
  then obtain xs0 t where xs: "xs = xs0 @ [(t, False)]"
    by (metis append_butlast_last_id prod.collapse)
  with assms(2) live_join [of xs0 t s ys] show ?thesis
    by (auto simp: join_prev_def Let_def)
next
  case False
  with assms show ?thesis by (auto simp: join_prev_def)
qed

lemma live_join_next:
  assumes "join_next c s ys fs = (s', ys', fs')"
  shows "live (xs @ (s', False) # ys') = live (xs @ (s, False) # ys)"
proof (cases "\<exists>t zs. ys = (t, False) # zs")
  case True
  then obtain t zs where ys: "ys = (t, False) # zs" by blast
  with assms live_join [of xs s t zs] show ?thesis
    by (simp add: join_next_def)
next
  case False
  with assms show ?thesis by (cases ys) (auto simp: join_next_def split: bool.splits)
qed

lemma payload_not_live:
  assumes "heap_shape (xs @ (s, True) # ys)" "c = heap_base + bsum xs"
  shows "(c + 4, k) \<notin> live (xs @ (s, False) # ys)"
proof
  assume "(c + 4, k) \<in> live (xs @ (s, False) # ys)"
  then obtain u where u: "(c, u, True) \<in> set (layout heap_base (xs @ (s, False) # ys))"
    by (auto simp: live_def)
  have ok: "sizes_ok (xs @ (s, False) # ys)" using assms(1) by (simp add: heap_shape_def)
  have "(c, s, False) \<in> set (layout heap_base (xs @ (s, False) # ys))" by (simp add: assms(2))
  with layout_apart [OF ok u this] layout_size [OF ok u] layout_size [OF ok this] show False by auto
qed

text \<open>Allocation adds one live range of at least the size wanted; release removes exactly one.\<close>

lemma alloc_spec_live:
  assumes rel: "heap_rel m fl bs fs" and a: "alloc_spec n bs fs = Some (c, bs', fs')" "16 \<le> n"
  obtains l where "n - 8 \<le> l" "live bs' = insert (c + 4, l) (live bs)"
    "\<And>k. (c + 4, k) \<notin> live bs"
  using rel
proof (cases rule: alloc_spec_cases [where n = n])
  case none
  with a(1) show thesis by simp
next
  case (some d xs t ys)
  have d: "d = c" and bs': "bs' = xs @ (if t < n + 16 then [(t, True)] else [(n, True), (t - n, False)]) @ ys"
    using some(6) a(1) by auto
  have shape: "heap_shape (xs @ (t, True) # ys)"
    using heap_relD(1) [OF rel] unfolding some(2) by (rule heap_shape_flag)
  note c = some(3) [unfolded d]
  have nl: "(c + 4, k) \<notin> live bs" for k
    using payload_not_live [OF shape c] by (simp add: some(2))
  show thesis
  proof (cases "t < n + 16")
    case True
    then show thesis
      using nl bs' live_flag [OF c, of t ys] some(4) by (intro that [of "t - 8"]) (auto simp: some(2))
  next
    case False
    have "live bs' = insert (c + 4, n - 8) (live bs)"
      using False some(4) bs' live_flag [OF c, of n "(t - n, False) # ys"] live_join [of xs n "t - n" ys]
      by (simp add: some(2))
    with nl show thesis by (intro that [of "n - 8"]) auto
  qed
qed

lemma release_spec_live:
  assumes rel: "heap_rel m fl bs fs" and blk: "(c, n, True) \<in> set (layout heap_base bs)"
    and spec: "release_spec c bs fs = (bs', fs')"
  shows "live bs' = live bs - {(c + 4, n - 8)}"
proof -
  obtain xs ys where bs: "bs = xs @ (n, True) # ys" and c: "c = heap_base + bsum xs"
    using layout_split [OF blk] by blast
  have shape: "heap_shape (xs @ (n, True) # ys)" using heap_relD(1) [OF rel] by (simp add: bs)
  have "sizes_ok xs" using heap_relD(2) [OF rel] by (simp add: bs)
  then have br: "break_at heap_base c bs = (xs, (n, True) # ys)"
    using c unfolding bs by (rule break_at_eq)
  obtain p s1 xs1 fs1 where j1: "join_prev c n xs (c # fs) = (p, s1, xs1, fs1)"
    by (metis prod_cases4)
  obtain s2 ys2 fs2 where j2: "join_next p s1 ys fs1 = (s2, ys2, fs2)" by (metis prod_cases3)
  have "bs' = xs1 @ (s2, False) # ys2"
    using spec by (simp add: release_spec_def br j1 j2)
  then have "live bs' = live (xs @ (n, False) # ys)"
    using live_join_prev [OF c j1, of ys] live_join_next [OF j2, of xs1] by simp
  then show ?thesis
    using live_flag [OF c, of n ys] payload_not_live [OF shape c] by (simp add: bs)
qed


subsection \<open>Room\<close>

text \<open>Some free block has at least \<open>n\<close> bytes, so that a request of a block of up to \<open>n\<close> bytes returns.\<close>

definition has_room :: "nat \<Rightarrow> blocks \<Rightarrow> bool" where
  "has_room n bs \<longleftrightarrow> n = 0 \<or> (\<exists>t. (t, False) \<in> set bs \<and> n \<le> t)"

lemma has_room_0 [simp]: "has_room 0 bs"
  by (simp add: has_room_def)

lemma alloc_spec_returns:
  assumes rel: "heap_rel m fl bs fs" and room: "has_room n bs" "0 < n"
  shows "alloc_spec n bs fs \<noteq> None"
proof -
  note r = heap_relD [OF rel]
  obtain t where t: "(t, False) \<in> set bs" "n \<le> t" using room by (auto simp: has_room_def)
  then obtain xs ys where bs: "bs = xs @ (t, False) # ys" by (auto simp: in_set_conv_decomp)
  let ?c = "heap_base + bsum xs"
  have c: "(?c, t, False) \<in> set (layout heap_base bs)" by (simp add: bs)
  then have "?c \<in> set fs" using r(8) by (auto simp: free_addrs_iff)
  moreover have "n \<le> size_at bs ?c" using size_at_eq [OF r(2) c] t(2) by simp
  ultimately have "List.find (\<lambda>c. n \<le> size_at bs c) fs \<noteq> None"
    by (auto simp: find_None_iff)
  then show ?thesis by (auto simp: alloc_spec_def split: option.splits)
qed

lemma alloc_spec_room:
  assumes rel: "heap_rel m fl bs fs" and a: "alloc_spec n bs fs = Some (c, bs', fs')"
    and room: "has_room (k + n) bs" "k = 0 \<or> 16 \<le> k" "0 < n"
  shows "has_room k bs'"
proof (cases "k = 0")
  case False
  then obtain u where u: "(u, False) \<in> set bs" "k + n \<le> u" using room by (auto simp: has_room_def)
  from rel show ?thesis
  proof (cases rule: alloc_spec_cases [where n = n])
    case (some d xs t ys)
    have bs': "bs' = xs @ (if t < n + 16 then [(t, True)] else [(n, True), (t - n, False)]) @ ys"
      using some(6) a by simp
    from u(1) consider "(u, False) \<in> set xs \<union> set ys" | "u = t" unfolding some(2) by auto
    then show ?thesis
    proof cases
      case 1
      then have "(u, False) \<in> set bs'" by (auto simp: bs')
      with u(2) show ?thesis by (auto simp: has_room_def)
    next
      case 2
      then have "(t - n, False) \<in> set bs'" "k \<le> t - n" using u(2) room(2) False by (auto simp: bs')
      then show ?thesis by (auto simp: has_room_def)
    qed
  qed (use a in simp)
qed simp

lemma release_spec_room:
  assumes rel: "heap_rel m fl bs fs" and blk: "(c, n, True) \<in> set (layout heap_base bs)"
    and spec: "release_spec c bs fs = (bs', fs')" and room: "has_room k bs"
  shows "has_room k bs'"
proof -
  obtain xs ys where bs: "bs = xs @ (n, True) # ys" and c: "c = heap_base + bsum xs"
    using layout_split [OF blk] by blast
  have "sizes_ok xs" using heap_relD(2) [OF rel] by (simp add: bs)
  then have br: "break_at heap_base c bs = (xs, (n, True) # ys)"
    using c unfolding bs by (rule break_at_eq)
  obtain p s1 xs1 fs1 where j1: "join_prev c n xs (c # fs) = (p, s1, xs1, fs1)"
    by (metis prod_cases4)
  obtain s2 ys2 fs2 where j2: "join_next p s1 ys fs1 = (s2, ys2, fs2)" by (metis prod_cases3)
  have bs': "bs' = xs1 @ (s2, False) # ys2"
    using spec by (simp add: release_spec_def br j1 j2)
  have p: "u \<le> s1" if "(u, False) \<in> set xs" "(u, False) \<notin> set xs1" for u
    using j1 that by (cases xs rule: rev_cases) (auto simp: join_prev_def Let_def split: if_splits)
  have q: "u \<le> s2" if "(u, False) \<in> set ys" "(u, False) \<notin> set ys2" for u
    using j2 that by (cases ys) (auto simp: join_next_def split: bool.splits)
  have s: "s1 \<le> s2" using j2 by (cases ys) (auto simp: join_next_def split: bool.splits)
  show ?thesis
  proof (cases "k = 0")
    case False
    then obtain u where u: "(u, False) \<in> set bs" "k \<le> u" using room by (auto simp: has_room_def)
    then have "(u, False) \<in> set bs' \<or> u \<le> s2" using p q s by (fastforce simp: bs bs')
    then show ?thesis using u(2) by (auto simp: has_room_def bs')
  qed simp
qed

end
