(* ===== verification/Heap_Interface.thy ===== *)
theory Heap_Interface
  imports Memory_Correct
begin

text \<open>
  What the rest of the system relies on when it calls \<open>get_mem\<close> and \<open>free_mem\<close>, as the locale
  \<open>heap_interface\<close>, its interpretation on the allocator of \<open>memory.c\<close>, and the properties of the
  allocator. A client keeps a ledger of the buffers it holds (address, bytes asked for) and a
  ghost copy of what it wrote; \<open>ledger_ok\<close> is the contract between the two.
\<close>

subsection \<open>The live buffers of a machine state\<close>

type_synonym ledger = "(nat \<times> nat) set"

definition heap_rep :: "'a machine_scheme \<Rightarrow> (nat \<times> nat) set \<Rightarrow> bool" where
  "heap_rep s L \<longleftrightarrow> (\<exists>bs fs. heap_inv (ram s) (mem_free_list s) bs fs \<and> L = live bs)"

definition poke :: "u32 \<Rightarrow> u8 \<Rightarrow> 'a machine_scheme \<Rightarrow> 'a machine_scheme" where
  "poke x v s = s\<lparr>ram := (ram s)(x := v)\<rparr>"

text \<open>Requests whose block size does not wrap around.\<close>

definition request_ok :: "u32 \<Rightarrow> bool" where
  "request_ok r \<longleftrightarrow> r \<noteq> 0 \<and> unat r \<le> 2 ^ 32 - 12"

text \<open>Two buffers \<open>(p, l)\<close> and \<open>(q, k)\<close> share no byte.\<close>

definition apart :: "nat \<times> nat \<Rightarrow> nat \<times> nat \<Rightarrow> bool" where
  "apart = (\<lambda>(p, l) (q, k). p + l \<le> q \<or> q + k \<le> p)"

definition in_buf :: "nat \<times> nat \<Rightarrow> u32 \<Rightarrow> bool" where
  "in_buf = (\<lambda>(p, l) x. p \<le> unat x \<and> unat x < p + l)"

lemma heap_inv_change:
  assumes inv: "heap_inv m fl bs fs" and ch: "\<And>x. m' x \<noteq> m x \<Longrightarrow> payload_byte bs (unat x)"
  shows "heap_inv m' fl bs fs"
proof -
  have rel: "heap_rel m fl bs fs" and co: "coalesced bs" using inv by (auto simp: heap_inv_def)
  note r = heap_relD [OF rel]
  have "tags_at m' bs"
    using ch heap_bytes_disjoint(1) [OF r(2)]
    by (intro tags_at_cong [OF r(2) shape_bound [OF r(1)] r(5)]) blast
  moreover have "dlist m' fl (map node_ptr fs)"
    using ch node_bytes_free [OF r(1,4), of fs] r(8)
    by (intro dlist_cong [OF r(6)]) blast
  ultimately show ?thesis using r co by (simp add: heap_inv_def heap_rel_def)
qed

lemma heap_rep_cases:
  assumes "heap_rep s L"
  obtains bs fs where "heap_inv (ram s) (mem_free_list s) bs fs" "heap_shape bs" "L = live bs"
  using assms by (auto simp: heap_rep_def heap_inv_def heap_rel_def)

lemma heap_rep_bounds:
  "heap_rep s L \<Longrightarrow> (p, l) \<in> L \<Longrightarrow> heap_base < p \<and> p + l < heap_base + heap_size \<and> 8 \<le> l \<and> 4 dvd p"
  by (erule heap_rep_cases) (auto dest: live_bounds)

lemma heap_rep_apart:
  "heap_rep s L \<Longrightarrow> a \<in> L \<Longrightarrow> b \<in> L \<Longrightarrow> a = b \<or> apart a b"
  by (erule heap_rep_cases) (cases a; cases b; auto simp: apart_def dest: live_apart)

text \<open>The tags determine the blocks, so a heap has one ledger.\<close>

lemma has_tags_unique:
  assumes a: "has_tags m (c, s, f)" "has_tags m (c, t, g)" "4 dvd s" "4 dvd t" and b: "s < 2 ^ 32" "t < 2 ^ 32"
  shows "s = t \<and> f = g"
proof
  have e: "btag s f = btag t g" using a(1,2) by (simp add: has_tags_def)
  have "(of_nat s :: u32) = of_nat t" using btag_value(1) [OF a(3), of f] btag_value(1) [OF a(4), of g] e by simp
  then have "unat (of_nat s :: u32) = unat (of_nat t :: u32)" by simp
  then show "s = t" using b by (simp add: unat_of_nat take_bit_nat_eq_self)
  show "f = g" using btag_value(2) [OF a(3), of f] btag_value(2) [OF a(4), of g] e by simp
qed

lemma layout_unique:
  assumes "list_all (has_tags m) (layout a bs)" "list_all (has_tags m) (layout a cs)" "sizes_ok bs" "sizes_ok cs"
    "bsum bs = bsum cs" "bsum bs < 2 ^ 32"
  shows "bs = cs"
  using assms
proof (induction bs arbitrary: a cs)
  case Nil
  then show ?case by (cases cs) auto
next
  case (Cons b bs)
  obtain s f where b: "b = (s, f)" by (cases b)
  obtain c cs' where c: "cs = c # cs'" using Cons.prems(3,5) by (cases cs) (auto simp: b)
  obtain t g where c': "c = (t, g)" by (cases c)
  have "s = t \<and> f = g"
    by (rule has_tags_unique [of m a]) (use Cons.prems in \<open>auto simp: b c c'\<close>)
  moreover have "bs = cs'" by (rule Cons.IH [of "a + s"]) (use Cons.prems calculation in \<open>auto simp: b c c'\<close>)
  ultimately show ?case by (simp add: b c c')
qed

lemma heap_rep_unique: "heap_rep s L \<Longrightarrow> heap_rep s K \<Longrightarrow> L = K"
proof (elim heap_rep_cases)
  fix bs fs cs gs
  assume h: "heap_inv (ram s) (mem_free_list s) bs fs" "heap_inv (ram s) (mem_free_list s) cs gs" "L = live bs" "K = live cs"
  then have r: "heap_rel (ram s) (mem_free_list s) bs fs" "heap_rel (ram s) (mem_free_list s) cs gs" by (simp_all add: heap_inv_def)
  have "bs = cs"
    by (rule layout_unique [of "ram s" heap_base]) (use heap_relD [OF r(1)] heap_relD [OF r(2)] in \<open>simp_all add: tags_at_def heap_size_def\<close>)
  then show "L = K" using h by simp
qed

lemma payload_byte_in_buf: "heap_shape bs \<Longrightarrow> payload_byte bs (unat x) \<longleftrightarrow> (\<exists>b \<in> live bs. in_buf b x)"
  by (auto simp: payload_byte_live shape_sizes in_buf_def)

lemma get_mem_heap_rep:
  assumes rep: "heap_rep s L" and r: "request_ok r" and g: "get_mem r s = Some (p, s')"
  shows "\<exists>l \<ge> unat r. heap_rep s' (insert (unat p, l) L) \<and> (\<forall>k. (unat p, k) \<notin> L)"
    and "b \<in> L \<Longrightarrow> in_buf b x \<Longrightarrow> ram s' x = ram s x"
    and "\<exists>m. s' = s\<lparr>ram := m\<rparr>"
proof -
  obtain bs fs where inv: "heap_inv (ram s) (mem_free_list s) bs fs" and shape: "heap_shape bs" and L: "L = live bs"
    using rep by (rule heap_rep_cases)
  have rel: "heap_rel (ram s) (mem_free_list s) bs fs" using inv by (simp add: heap_inv_def)
  have rr: "r \<noteq> 0" "unat r \<le> 2 ^ 32 - 12" using r by (auto simp: request_ok_def)
  let ?n = "block_size_of (unat r)"
  obtain c bs' fs' where a: "alloc_spec ?n bs fs = Some (c, bs', fs')"
    using get_mem_step [OF inv rr] g by (cases "alloc_spec ?n bs fs") auto
  then obtain m where m: "get_mem r s = Some (of_nat (c + 4), s\<lparr>ram := m\<rparr>)"
    "heap_inv m (mem_free_list s) bs' fs'" "\<And>x. payload_byte bs (unat x) \<Longrightarrow> m x = ram s x"
    using get_mem_step [OF inv rr] by auto
  from a block_size_of_facts(1) obtain l where l: "?n - 8 \<le> l" "live bs' = insert (c + 4, l) (live bs)"
    "\<And>k. (c + 4, k) \<notin> live bs"
    using rel alloc_spec_live by metis
  have s': "p = of_nat (c + 4)" "s' = s\<lparr>ram := m\<rparr>" using g m(1) by auto
  have shape': "heap_shape bs'" using m(2) by (auto simp: heap_inv_def heap_rel_def)
  have "c + 4 + l < heap_base + heap_size" using live_bounds(2) [OF shape'] l(2) by blast
  then have p: "unat p = c + 4" using heap_consts(1) unfolding s'(1) by (intro unat_of_nat_u32) simp
  have "heap_rep s' (insert (unat p, l) L)"
    unfolding heap_rep_def using m(2) l(2) by (auto simp: p s'(2) L)
  moreover have "unat r \<le> l" using l(1) block_size_of_facts(3) [of "unat r"] by simp
  ultimately show "\<exists>l \<ge> unat r. heap_rep s' (insert (unat p, l) L) \<and> (\<forall>k. (unat p, k) \<notin> L)"
    using l(3) by (auto simp: p L)
  show "ram s' x = ram s x" if "b \<in> L" "in_buf b x"
    using that m(3) payload_byte_in_buf [OF shape] by (auto simp: s'(2) L)
  show "\<exists>m. s' = s\<lparr>ram := m\<rparr>" using s'(2) by blast
qed

lemma free_mem_heap_rep:
  assumes rep: "heap_rep s L" and p: "(unat p, l) \<in> L"
  shows "heap_rep (free_mem p s) (L - {(unat p, l)})"
    and "b \<in> L \<Longrightarrow> b \<noteq> (unat p, l) \<Longrightarrow> in_buf b x \<Longrightarrow> ram (free_mem p s) x = ram s x"
    and "\<exists>m. free_mem p s = s\<lparr>ram := m\<rparr>"
proof -
  obtain bs fs where inv: "heap_inv (ram s) (mem_free_list s) bs fs" and shape: "heap_shape bs" and L: "L = live bs"
    using rep by (rule heap_rep_cases)
  have rel: "heap_rel (ram s) (mem_free_list s) bs fs" using inv by (simp add: heap_inv_def)
  obtain c n where blk: "(c, n, True) \<in> set (layout heap_base bs)" and cn: "unat p = c + 4" "l = n - 8"
    using p unfolding L live_def by auto
  have pc: "of_nat (c + 4) = p" unfolding cn(1) [symmetric] by simp
  obtain bs' fs' where r: "release_spec c bs fs = (bs', fs')" by (cases "release_spec c bs fs") auto
  obtain m where m: "free_mem p s = s\<lparr>ram := m\<rparr>" "heap_inv m (mem_free_list s) bs' fs'"
    "\<And>x. payload_byte bs' (unat x) \<Longrightarrow> m x = ram s x"
    using free_mem_step [OF inv blk] unfolding pc r by auto
  have lv: "live bs' = L - {(unat p, l)}"
    using release_spec_live [OF rel blk r] cn by (simp add: L)
  have shape': "heap_shape bs'" using m(2) by (auto simp: heap_inv_def heap_rel_def)
  show "heap_rep (free_mem p s) (L - {(unat p, l)})"
    unfolding heap_rep_def using m(1,2) lv by auto
  show "ram (free_mem p s) x = ram s x" if "b \<in> L" "b \<noteq> (unat p, l)" "in_buf b x"
    using that m(1,3) payload_byte_in_buf [OF shape'] lv by auto
  show "\<exists>m. free_mem p s = s\<lparr>ram := m\<rparr>" using m(1) by blast
qed

lemma poke_heap_rep:
  assumes "heap_rep s L" "b \<in> L" "in_buf b x"
  shows "heap_rep (poke x v s) L"
proof -
  obtain bs fs where inv: "heap_inv (ram s) (mem_free_list s) bs fs" "heap_shape bs" "L = live bs"
    using assms(1) by (rule heap_rep_cases)
  then have "payload_byte bs (unat x)" using assms(2,3) payload_byte_in_buf by blast
  then have "heap_inv ((ram s)(x := v)) (mem_free_list s) bs fs"
    by (intro heap_inv_change [OF inv(1)]) (auto split: if_splits)
  with inv(3) show ?thesis by (auto simp: heap_rep_def poke_def)
qed

lemma mem_setup_heap_rep:
  assumes "fl_ok (mem_free_list s)"
  shows "heap_rep (mem_setup s) {}"
proof -
  have "mem_free_list (mem_setup s) = mem_free_list s" by (simp add: mem_setup_def Let_def)
  then show ?thesis
    using mem_setup_rel [OF assms] by (auto simp: heap_rep_def heap_inv_def live_def)
qed


lemma heap_rep_change:
  assumes rep: "heap_rep s L" and ch: "\<And>x. m x \<noteq> ram s x \<Longrightarrow> \<exists>b \<in> L. in_buf b x"
  shows "heap_rep (s\<lparr>ram := m\<rparr>) L"
proof -
  obtain bs fs where inv: "heap_inv (ram s) (mem_free_list s) bs fs" "heap_shape bs" and L: "L = live bs"
    using rep by (rule heap_rep_cases)
  have "heap_inv m (mem_free_list s) bs fs"
    by (rule heap_inv_change [OF inv(1)]) (use ch payload_byte_in_buf [OF inv(2)] L in blast)
  then show ?thesis by (auto simp: heap_rep_def L)
qed

text \<open>The bytes from offset \<open>k\<close> on inside a live buffer.\<close>

lemma in_buf_range:
  assumes "heap_rep s L" "(unat p, l) \<in> L" "k + n \<le> l" "in_range (p + of_nat k) n x"
  shows "in_buf (unat p, l) x"
proof -
  have b: "unat p + l < 2 ^ 32" using heap_rep_bounds [OF assms(1,2)] heap_consts(1) by simp
  then have "(p + of_nat k) = of_nat (unat p + k)" by simp
  moreover have "unat p + k + n \<le> 2 ^ 32" using b assms(3) by simp
  ultimately have "unat p + k \<le> unat x \<and> unat x < unat p + k + n"
    using assms(4) in_range_of_nat [of "unat p + k" n x] by (simp del: of_nat_add)
  then show ?thesis using assms(3) by (auto simp: in_buf_def)
qed

lemma write_bytes_heap_rep:
  assumes "heap_rep s L" "(unat p, l) \<in> L" "k + length bs \<le> l"
  shows "heap_rep (s\<lparr>ram := write_bytes (p + of_nat k) bs (ram s)\<rparr>) L"
proof (rule heap_rep_change [OF assms(1)])
  fix x assume x: "write_bytes (p + of_nat k) bs (ram s) x \<noteq> ram s x"
  have "length bs \<le> 2 ^ 32" using heap_rep_bounds [OF assms(1,2)] assms(3) by (simp add: heap_base_def heap_size_def)
  with x have "in_range (p + of_nat k) (length bs) x" using write_bytes_frame by blast
  then show "\<exists>b \<in> L. in_buf b x" using in_buf_range [OF assms] assms(2) by blast
qed

subsection \<open>Room for requests\<close>

definition heap_room :: "'a machine_scheme \<Rightarrow> ledger \<Rightarrow> nat \<Rightarrow> bool" where
  "heap_room s L n \<longleftrightarrow>
     (\<exists>bs fs. heap_inv (ram s) (mem_free_list s) bs fs \<and> L = live bs \<and> has_room n bs)"

lemma heap_room_rep: "heap_room s L n \<Longrightarrow> heap_rep s L"
  by (auto simp: heap_room_def heap_rep_def)

lemma heap_room_mono: "heap_room s L n \<Longrightarrow> k \<le> n \<Longrightarrow> heap_room s L k"
  by (fastforce simp: heap_room_def has_room_def)

lemma heap_room_cong:
  "ram s' = ram s \<Longrightarrow> mem_free_list s' = mem_free_list s \<Longrightarrow> heap_room s' L n = heap_room s L n"
  by (simp add: heap_room_def)

lemma heap_room_cases:
  assumes "heap_room s L n"
  obtains bs fs where "heap_inv (ram s) (mem_free_list s) bs fs" "heap_rel (ram s) (mem_free_list s) bs fs"
    "heap_shape bs" "L = live bs" "has_room n bs"
  using assms by (auto simp: heap_room_def heap_inv_def heap_rel_def)

lemma get_mem_room:
  assumes room: "heap_room s L (n + block_size_of (unat r))" and r: "request_ok r" and n: "n = 0 \<or> 16 \<le> n"
  obtains p s' l where "get_mem r s = Some (p, s')" "unat r \<le> l" "heap_room s' (insert (unat p, l) L) n"
    "\<And>k. (unat p, k) \<notin> L"
    "\<And>b x. b \<in> L \<Longrightarrow> in_buf b x \<Longrightarrow> ram s' x = ram s x" "\<exists>m. s' = s\<lparr>ram := m\<rparr>"
proof -
  let ?n = "block_size_of (unat r)"
  obtain bs fs where h: "heap_inv (ram s) (mem_free_list s) bs fs" "heap_rel (ram s) (mem_free_list s) bs fs"
    "heap_shape bs" "L = live bs" "has_room (n + ?n) bs"
    using room by (rule heap_room_cases)
  have rr: "r \<noteq> 0" "unat r \<le> 2 ^ 32 - 12" using r by (auto simp: request_ok_def)
  have pos: "0 < ?n" using block_size_of_facts(1) [of "unat r"] by linarith
  have "has_room ?n bs" using h(5) pos by (auto simp: has_room_def)
  then obtain c bs' fs' where a: "alloc_spec ?n bs fs = Some (c, bs', fs')"
    using alloc_spec_returns [OF h(2) _ pos] by (metis not_None_eq prod_cases3)
  then obtain m where m: "get_mem r s = Some (of_nat (c + 4), s\<lparr>ram := m\<rparr>)"
    "heap_inv m (mem_free_list s) bs' fs'"
    using get_mem_step [OF h(1) rr] by auto
  note g = get_mem_heap_rep [OF heap_room_rep [OF room] r m(1)]
  obtain l where l: "unat r \<le> l" "heap_rep (s\<lparr>ram := m\<rparr>) (insert (unat (of_nat (c + 4) :: u32), l) L)"
    "\<And>k. (unat (of_nat (c + 4) :: u32), k) \<notin> L"
    using g(1) by blast
  obtain l' where l': "live bs' = insert (c + 4, l') (live bs)"
    using alloc_spec_live [OF h(2) a block_size_of_facts(1)] by metis
  have shape': "heap_shape bs'" using m(2) by (auto simp: heap_inv_def heap_rel_def)
  have "c + 4 + l' < heap_base + heap_size" using live_bounds(2) [OF shape'] l' by blast
  then have p: "unat (of_nat (c + 4) :: u32) = c + 4" using heap_consts(1) by (intro unat_of_nat_u32) simp
  have "heap_rep (s\<lparr>ram := m\<rparr>) (insert (c + 4, l') L)"
    using m(2) by (auto simp: heap_rep_def l' h(4))
  have "?n - 8 \<le> l'"
    using alloc_spec_live [OF h(2) a block_size_of_facts(1)] l' p l(3) h(4)
    by (metis insert_iff prod.inject)
  then have len: "unat r \<le> l'" using block_size_of_facts(3) [of "unat r"] by linarith
  have "has_room n bs'" by (rule alloc_spec_room [OF h(2) a h(5) n pos])
  then have "heap_room (s\<lparr>ram := m\<rparr>) (insert (unat (of_nat (c + 4) :: u32), l') L) n"
    using m(2) unfolding heap_room_def p by (auto simp: l' h(4))
  then show thesis
    by (rule that [OF m(1) len]) (rule l(3), use g(2) in simp, blast)
qed

lemma free_mem_room:
  assumes room: "heap_room s L n" and p: "(unat p, l) \<in> L"
  shows "heap_room (free_mem p s) (L - {(unat p, l)}) n"
proof -
  obtain bs fs where h: "heap_inv (ram s) (mem_free_list s) bs fs" "heap_rel (ram s) (mem_free_list s) bs fs"
    "heap_shape bs" "L = live bs" "has_room n bs"
    using room by (rule heap_room_cases)
  obtain c k where blk: "(c, k, True) \<in> set (layout heap_base bs)" and ck: "unat p = c + 4" "l = k - 8"
    using p unfolding h(4) live_def by auto
  have pc: "of_nat (c + 4) = p" unfolding ck(1) [symmetric] by simp
  obtain bs' fs' where r: "release_spec c bs fs = (bs', fs')" by (cases "release_spec c bs fs") auto
  obtain m where m: "free_mem p s = s\<lparr>ram := m\<rparr>" "heap_inv m (mem_free_list s) bs' fs'"
    using free_mem_step [OF h(1) blk] unfolding pc r by auto
  have "live bs' = L - {(unat p, l)}" using release_spec_live [OF h(2) blk r] ck h(4) by simp
  moreover have "has_room n bs'" by (rule release_spec_room [OF h(2) blk r h(5)])
  ultimately show ?thesis using m by (auto simp: heap_room_def)
qed

lemma heap_room_change:
  assumes room: "heap_room s L n" and ch: "\<And>x. m x \<noteq> ram s x \<Longrightarrow> \<exists>b \<in> L. in_buf b x"
  shows "heap_room (s\<lparr>ram := m\<rparr>) L n"
proof -
  obtain bs fs where h: "heap_inv (ram s) (mem_free_list s) bs fs" "heap_rel (ram s) (mem_free_list s) bs fs"
    "heap_shape bs" "L = live bs" "has_room n bs"
    using room by (rule heap_room_cases)
  note inv = heap_inv_change [OF h(1)]
  have "heap_inv m (mem_free_list s) bs fs"
    by (rule heap_inv_change [OF h(1)]) (use ch payload_byte_in_buf [OF h(3)] h(4) in blast)
  then show ?thesis using h by (auto simp: heap_room_def)
qed

subsection \<open>The interface\<close>

type_synonym ghost = "u32 \<Rightarrow> u8 option"

locale heap_interface =
  fixes rep :: "'s \<Rightarrow> ledger \<Rightarrow> bool"
    and alloc :: "u32 \<Rightarrow> 's \<Rightarrow> (u32 \<times> 's) option"
    and release :: "u32 \<Rightarrow> 's \<Rightarrow> 's"
    and contents :: "'s \<Rightarrow> u32 \<Rightarrow> u8"
    and put :: "u32 \<Rightarrow> u8 \<Rightarrow> 's \<Rightarrow> 's"
    and fits :: "u32 \<Rightarrow> bool"
  assumes rep_apart: "rep s L \<Longrightarrow> a \<in> L \<Longrightarrow> b \<in> L \<Longrightarrow> a = b \<or> apart a b"
    and rep_inside: "rep s L \<Longrightarrow> (q, l) \<in> L \<Longrightarrow>
      heap_base < q \<and> q + l < heap_base + heap_size \<and> 8 \<le> l \<and> 4 dvd q"
    and alloc_rep: "rep s L \<Longrightarrow> fits r \<Longrightarrow> alloc r s = Some (p, s') \<Longrightarrow>
      \<exists>l \<ge> unat r. rep s' (insert (unat p, l) L) \<and> (\<forall>k. (unat p, k) \<notin> L)"
    and alloc_keeps: "rep s L \<Longrightarrow> fits r \<Longrightarrow> alloc r s = Some (p, s') \<Longrightarrow>
      b \<in> L \<Longrightarrow> in_buf b x \<Longrightarrow> contents s' x = contents s x"
    and release_rep: "rep s L \<Longrightarrow> (unat p, l) \<in> L \<Longrightarrow> rep (release p s) (L - {(unat p, l)})"
    and release_keeps: "rep s L \<Longrightarrow> (unat p, l) \<in> L \<Longrightarrow> b \<in> L \<Longrightarrow> b \<noteq> (unat p, l) \<Longrightarrow>
      in_buf b x \<Longrightarrow> contents (release p s) x = contents s x"
    and put_rep: "rep s L \<Longrightarrow> b \<in> L \<Longrightarrow> in_buf b x \<Longrightarrow> rep (put x v s) L"
    and put_contents: "contents (put x v s) = (contents s)(x := v)"
begin

text \<open>
  The client's view: its ledger \<open>K\<close> lists the buffers it holds with the number of bytes it asked
  for, and \<open>G\<close> what it has written into them.
\<close>

definition ledger_ok :: "'s \<Rightarrow> ledger \<Rightarrow> ghost \<Rightarrow> bool" where
  "ledger_ok s K G \<longleftrightarrow> (\<exists>L. rep s L
     \<and> (\<forall>p r. (p, r) \<in> K \<longrightarrow> (\<exists>l \<ge> r. (p, l) \<in> L))
     \<and> (\<forall>p r k. (p, r) \<in> K \<longrightarrow> (p, k) \<in> K \<longrightarrow> r = k)
     \<and> (\<forall>x v. G x = Some v \<longrightarrow> (\<exists>b \<in> K. in_buf b x) \<and> contents s x = v))"

lemma rep_unique_len: "rep s L \<Longrightarrow> (p, l) \<in> L \<Longrightarrow> (p, k) \<in> L \<Longrightarrow> l = k"
  using rep_apart [of s L "(p, l)" "(p, k)"] rep_inside [of s L p l] rep_inside [of s L p k]
  by (auto simp: apart_def)

lemma ledger_empty: "rep s L \<Longrightarrow> ledger_ok s {} (\<lambda>_. None)"
  by (auto simp: ledger_ok_def)

lemma ledger_alloc:
  assumes ok: "ledger_ok s K G" and a: "fits r" "alloc r s = Some (p, s')"
  shows "ledger_ok s' (insert (unat p, unat r) K) G"
proof -
  from ok obtain L where L: "rep s L" "\<And>q k. (q, k) \<in> K \<Longrightarrow> \<exists>l \<ge> k. (q, l) \<in> L"
    "\<And>q k k'. (q, k) \<in> K \<Longrightarrow> (q, k') \<in> K \<Longrightarrow> k = k'"
    "\<And>x v. G x = Some v \<Longrightarrow> (\<exists>b \<in> K. in_buf b x) \<and> contents s x = v"
    unfolding ledger_ok_def by blast
  obtain l where l: "unat r \<le> l" "rep s' (insert (unat p, l) L)" "\<And>k. (unat p, k) \<notin> L"
    using alloc_rep [OF L(1) a] by blast
  have new: "(unat p, k) \<notin> K" for k using L(2) l(3) by blast
  have "contents s' x = v" if "G x = Some v" for x v
  proof -
    from L(4) [OF that] obtain q k where qk: "(q, k) \<in> K" "in_buf (q, k) x" "contents s x = v" by auto
    from L(2) [OF qk(1)] obtain l' where "(q, l') \<in> L" "k \<le> l'" by blast
    moreover from this qk(2) have "in_buf (q, l') x" by (auto simp: in_buf_def)
    ultimately show ?thesis using alloc_keeps [OF L(1) a] qk(3) by metis
  qed
  moreover have "\<exists>b \<in> insert (unat p, unat r) K. in_buf b x" if "G x = Some v" for x v
    using L(4) [OF that] by blast
  moreover have "\<exists>l' \<ge> k. (q, l') \<in> insert (unat p, l) L" if "(q, k) \<in> insert (unat p, unat r) K" for q k
    using that l(1) L(2) [of q k] by auto
  moreover have "k = k'" if "(q, k) \<in> insert (unat p, unat r) K" "(q, k') \<in> insert (unat p, unat r) K" for q k k'
    using that new L(3) [of q k k'] by auto
  ultimately show ?thesis unfolding ledger_ok_def using l(2) by blast
qed

lemma ledger_release:
  assumes ok: "ledger_ok s K G" and p: "(unat p, r) \<in> K"
  shows "ledger_ok (release p s) (K - {(unat p, r)}) (\<lambda>x. if in_buf (unat p, r) x then None else G x)"
proof -
  from ok obtain L where L: "rep s L" "\<And>q k. (q, k) \<in> K \<Longrightarrow> \<exists>l \<ge> k. (q, l) \<in> L"
    "\<And>q k k'. (q, k) \<in> K \<Longrightarrow> (q, k') \<in> K \<Longrightarrow> k = k'"
    "\<And>x v. G x = Some v \<Longrightarrow> (\<exists>b \<in> K. in_buf b x) \<and> contents s x = v"
    unfolding ledger_ok_def by blast
  from L(2) [OF p] obtain l where l: "(unat p, l) \<in> L" "r \<le> l" by blast
  have other: "(q, k) \<noteq> (unat p, r) \<Longrightarrow> (q, k) \<in> K \<Longrightarrow> q \<noteq> unat p" for q k
    using L(3) p by blast
  have G: "(\<exists>b \<in> K - {(unat p, r)}. in_buf b x) \<and> contents (release p s) x = v"
    if "G x = Some v" "\<not> in_buf (unat p, r) x" for x v
  proof -
    from L(4) [OF that(1)] obtain q k where qk: "(q, k) \<in> K" "in_buf (q, k) x" "contents s x = v" by auto
    then have ne: "(q, k) \<noteq> (unat p, r)" using that(2) by auto
    from L(2) [OF qk(1)] obtain l' where l': "(q, l') \<in> L" "k \<le> l'" by blast
    have "in_buf (q, l') x" using l'(2) qk(2) by (auto simp: in_buf_def)
    moreover have "(q, l') \<noteq> (unat p, l)" using other [OF ne qk(1)] by simp
    ultimately have "contents (release p s) x = contents s x"
      using release_keeps [OF L(1) l(1) l'(1)] by blast
    with qk ne show ?thesis by blast
  qed
  have "\<exists>l' \<ge> k. (q, l') \<in> L - {(unat p, l)}" if "(q, k) \<in> K - {(unat p, r)}" for q k
    using that other [of q k] L(2) [of q k] by blast
  moreover have "k = k'" if "(q, k) \<in> K - {(unat p, r)}" "(q, k') \<in> K - {(unat p, r)}" for q k k'
    using that L(3) by blast
  moreover have "(\<exists>b \<in> K - {(unat p, r)}. in_buf b x) \<and> contents (release p s) x = v"
    if "(if in_buf (unat p, r) x then None else G x) = Some v" for x v
    using that G by (simp split: if_splits)
  ultimately show ?thesis
    unfolding ledger_ok_def using release_rep [OF L(1) l(1)] by blast
qed

lemma ledger_write:
  assumes ok: "ledger_ok s K G" and b: "b \<in> K" "in_buf b x"
  shows "ledger_ok (put x v s) K (G(x \<mapsto> v))"
proof -
  from ok obtain L where L: "rep s L" "\<And>q k. (q, k) \<in> K \<Longrightarrow> \<exists>l \<ge> k. (q, l) \<in> L"
    "\<And>q k k'. (q, k) \<in> K \<Longrightarrow> (q, k') \<in> K \<Longrightarrow> k = k'"
    "\<And>x v. G x = Some v \<Longrightarrow> (\<exists>b \<in> K. in_buf b x) \<and> contents s x = v"
    unfolding ledger_ok_def by blast
  obtain q k where qk: "b = (q, k)" by (cases b)
  from L(2) b(1) obtain l where "(q, l) \<in> L" "k \<le> l" unfolding qk by blast
  moreover from this b(2) have "in_buf (q, l) x" by (auto simp: in_buf_def qk)
  ultimately have "rep (put x v s) L" using put_rep [OF L(1)] by blast
  moreover have "(\<exists>b \<in> K. in_buf b y) \<and> contents (put x v s) y = w" if "(G(x \<mapsto> v)) y = Some w" for y w
    using that b L(4) [of y w] by (auto simp: put_contents split: if_splits)
  ultimately show ?thesis using L(2,3) unfolding ledger_ok_def by blast
qed

lemma ledger_safe:
  assumes "ledger_ok s K G"
  shows "a \<in> K \<Longrightarrow> b \<in> K \<Longrightarrow> a = b \<or> apart a b"
    and "(p, r) \<in> K \<Longrightarrow> heap_base < p \<and> p + r < heap_base + heap_size \<and> 4 dvd p"
    and "G x = Some v \<Longrightarrow> contents s x = v"
proof -
  from assms obtain L where L: "rep s L" "\<And>q k. (q, k) \<in> K \<Longrightarrow> \<exists>l \<ge> k. (q, l) \<in> L"
    "\<And>q k k'. (q, k) \<in> K \<Longrightarrow> (q, k') \<in> K \<Longrightarrow> k = k'"
    "\<And>x v. G x = Some v \<Longrightarrow> contents s x = v"
    unfolding ledger_ok_def by blast
  show "G x = Some v \<Longrightarrow> contents s x = v" by (rule L(4))
  show "(p, r) \<in> K \<Longrightarrow> heap_base < p \<and> p + r < heap_base + heap_size \<and> 4 dvd p"
    using L(2) [of p r] rep_inside [OF L(1)] by fastforce
  show "a \<in> K \<Longrightarrow> b \<in> K \<Longrightarrow> a = b \<or> apart a b"
  proof -
    assume ab: "a \<in> K" "b \<in> K"
    obtain p r q k where pq: "a = (p, r)" "b = (q, k)" by (cases a; cases b)
    from L(2) ab obtain l l' where l: "(p, l) \<in> L" "r \<le> l" "(q, l') \<in> L" "k \<le> l'"
      unfolding pq by blast
    show ?thesis
    proof (cases "p = q")
      case True
      with ab L(3) show ?thesis unfolding pq by blast
    next
      case False
      with rep_apart [OF L(1) l(1,3)] l(2,4) show ?thesis by (auto simp: pq apart_def)
    qed
  qed
qed

end

interpretation heap: heap_interface heap_rep get_mem free_mem ram poke request_ok
  apply unfold_locales
  subgoal by (rule heap_rep_apart)
  subgoal by (rule heap_rep_bounds)
  subgoal by (rule get_mem_heap_rep(1))
  subgoal by (rule get_mem_heap_rep(2))
  subgoal by (rule free_mem_heap_rep(1))
  subgoal by (rule free_mem_heap_rep(2))
  subgoal by (rule poke_heap_rep)
  subgoal by (simp add: poke_def)
  done

end
