(* ===== verification/Process.thy ===== *)
theory Process
  imports Heap_Interface
begin

text \<open>
  The scheduler of \<open>process.c\<close>, the wait queues of \<open>wait.c\<close> and \<open>wait.h\<close>, and the PendSV entry of
  \<open>context.s\<close>. A \<open>process_t\<close> is a record found by its address in \<open>procs\<close>; its address comes from
  \<open>get_mem\<close>, and a field that the code has not written yet has whatever value the map holds there.
  The stacks are bytes of the RAM. The three queues are the lists of the processes linked on them,
  in the order of the \<open>next\<close> pointers (\<open>Linked_List\<close> justifies that view): \<open>list_add\<close> puts in
  front, \<open>list_add_tail\<close> at the end, \<open>list_pop\<close> takes the first.

  Results are options. \<open>None\<close> stands for a run that goes on no further: the hang of \<open>get_mem\<close>, the
  branch to itself in \<open>pick_new_task\<close>, an access through a NULL process pointer, unlinking a node
  that is on no list (its links are NULL), and linking a node that is already linked, which destroys
  the list (\<open>list_add_tail_linked_node\<close>).
\<close>

unbundle bit_operations_syntax

subsection \<open>State\<close>

datatype proc_state = RUNNING | WAITING | FINISHED

record process_t =
  cur_stack :: u32
  stack_alloc :: u32
  state :: proc_state

text \<open>
  The statics of \<open>process.c\<close>, the PSP and the registers r4 to r11, the pending bit of PendSV, and
  the link-time addresses of the two functions whose address the code takes.
\<close>

record sched = machine +
  procs :: "u32 \<Rightarrow> process_t"
  runqueue :: "u32 list"
  waitqueue :: "u32 list"
  deadqueue :: "u32 list"
  current_tsk :: u32
  idle_tsk :: u32
  psp :: u32
  callee_regs :: "u32 list"
  pendsv :: bool
  addr_process_finish :: u32
  addr_idle_task :: u32

definition STACK_SZ :: u32 where
  "STACK_SZ = 0x400"

definition sizeof_process_t :: u32 where
  "sizeof_process_t = 20"

definition sizeof_hw_stack_ctx :: u32 where
  "sizeof_hw_stack_ctx = 32"

definition sizeof_sw_stack_ctx :: u32 where
  "sizeof_sw_stack_ctx = 32"

subsection \<open>Linking processes\<close>

definition queued :: "'a sched_scheme \<Rightarrow> u32 list" where
  "queued s = runqueue s @ waitqueue s @ deadqueue s"

text \<open>A process that may be linked: not NULL, on no queue.\<close>

definition linkable :: "u32 \<Rightarrow> 'a sched_scheme \<Rightarrow> bool" where
  "linkable p s \<longleftrightarrow> p \<noteq> 0 \<and> p \<notin> set (queued s)"

definition run_add :: "u32 \<Rightarrow> 'a sched_scheme \<Rightarrow> 'a sched_scheme option" where
  "run_add p s = (if linkable p s then Some (s\<lparr>runqueue := p # runqueue s\<rparr>) else None)"

definition run_add_tail :: "u32 \<Rightarrow> 'a sched_scheme \<Rightarrow> 'a sched_scheme option" where
  "run_add_tail p s = (if linkable p s then Some (s\<lparr>runqueue := runqueue s @ [p]\<rparr>) else None)"

definition wait_add :: "u32 \<Rightarrow> 'a sched_scheme \<Rightarrow> 'a sched_scheme option" where
  "wait_add p s = (if linkable p s then Some (s\<lparr>waitqueue := p # waitqueue s\<rparr>) else None)"

definition dead_add :: "u32 \<Rightarrow> 'a sched_scheme \<Rightarrow> 'a sched_scheme option" where
  "dead_add p s = (if linkable p s then Some (s\<lparr>deadqueue := p # deadqueue s\<rparr>) else None)"

text \<open>\<open>list_del(&p->cur_sched_queue)\<close>: whichever queue \<open>p\<close> is on.\<close>

definition sched_del :: "u32 \<Rightarrow> 'a sched_scheme \<Rightarrow> 'a sched_scheme option" where
  "sched_del p s =
     (if p \<in> set (queued s)
      then Some (s\<lparr>runqueue := remove1 p (runqueue s), waitqueue := remove1 p (waitqueue s),
                   deadqueue := remove1 p (deadqueue s)\<rparr>)
      else None)"

definition set_state :: "u32 \<Rightarrow> proc_state \<Rightarrow> 'a sched_scheme \<Rightarrow> 'a sched_scheme" where
  "set_state p st s = s\<lparr>procs := (procs s)(p := (procs s p)\<lparr>state := st\<rparr>)\<rparr>"

definition set_cur_stack :: "u32 \<Rightarrow> u32 \<Rightarrow> 'a sched_scheme \<Rightarrow> 'a sched_scheme" where
  "set_cur_stack p v s = s\<lparr>procs := (procs s)(p := (procs s p)\<lparr>cur_stack := v\<rparr>)\<rparr>"

definition set_stack_alloc :: "u32 \<Rightarrow> u32 \<Rightarrow> 'a sched_scheme \<Rightarrow> 'a sched_scheme" where
  "set_stack_alloc p v s = s\<lparr>procs := (procs s)(p := (procs s p)\<lparr>stack_alloc := v\<rparr>)\<rparr>"

subsection \<open>process.c\<close>

definition reschedule :: "'a sched_scheme \<Rightarrow> 'a sched_scheme" where
  "reschedule s = (cpsie s)\<lparr>pendsv := True\<rparr>"

definition process_get_cur_task :: "'a sched_scheme \<Rightarrow> u32" where
  "process_get_cur_task s = current_tsk s"

definition process_wakeup :: "u32 \<Rightarrow> 'a sched_scheme \<Rightarrow> 'a sched_scheme option" where
  "process_wakeup proc s =
     do {
       let (flags, s) = irq_disable s;
       s \<leftarrow> sched_del proc s;
       s \<leftarrow> run_add proc s;
       let s = set_state proc RUNNING s;
       Some (irq_enable flags s)
     }"

definition process_wait :: "'a sched_scheme \<Rightarrow> 'a sched_scheme option" where
  "process_wait s =
     do {
       let s = cpsid s;
       s \<leftarrow> wait_add (current_tsk s) s;
       let s = set_state (current_tsk s) WAITING s;
       Some (reschedule s)
     }"

definition process_finish :: "'a sched_scheme \<Rightarrow> 'a sched_scheme option" where
  "process_finish s =
     do {
       let s = cpsid s;
       s \<leftarrow> dead_add (current_tsk s) s;
       let s = set_state (current_tsk s) FINISHED s;
       Some (reschedule s)
     }"

text \<open>
  The hardware context is at the end of the stack (r0, r1, r2, r3, r12, lr, pc, psr), the software
  context (r4 to r11) below it. The state field of the new process is not written.
\<close>

definition init_stack :: "u32 \<Rightarrow> u32 \<Rightarrow> u32 \<Rightarrow> u32 \<Rightarrow> mem \<Rightarrow> mem" where
  "init_stack hw finish pc r0 m =
     (let sw = hw - sizeof_sw_stack_ctx;
          m = memset hw 0 (unat sizeof_hw_stack_ctx) m;
          m = memset sw 0 (unat sizeof_sw_stack_ctx) m;
          m = store32 (hw + 24) pc m;
          m = store32 (hw + 20) finish m;
          m = store32 hw r0 m
      in store32 (hw + 28) 0x01000000 m)"

definition create_process :: "u32 \<Rightarrow> u32 \<Rightarrow> 'a sched_scheme \<Rightarrow> (u32 \<times> 'a sched_scheme) option" where
  "create_process pc r0 s =
     do {
       (new_process, s) \<leftarrow> get_mem sizeof_process_t s;
       (stack, s) \<leftarrow> get_mem STACK_SZ s;
       let s = set_stack_alloc new_process stack s;
       let new_hw_stack_ctx = stack + STACK_SZ - sizeof_hw_stack_ctx;
       let s = set_cur_stack new_process (new_hw_stack_ctx - sizeof_sw_stack_ctx) s;
       let s = s\<lparr>ram := init_stack new_hw_stack_ctx (addr_process_finish s) pc r0 (ram s)\<rparr>;
       Some (new_process, s)
     }"

definition process_spawn :: "u32 \<Rightarrow> u32 \<Rightarrow> 'a sched_scheme \<Rightarrow> 'a sched_scheme option" where
  "process_spawn pc r0 s =
     do {
       (newproc, s) \<leftarrow> create_process pc r0 s;
       let (flags, s) = irq_disable s;
       s \<leftarrow> run_add newproc s;
       let s = set_state newproc RUNNING s;
       Some (irq_enable flags s)
     }"

text \<open>One turn of the loop of \<open>__idle_task\<close>, up to the \<open>wfi\<close>.\<close>

definition idle_task_turn :: "'a sched_scheme \<Rightarrow> 'a sched_scheme" where
  "idle_task_turn s =
     (let (flags, s) = irq_disable s;
          s = (case deadqueue s of
                 [] \<Rightarrow> s
               | dead_process # dead \<Rightarrow>
                   (let s = s\<lparr>deadqueue := dead\<rparr>;
                        s = free_mem (stack_alloc (procs s dead_process)) s
                    in free_mem dead_process s))
      in irq_enable flags s)"

fun spawn_threads :: "u32 list \<Rightarrow> 'a sched_scheme \<Rightarrow> 'a sched_scheme option" where
  "spawn_threads [] s = Some s"
| "spawn_threads (t # ts) s = do { s \<leftarrow> process_spawn t 0 s; spawn_threads ts s }"

text \<open>\<open>threads\<close> is the section between \<open>_sthreads\<close> and \<open>_ethreads\<close>.\<close>

definition process_init :: "u32 list \<Rightarrow> 'a sched_scheme \<Rightarrow> 'a sched_scheme option" where
  "process_init threads s =
     do {
       s \<leftarrow> spawn_threads threads s;
       (idle, s) \<leftarrow> create_process (addr_idle_task s) 0 s;
       let s = s\<lparr>idle_tsk := idle\<rparr>;
       Some (s\<lparr>psp := 0\<rparr>)
     }"

definition stop_current :: "u32 \<Rightarrow> 'a sched_scheme \<Rightarrow> 'a sched_scheme option" where
  "stop_current current_stack s =
     (if current_tsk s \<noteq> 0
      then if current_stack = 0 then None
           else (let s = set_cur_stack (current_tsk s) current_stack s
                 in if state (procs s (current_tsk s)) = RUNNING
                    then run_add_tail (current_tsk s) s else Some s)
      else Some s)"

definition pick_new_task :: "u32 \<Rightarrow> 'a sched_scheme \<Rightarrow> (u32 \<times> 'a sched_scheme) option" where
  "pick_new_task current_stack s =
     do {
       let (flags, s) = irq_disable s;
       s \<leftarrow> stop_current current_stack s;
       let (nxt, s) = (case runqueue s of
                         [] \<Rightarrow> (0, s)
                       | p # ps \<Rightarrow> (p, s\<lparr>runqueue := ps\<rparr>));
       let nxt = (if nxt = 0 then idle_tsk s else nxt);
       let s = s\<lparr>current_tsk := nxt\<rparr>;
       let s = irq_enable flags s;
       if nxt = 0 then None else Some (cur_stack (procs s nxt), s)
     }"

subsection \<open>context.s\<close>

definition push_regs :: "u32 \<Rightarrow> u32 list \<Rightarrow> mem \<Rightarrow> mem" where
  "push_regs p rs m = fold (\<lambda>(i, r). store32 (p + 4 * of_nat i) r) (enumerate 0 rs) m"

definition pop_regs :: "mem \<Rightarrow> u32 \<Rightarrow> nat \<Rightarrow> u32 list" where
  "pop_regs m p n = map (\<lambda>i. load32 m (p + 4 * of_nat i)) [0..<n]"

text \<open>\<open>irq_pendsv\<close> saves r4 to r11 below the PSP (unless it is NULL), asks for the next stack and
  loads the registers of the chosen process from it.\<close>

definition irq_pendsv :: "'a sched_scheme \<Rightarrow> 'a sched_scheme option" where
  "irq_pendsv s =
     do {
       let r0 = psp s;
       let (r0, s) = (if r0 = 0 then (r0, s)
                      else (r0 - 32, s\<lparr>ram := push_regs (r0 - 32) (callee_regs s) (ram s)\<rparr>));
       (r0, s) \<leftarrow> pick_new_task r0 s;
       let s = s\<lparr>callee_regs := pop_regs (ram s) r0 8\<rparr>;
       Some (s\<lparr>psp := r0 + 32, pendsv := False\<rparr>)
     }"

subsection \<open>wait.c and wait.h\<close>

text \<open>A wait queue holds the \<open>waiting_proc_t\<close> objects on it: their address and their \<open>proc\<close>.\<close>

type_synonym waitqueue_t = "(u32 \<times> u32) list"

definition sizeof_waiting_proc_t :: u32 where
  "sizeof_waiting_proc_t = 12"

definition waitqueue_wait :: "waitqueue_t \<Rightarrow> 'a sched_scheme \<Rightarrow> (waitqueue_t \<times> 'a sched_scheme) option" where
  "waitqueue_wait waitq s =
     do {
       (newwait, s) \<leftarrow> get_mem sizeof_waiting_proc_t s;
       let waitq = (newwait, process_get_cur_task s) # waitq;
       s \<leftarrow> process_wait s;
       Some (waitq, s)
     }"

fun wake_all :: "waitqueue_t \<Rightarrow> 'a sched_scheme \<Rightarrow> 'a sched_scheme option" where
  "wake_all [] s = Some s"
| "wake_all ((waitproc, proc) # ws) s =
     do { s \<leftarrow> process_wakeup proc s; wake_all ws (free_mem waitproc s) }"

definition waitqueue_wakeup :: "waitqueue_t \<Rightarrow> 'a sched_scheme \<Rightarrow> (waitqueue_t \<times> 'a sched_scheme) option" where
  "waitqueue_wakeup waitq s =
     do {
       let (flags, s) = irq_disable s;
       s \<leftarrow> wake_all waitq s;
       Some ([], irq_enable flags s)
     }"

text \<open>
  One turn of \<open>wait_for_volatile_condition\<close>: \<open>True\<close> when the condition held and the caller goes
  on, \<open>False\<close> when the caller has been put on the wait queue; it then runs the turn again once it
  is scheduled. The wait queue is the static \<open>waitq\<close> of the caller, read and written through
  \<open>getq\<close> and \<open>putq\<close>.
\<close>

definition wait_for_volatile_condition ::
  "('a sched_scheme \<Rightarrow> bool) \<Rightarrow> ('a sched_scheme \<Rightarrow> waitqueue_t) \<Rightarrow>
   (waitqueue_t \<Rightarrow> 'a sched_scheme \<Rightarrow> 'a sched_scheme) \<Rightarrow> 'a sched_scheme \<Rightarrow> (bool \<times> 'a sched_scheme) option" where
  "wait_for_volatile_condition condition getq putq s =
     (let (flags, s) = irq_disable s
      in if condition s then Some (True, irq_enable flags s)
         else do { (waitq, s) \<leftarrow> waitqueue_wait (getq s) s; Some (False, putq waitq s) })"

end
