(* ===== verification/Process_Correct.thy ===== *)
theory Process_Correct
  imports Process
begin

text \<open>
  Correctness of the scheduler: the invariant on the three queues and what every operation of
  \<open>process.c\<close> and \<open>wait.c\<close> does to them, the round-robin order, the life of a process from its
  creation to the release of its memory, and the one interleaving that breaks the run queue.
\<close>

unbundle bit_operations_syntax

subsection \<open>The allocator changes the RAM only\<close>

lemma get_mem_ram:
  assumes "get_mem r s = Some (p, s')"
  obtains m where "s' = s\<lparr>ram := m\<rparr>"
proof (cases "r = 0")
  case True
  with assms have "s' = s\<lparr>ram := ram s\<rparr>" by (simp add: get_mem_def)
  then show thesis by (rule that)
next
  case False
  with assms show thesis
    by (auto simp: get_mem_def irq_defs machine_restore Let_def intro: that
        split: bind_splits if_splits prod.splits)
qed

lemma free_mem_ram:
  obtains m where "free_mem p s = s\<lparr>ram := m\<rparr>"
proof (cases "p = 0")
  case True
  then have "free_mem p s = s\<lparr>ram := ram s\<rparr>" by (simp add: free_mem_def)
  then show thesis by (rule that)
next
  case False
  then show thesis
    by (auto simp: free_mem_def irq_defs machine_restore Let_def split_beta intro!: that)
qed

lemma get_mem_sched:
  assumes "get_mem r s = Some (p, s')"
  shows "runqueue s' = runqueue s" "waitqueue s' = waitqueue s" "deadqueue s' = deadqueue s"
    "procs s' = procs s" "current_tsk s' = current_tsk s" "idle_tsk s' = idle_tsk s"
    "primask s' = primask s" "addr_process_finish s' = addr_process_finish s" "queued s' = queued s"
proof -
  obtain m where m: "s' = s\<lparr>ram := m\<rparr>" using assms by (rule get_mem_ram)
  show "runqueue s' = runqueue s" "waitqueue s' = waitqueue s" "deadqueue s' = deadqueue s"
    "procs s' = procs s" "current_tsk s' = current_tsk s" "idle_tsk s' = idle_tsk s"
    "primask s' = primask s" "addr_process_finish s' = addr_process_finish s" "queued s' = queued s"
    unfolding m by (simp_all add: queued_def)
qed

lemma free_mem_sched [simp]:
  "runqueue (free_mem p s) = runqueue s" "waitqueue (free_mem p s) = waitqueue s"
  "deadqueue (free_mem p s) = deadqueue s" "procs (free_mem p s) = procs s"
  "current_tsk (free_mem p s) = current_tsk s" "idle_tsk (free_mem p s) = idle_tsk s"
  "primask (free_mem p s) = primask s" "mem_free_list (free_mem p s) = mem_free_list s"
  "queued (free_mem p s) = queued s"
proof -
  obtain m where m: "free_mem p s = s\<lparr>ram := m\<rparr>" by (rule free_mem_ram)
  show "runqueue (free_mem p s) = runqueue s" "waitqueue (free_mem p s) = waitqueue s"
    "deadqueue (free_mem p s) = deadqueue s" "procs (free_mem p s) = procs s"
    "current_tsk (free_mem p s) = current_tsk s" "idle_tsk (free_mem p s) = idle_tsk s"
    "primask (free_mem p s) = primask s" "mem_free_list (free_mem p s) = mem_free_list s"
    "queued (free_mem p s) = queued s"
    unfolding m by (simp_all add: queued_def)
qed

subsection \<open>The scheduler invariant\<close>

text \<open>
  Every process is on at most one queue, once; the queue it is on agrees with its state; the
  running process is not on the run queue.
\<close>

definition sched_inv :: "'a sched_scheme \<Rightarrow> bool" where
  "sched_inv s \<longleftrightarrow> distinct (queued s) \<and> 0 \<notin> set (queued s)
     \<and> (\<forall>p \<in> set (runqueue s). state (procs s p) = RUNNING)
     \<and> (\<forall>p \<in> set (waitqueue s). state (procs s p) = WAITING)
     \<and> (\<forall>p \<in> set (deadqueue s). state (procs s p) = FINISHED)
     \<and> current_tsk s \<notin> set (runqueue s)"

lemma sched_invD:
  assumes "sched_inv s"
  shows "distinct (runqueue s)" "distinct (waitqueue s)" "distinct (deadqueue s)"
    "p \<in> set (runqueue s) \<Longrightarrow> p \<notin> set (waitqueue s) \<and> p \<notin> set (deadqueue s) \<and> p \<noteq> 0 \<and> state (procs s p) = RUNNING"
    "p \<in> set (waitqueue s) \<Longrightarrow> p \<notin> set (runqueue s) \<and> p \<notin> set (deadqueue s) \<and> p \<noteq> 0 \<and> state (procs s p) = WAITING"
    "p \<in> set (deadqueue s) \<Longrightarrow> p \<notin> set (runqueue s) \<and> p \<notin> set (waitqueue s) \<and> p \<noteq> 0 \<and> state (procs s p) = FINISHED"
    "current_tsk s \<notin> set (runqueue s)"
  using assms by (auto simp: sched_inv_def queued_def)

lemmas sched_simps = queued_def linkable_def run_add_def run_add_tail_def wait_add_def dead_add_def
  sched_del_def set_state_def set_cur_stack_def set_stack_alloc_def irq_defs reschedule_def
  process_get_cur_task_def

text \<open>The run queue holds no process that is not running, so a running current process is unlinked.\<close>

lemma current_unlinked:
  assumes "sched_inv s" "state (procs s (current_tsk s)) = RUNNING"
  shows "current_tsk s \<notin> set (queued s)"
  using assms by (auto simp: sched_inv_def queued_def)

subsection \<open>What each operation does\<close>

lemma process_wakeup_eq:
  assumes inv: "sched_inv s" and p: "p \<in> set (waitqueue s)"
  shows "process_wakeup p s = Some (s\<lparr>runqueue := p # runqueue s, waitqueue := remove1 p (waitqueue s),
    procs := (procs s)(p := (procs s p)\<lparr>state := RUNNING\<rparr>)\<rparr>)"
proof -
  note d = sched_invD [OF inv]
  have "p \<notin> set (remove1 p (waitqueue s))" using d(2) by simp
  moreover have "remove1 p (runqueue s) = runqueue s" "remove1 p (deadqueue s) = deadqueue s"
    using d(5) [OF p] by (auto intro: remove1_idem)
  ultimately show ?thesis
    using d(5) [OF p] p by (simp add: process_wakeup_def sched_simps)
qed

lemma process_wakeup_inv:
  assumes inv: "sched_inv s" and p: "p \<in> set (waitqueue s)" "p \<noteq> current_tsk s"
    and w: "process_wakeup p s = Some s'"
  shows "sched_inv s'"
proof -
  note d = sched_invD [OF inv]
  have s': "s' = s\<lparr>runqueue := p # runqueue s, waitqueue := remove1 p (waitqueue s),
    procs := (procs s)(p := (procs s p)\<lparr>state := RUNNING\<rparr>)\<rparr>"
    using process_wakeup_eq [OF inv p(1)] w by simp
  show ?thesis
    using inv d(5) [OF p(1)] p d(2) unfolding s' sched_inv_def queued_def
    by (auto simp: set_remove1_eq distinct_remove1)
qed

lemma process_wait_eq:
  assumes "linkable (current_tsk s) s"
  shows "process_wait s = Some (s\<lparr>primask := False, waitqueue := current_tsk s # waitqueue s,
    procs := (procs s)(current_tsk s := (procs s (current_tsk s))\<lparr>state := WAITING\<rparr>), pendsv := True\<rparr>)"
  using assms by (simp add: process_wait_def sched_simps)

lemma process_wait_inv:
  assumes "sched_inv s" "linkable (current_tsk s) s" "process_wait s = Some s'"
  shows "sched_inv s'"
  using assms(1,2) assms(3) [symmetric] unfolding process_wait_eq [OF assms(2)]
  by (auto simp: sched_inv_def queued_def linkable_def)

lemma process_finish_eq:
  assumes "linkable (current_tsk s) s"
  shows "process_finish s = Some (s\<lparr>primask := False, deadqueue := current_tsk s # deadqueue s,
    procs := (procs s)(current_tsk s := (procs s (current_tsk s))\<lparr>state := FINISHED\<rparr>), pendsv := True\<rparr>)"
  using assms by (simp add: process_finish_def sched_simps)

lemma process_finish_inv:
  assumes "sched_inv s" "linkable (current_tsk s) s" "process_finish s = Some s'"
  shows "sched_inv s'"
  using assms(1,2) assms(3) [symmetric] unfolding process_finish_eq [OF assms(2)]
  by (auto simp: sched_inv_def queued_def linkable_def)

text \<open>The run queue after the current process has been put back, and the process chosen from it.\<close>

definition ready_queue :: "'a sched_scheme \<Rightarrow> u32 list" where
  "ready_queue s = runqueue s @
     (if current_tsk s \<noteq> 0 \<and> state (procs s (current_tsk s)) = RUNNING then [current_tsk s] else [])"

lemma pick_new_task_eq:
  assumes inv: "sched_inv s" and sp: "current_tsk s = 0 \<or> sp \<noteq> 0" and idle: "idle_tsk s \<noteq> 0"
  defines "nxt \<equiv> (if ready_queue s = [] then idle_tsk s else hd (ready_queue s))"
  obtains s' where "pick_new_task sp s = Some (cur_stack (procs s' nxt), s')"
    "current_tsk s' = nxt" "runqueue s' = tl (ready_queue s)" "waitqueue s' = waitqueue s"
    "deadqueue s' = deadqueue s" "primask s' = primask s" "ram s' = ram s" "idle_tsk s' = idle_tsk s"
    "procs s' = (if current_tsk s = 0 then procs s
       else (procs s)(current_tsk s := (procs s (current_tsk s))\<lparr>cur_stack := sp\<rparr>))"
proof -
  note d = sched_invD [OF inv]
  have ne: "hd (ready_queue s) \<noteq> 0" if "ready_queue s \<noteq> []"
  proof -
    have "hd (ready_queue s) \<in> set (ready_queue s)" using that by (rule hd_in_set)
    then show ?thesis using d(4) by (auto simp: ready_queue_def split: if_splits)
  qed
  let ?c = "current_tsk s"
  let ?pr = "(if ?c = 0 then procs s else (procs s)(?c := (procs s ?c)\<lparr>cur_stack := sp\<rparr>))"
  let ?s1 = "s\<lparr>primask := True, procs := ?pr, runqueue := ready_queue s\<rparr>"
  have stop: "stop_current sp (s\<lparr>primask := True\<rparr>) = Some ?s1"
  proof (cases "?c = 0")
    case True
    then show ?thesis by (simp add: stop_current_def ready_queue_def)
  next
    case False
    moreover from this have "sp \<noteq> 0" using sp by blast
    ultimately show ?thesis
      using current_unlinked [OF inv]
      by (auto simp: stop_current_def ready_queue_def run_add_tail_def linkable_def queued_def set_cur_stack_def)
  qed
  let ?s2 = "s\<lparr>procs := ?pr, runqueue := tl (ready_queue s), current_tsk := nxt\<rparr>"
  have "pick_new_task sp s = Some (cur_stack (procs ?s2 nxt), ?s2)"
    using ne idle by (cases "ready_queue s") (auto simp: pick_new_task_def irq_defs stop nxt_def Let_def)
  then show thesis by (rule that) simp_all
qed

lemma pick_new_task_inv:
  assumes inv: "sched_inv s" and sp: "current_tsk s = 0 \<or> sp \<noteq> 0" and idle: "idle_tsk s \<noteq> 0"
    and pk: "pick_new_task sp s = Some (r, s')"
  shows "sched_inv s'"
proof -
  note d = sched_invD [OF inv]
  obtain s1 where s1: "pick_new_task sp s = Some (cur_stack (procs s1 (if ready_queue s = [] then idle_tsk s else hd (ready_queue s))), s1)"
    "current_tsk s1 = (if ready_queue s = [] then idle_tsk s else hd (ready_queue s))"
    "runqueue s1 = tl (ready_queue s)" "waitqueue s1 = waitqueue s" "deadqueue s1 = deadqueue s"
    "primask s1 = primask s" "ram s1 = ram s" "idle_tsk s1 = idle_tsk s"
    "procs s1 = (if current_tsk s = 0 then procs s
       else (procs s)(current_tsk s := (procs s (current_tsk s))\<lparr>cur_stack := sp\<rparr>))"
    by (rule pick_new_task_eq [OF inv sp idle])
  have "s' = s1" using s1(1) pk by simp
  note s' = s1(2-5) [folded this]
  have st: "state (procs s' p) = state (procs s p)" for p
    using s1(9) \<open>s' = s1\<close> by simp
  have dr: "distinct (ready_queue s @ waitqueue s @ deadqueue s)" "0 \<notin> set (ready_queue s)"
    "\<And>p. p \<in> set (ready_queue s) \<Longrightarrow> state (procs s p) = RUNNING"
    using inv by (auto simp: ready_queue_def sched_inv_def queued_def)
  show ?thesis
  proof (cases "ready_queue s")
    case Nil
    with inv s' st show ?thesis by (auto simp: sched_inv_def queued_def)
  next
    case (Cons p ps)
    with dr inv s' st show ?thesis by (auto simp: sched_inv_def queued_def)
  qed
qed


subsection \<open>Waking a wait queue\<close>

lemma heap_rep_cong:
  "ram s' = ram s \<Longrightarrow> mem_free_list s' = mem_free_list s \<Longrightarrow> heap_rep s' L = heap_rep s L"
  by (simp add: heap_rep_def)

lemma heap_rep_sched_cong [simp]:
  "heap_rep (s\<lparr>primask := b\<rparr>) L = heap_rep s L"
  "heap_rep (s\<lparr>runqueue := q\<rparr>) L = heap_rep s L" "heap_rep (s\<lparr>waitqueue := q\<rparr>) L = heap_rep s L"
  "heap_rep (s\<lparr>deadqueue := q\<rparr>) L = heap_rep s L" "heap_rep (s\<lparr>procs := pr\<rparr>) L = heap_rep s L"
  "heap_rep (s\<lparr>pendsv := b\<rparr>) L = heap_rep s L"
  by (rule heap_rep_cong; simp)+

lemma sched_inv_free_mem [simp]: "sched_inv (free_mem p s) = sched_inv s"
  by (simp add: sched_inv_def)

lemma sched_inv_primask [simp]: "sched_inv (s\<lparr>primask := b\<rparr>) = sched_inv s"
  by (simp add: sched_inv_def queued_def)

text \<open>The live buffers without those at the addresses in \<open>A\<close>.\<close>

definition without :: "ledger \<Rightarrow> u32 set \<Rightarrow> ledger" where
  "without L A = {(p, l) \<in> L. \<forall>a \<in> A. p \<noteq> unat a}"

lemma without_empty [simp]: "without L {} = L"
  by (auto simp: without_def)

lemma without_one:
  assumes "heap_rep s L" "(unat a, l) \<in> L"
  shows "L - {(unat a, l)} = without L {a}"
  using heap.rep_unique_len [OF assms] by (auto simp: without_def)

lemma without_without: "without (without L A) B = without L (A \<union> B)"
  by (auto simp: without_def)

lemma wake_all_spec:
  assumes "sched_inv s" "heap_rep s L" "distinct (map snd wq)" "set (map snd wq) \<subseteq> set (waitqueue s)"
    and "current_tsk s \<notin> set (map snd wq)" "distinct (map fst wq)" "\<forall>w \<in> set (map fst wq). \<exists>l. (unat w, l) \<in> L"
  shows "\<exists>s'. wake_all wq s = Some s' \<and> sched_inv s' \<and> heap_rep s' (without L (set (map fst wq)))
    \<and> runqueue s' = rev (map snd wq) @ runqueue s
    \<and> waitqueue s' = filter (\<lambda>p. p \<notin> set (map snd wq)) (waitqueue s)
    \<and> deadqueue s' = deadqueue s \<and> current_tsk s' = current_tsk s \<and> primask s' = primask s"
  using assms
proof (induction wq arbitrary: s L)
  case Nil
  then show ?case by simp
next
  case (Cons a wq)
  obtain w p where a: "a = (w, p)" by (cases a)
  have p: "p \<in> set (waitqueue s)" "p \<noteq> current_tsk s" using Cons.prems by (auto simp: a)
  obtain s1 where s1: "process_wakeup p s = Some s1"
    "s1 = s\<lparr>runqueue := p # runqueue s, waitqueue := remove1 p (waitqueue s),
      procs := (procs s)(p := (procs s p)\<lparr>state := RUNNING\<rparr>)\<rparr>"
    using process_wakeup_eq [OF Cons.prems(1) p(1)] by blast
  have inv1: "sched_inv s1" using process_wakeup_inv [OF Cons.prems(1) p s1(1)] .
  have rep1: "heap_rep s1 L" using Cons.prems(2) by (simp add: s1(2))
  obtain l where l: "(unat w, l) \<in> L" using Cons.prems(7) by (auto simp: a)
  let ?s2 = "free_mem w s1"
  have rep2: "heap_rep ?s2 (without L {w})"
    using free_mem_heap_rep(1) [OF rep1 l] without_one [OF rep1 l] by simp
  have wq2: "waitqueue ?s2 = filter (\<lambda>q. q \<noteq> p) (waitqueue s)"
    using sched_invD(2) [OF Cons.prems(1)] by (auto simp: s1(2) distinct_remove1_removeAll removeAll_filter_not_eq intro: filter_cong)
  have "\<exists>l. (unat v, l) \<in> without L {w}" if "v \<in> set (map fst wq)" for v
  proof -
    have "v \<noteq> w" using that Cons.prems(6) by (auto simp: a)
    then have "unat v \<noteq> unat w" by (simp add: word_unat_eq_iff)
    with Cons.prems(7) that show ?thesis by (fastforce simp: without_def)
  qed
  moreover have "set (map snd wq) \<subseteq> set (waitqueue ?s2)"
    using Cons.prems(3,4) unfolding wq2 by (auto simp: a)
  ultimately obtain s' where "wake_all wq ?s2 = Some s'" "sched_inv s'"
    "heap_rep s' (without (without L {w}) (set (map fst wq)))"
    "runqueue s' = rev (map snd wq) @ runqueue ?s2"
    "waitqueue s' = filter (\<lambda>q. q \<notin> set (map snd wq)) (waitqueue ?s2)"
    "deadqueue s' = deadqueue ?s2" "current_tsk s' = current_tsk ?s2" "primask s' = primask ?s2"
    using Cons.IH [of ?s2 "without L {w}"] Cons.prems inv1 rep2 by (auto simp: a s1(2))
  moreover have "waitqueue s' = filter (\<lambda>q. q \<notin> set (map snd (a # wq))) (waitqueue s)"
    using \<open>waitqueue s' = _\<close> unfolding wq2 by (simp add: a conj_commute)
  ultimately show ?case
    by (intro exI [of _ s']) (simp add: a s1 without_without)
qed

lemma waitqueue_wakeup_spec:
  assumes "sched_inv s" "heap_rep s L" "distinct (map snd wq)" "set (map snd wq) \<subseteq> set (waitqueue s)"
    and "current_tsk s \<notin> set (map snd wq)" "distinct (map fst wq)" "\<forall>w \<in> set (map fst wq). \<exists>l. (unat w, l) \<in> L"
  obtains s' where "waitqueue_wakeup wq s = Some ([], s')" "sched_inv s'" "heap_rep s' (without L (set (map fst wq)))"
    "runqueue s' = rev (map snd wq) @ runqueue s"
    "waitqueue s' = filter (\<lambda>p. p \<notin> set (map snd wq)) (waitqueue s)"
    "deadqueue s' = deadqueue s" "current_tsk s' = current_tsk s" "primask s' = primask s"
proof -
  let ?s0 = "s\<lparr>primask := True\<rparr>"
  have "sched_inv ?s0" "heap_rep ?s0 L" using assms by simp_all
  from wake_all_spec [OF this assms(3) _ _ assms(6,7)] assms(4,5) obtain s1 where
    s1: "wake_all wq ?s0 = Some s1" "sched_inv s1" "heap_rep s1 (without L (set (map fst wq)))"
    "runqueue s1 = rev (map snd wq) @ runqueue s"
    "waitqueue s1 = filter (\<lambda>p. p \<notin> set (map snd wq)) (waitqueue s)"
    "deadqueue s1 = deadqueue s" "current_tsk s1 = current_tsk s"
    by auto
  show thesis
    by (rule that [of "s1\<lparr>primask := primask s\<rparr>"])
      (use s1 sched_inv_primask [of "primask s" s1] in \<open>simp_all add: waitqueue_wakeup_def irq_defs\<close>)
qed

subsection \<open>Round robin\<close>

text \<open>Timer interrupts only: \<open>pick_new_task\<close> again and again, with the stack pointers it is given.\<close>

fun switches :: "u32 list \<Rightarrow> 'a sched_scheme \<Rightarrow> 'a sched_scheme option" where
  "switches [] s = Some s"
| "switches (sp # sps) s = do { (r, s) \<leftarrow> pick_new_task sp s; switches sps s }"

lemma pick_new_task_rotate:
  assumes inv: "sched_inv s" and c: "current_tsk s \<noteq> 0" "state (procs s (current_tsk s)) = RUNNING"
    and idle: "idle_tsk s \<noteq> 0" and sp: "sp \<noteq> 0"
  obtains r s' where "pick_new_task sp s = Some (r, s')" "sched_inv s'" "idle_tsk s' = idle_tsk s"
    "current_tsk s' \<noteq> 0" "state (procs s' (current_tsk s')) = RUNNING"
    "current_tsk s' # runqueue s' = rotate 1 (current_tsk s # runqueue s)"
proof -
  have rq: "ready_queue s = runqueue s @ [current_tsk s]" using c by (simp add: ready_queue_def)
  let ?n = "hd (runqueue s @ [current_tsk s])"
  obtain s1 where s1: "pick_new_task sp s = Some (cur_stack (procs s1 ?n), s1)"
    "current_tsk s1 = ?n" "runqueue s1 = tl (ready_queue s)" "waitqueue s1 = waitqueue s" "deadqueue s1 = deadqueue s"
    "primask s1 = primask s" "ram s1 = ram s" "idle_tsk s1 = idle_tsk s"
    "procs s1 = (if current_tsk s = 0 then procs s
       else (procs s)(current_tsk s := (procs s (current_tsk s))\<lparr>cur_stack := sp\<rparr>))"
    using pick_new_task_eq [OF inv _ idle, of sp] sp unfolding rq by auto
  have "?n \<in> set (runqueue s @ [current_tsk s])" by (rule hd_in_set) simp
  then have n: "?n \<noteq> 0" "state (procs s ?n) = RUNNING" using sched_invD(4) [OF inv] c by auto
  have st: "state (procs s1 p) = state (procs s p)" for p using s1(9) by simp
  show thesis
  proof (rule that [OF s1(1)])
    show "sched_inv s1" using pick_new_task_inv [OF inv _ idle s1(1)] sp by blast
    show "current_tsk s1 # runqueue s1 = rotate 1 (current_tsk s # runqueue s)"
      by (cases "runqueue s") (simp_all add: s1(2,3) rq)
  qed (use s1(2,8) n st in auto)
qed

lemma switches_rotate:
  assumes "sched_inv s" "current_tsk s \<noteq> 0" "state (procs s (current_tsk s)) = RUNNING"
    and "idle_tsk s \<noteq> 0" "0 \<notin> set sps"
  shows "\<exists>s'. switches sps s = Some s' \<and> sched_inv s' \<and> idle_tsk s' = idle_tsk s
    \<and> current_tsk s' # runqueue s' = rotate (length sps) (current_tsk s # runqueue s)"
  using assms
proof (induction sps arbitrary: s)
  case (Cons sp sps)
  obtain r s1 where s1: "pick_new_task sp s = Some (r, s1)" "sched_inv s1" "idle_tsk s1 = idle_tsk s"
    "current_tsk s1 \<noteq> 0" "state (procs s1 (current_tsk s1)) = RUNNING"
    "current_tsk s1 # runqueue s1 = rotate 1 (current_tsk s # runqueue s)"
    using pick_new_task_rotate [OF Cons.prems(1-4), of sp] Cons.prems(5) by auto
  obtain s' where s': "switches sps s1 = Some s'" "sched_inv s'" "idle_tsk s' = idle_tsk s1"
    "current_tsk s' # runqueue s' = rotate (length sps) (current_tsk s1 # runqueue s1)"
    using Cons.IH [OF s1(2,4,5)] s1(3) Cons.prems(4,5) by auto
  have "current_tsk s' # runqueue s' = rotate (length (sp # sps)) (current_tsk s # runqueue s)"
    unfolding s'(4) s1(6) rotate_rotate by simp
  then show ?case using s1(1,3) s'(1-3) by simp
qed simp


subsection \<open>The stack of a new process\<close>

lemma aligned_offset:
  "aligned4 p \<Longrightarrow> q AND 3 = 0 \<Longrightarrow> aligned4 (p + q)"
  by (intro aligned4_add) (simp_all add: aligned4_def)

lemma upt_8: "[0..<8] = [0, 1, 2, 3, 4, 5, 6, 7]"
  by (simp add: upt_rec)

lemma init_stack_loads:
  assumes sw: "aligned4 sw"
    and m'_def: "m' = init_stack (sw + 32) finish pc r0 m"
  shows "load32 m' (sw + 32) = r0" "load32 m' (sw + 52) = finish" "load32 m' (sw + 56) = pc"
    "load32 m' (sw + 60) = 0x01000000" "pop_regs m' sw 8 = replicate 8 0"
proof -
  let ?m0 = "memset sw 0 32 (memset (sw + 32) 0 32 m)"
  have m': "m' = store32 (sw + 60) 0x01000000 (store32 (sw + 32) r0 (store32 (sw + 52) finish (store32 (sw + 56) pc ?m0)))"
    by (simp add: m'_def init_stack_def Let_def sizeof_hw_stack_ctx_def sizeof_sw_stack_ctx_def add.assoc)
  have al: "aligned4 (sw + 32)" "aligned4 (sw + 52)" "aligned4 (sw + 56)" "aligned4 (sw + 60)"
    using sw by (auto intro!: aligned_offset)
  show "load32 m' (sw + 32) = r0" "load32 m' (sw + 52) = finish" "load32 m' (sw + 56) = pc"
    "load32 m' (sw + 60) = 0x01000000"
    using al by (simp_all add: m' load32_store32)
  have z: "load32 m' (sw + k) = 0" if "k AND 3 = 0" "k \<noteq> 32" "k \<noteq> 52" "k \<noteq> 56" "k \<noteq> 60" "unat k + 4 \<le> 32" for k
  proof -
    have "in_range sw 32 x" if "in_range (sw + k) 4 x" for x
      using in_range_sub [of sw "unat k" 4 x 32] that \<open>unat k + 4 \<le> 32\<close> by simp
    then have "load32 ?m0 (sw + k) = 0" by (intro load32_zero memset_byte) auto
    moreover have "aligned4 (sw + k)" using sw that(1) by (rule aligned_offset)
    ultimately show ?thesis using al that by (simp add: m' load32_store32)
  qed
  have "load32 m' (sw + 0) = 0"
    "load32 m' (sw + 4) = 0"
    "load32 m' (sw + 8) = 0"
    "load32 m' (sw + 12) = 0"
    "load32 m' (sw + 16) = 0"
    "load32 m' (sw + 20) = 0"
    "load32 m' (sw + 24) = 0"
    "load32 m' (sw + 28) = 0"
    by (rule z; simp)+
  moreover have "replicate 8 (0 :: u32) = [0, 0, 0, 0, 0, 0, 0, 0]" by (simp add: numeral_eq_Suc)
  ultimately show "pop_regs m' sw 8 = replicate 8 0"
    by (simp add: pop_regs_def upt_8)
qed

lemma init_stack_frame:
  assumes "\<not> in_range sw 64 x"
  shows "init_stack (sw + 32) finish pc r0 m x = m x"
proof -
  have out: "\<not> in_range (sw + of_nat k) n x" if "k + n \<le> 64" for k n
    using in_range_sub [of sw k n x 64] that assms by auto
  have "\<not> in_range sw 32 x" "\<not> in_range (sw + 32) 32 x" "\<not> in_range (sw + 32) 4 x"
    "\<not> in_range (sw + 52) 4 x" "\<not> in_range (sw + 56) 4 x" "\<not> in_range (sw + 60) 4 x"
    using out [of 0 32] out [of 32 32] out [of 32 4] out [of 52 4] out [of 56 4] out [of 60 4] by simp_all
  then show ?thesis
    by (simp add: init_stack_def Let_def sizeof_hw_stack_ctx_def sizeof_sw_stack_ctx_def
        store32_frame_range memset_frame add.assoc)
qed

lemma create_process_spec:
  assumes rep: "heap_rep s L" and cp: "create_process pc r0 s = Some (p, s')"
  obtains st lp ls m m0 where "20 \<le> lp" "0x400 \<le> ls" "(\<forall>k. (unat p, k) \<notin> L)" "(\<forall>k. (unat st, k) \<notin> insert (unat p, lp) L)"
    "heap_rep s' (insert (unat st, ls) (insert (unat p, lp) L))"
    "s' = s\<lparr>ram := m, procs := (procs s)(p := (procs s p)\<lparr>stack_alloc := st, cur_stack := st + 0x3C0\<rparr>)\<rparr>"
    "m = init_stack (st + 0x3C0 + 32) (addr_process_finish s) pc r0 m0" "aligned4 st"
proof -
  obtain s1 st s2 where g1: "get_mem sizeof_process_t s = Some (p, s1)" and g2: "get_mem STACK_SZ s1 = Some (st, s2)"
    and s': "s' = (let s = set_cur_stack p (st + STACK_SZ - sizeof_hw_stack_ctx - sizeof_sw_stack_ctx) (set_stack_alloc p st s2)
      in s\<lparr>ram := init_stack (st + STACK_SZ - sizeof_hw_stack_ctx) (addr_process_finish s) pc r0 (ram s)\<rparr>)"
    using cp by (auto simp: create_process_def Let_def split: bind_splits)
  have ro: "request_ok sizeof_process_t" "request_ok STACK_SZ"
    by (simp_all add: request_ok_def sizeof_process_t_def STACK_SZ_def)
  obtain lp where lp: "20 \<le> lp" "heap_rep s1 (insert (unat p, lp) L)" "\<forall>k. (unat p, k) \<notin> L"
    using get_mem_heap_rep(1) [OF rep ro(1) g1] by (auto simp: sizeof_process_t_def)
  obtain ls where ls: "0x400 \<le> ls" "heap_rep s2 (insert (unat st, ls) (insert (unat p, lp) L))"
    "\<forall>k. (unat st, k) \<notin> insert (unat p, lp) L"
    using get_mem_heap_rep(1) [OF lp(2) ro(2) g2] by (auto simp: STACK_SZ_def)
  obtain m1 where m1: "s1 = s\<lparr>ram := m1\<rparr>" using g1 by (rule get_mem_ram)
  obtain m2 where m2: "s2 = s1\<lparr>ram := m2\<rparr>" using g2 by (rule get_mem_ram)
  let ?m = "init_stack (st + 0x3C0 + 32) (addr_process_finish s) pc r0 m2"
  have s'': "s' = s\<lparr>ram := ?m, procs := (procs s)(p := (procs s p)\<lparr>stack_alloc := st, cur_stack := st + 0x3C0\<rparr>)\<rparr>"
    by (rule sched.equality) (simp_all add: s' m1 m2 Let_def set_cur_stack_def set_stack_alloc_def STACK_SZ_def
        sizeof_hw_stack_ctx_def sizeof_sw_stack_ctx_def add.commute)
  have "heap_rep (s2\<lparr>ram := ?m\<rparr>) (insert (unat st, ls) (insert (unat p, lp) L))"
  proof (rule heap_rep_change [OF ls(2)])
    fix x assume "?m x \<noteq> ram s2 x"
    then have "in_range (st + of_nat 0x3C0) 64 x" using init_stack_frame [of "st + 0x3C0" x] by (auto simp: m2)
    then have "in_buf (unat st, ls) x"
      by (intro in_buf_range [OF ls(2), where k = 960 and n = 64]) (use ls(1) in simp_all)
    then show "\<exists>b \<in> insert (unat st, ls) (insert (unat p, lp) L). in_buf b x" by blast
  qed
  then have "heap_rep s' (insert (unat st, ls) (insert (unat p, lp) L))"
    by (simp add: s'' m1 m2 heap_rep_def)
  moreover have "aligned4 st"
    using heap_rep_bounds [OF ls(2)] unfolding aligned4_iff_dvd by blast
  ultimately show thesis
    by (intro that [OF lp(1) ls(1) lp(3) ls(3) _ s'' refl])
qed


subsection \<open>Reaping a finished process\<close>

lemma free_two:
  assumes rep: "heap_rep s (insert (unat a, k) (insert (unat b, l) L))"
    and new: "\<forall>k. (unat b, k) \<notin> L" "\<forall>k. (unat a, k) \<notin> insert (unat b, l) L"
  shows "heap_rep (free_mem b (free_mem a s)) L"
proof -
  have "heap_rep (free_mem a s) (insert (unat a, k) (insert (unat b, l) L) - {(unat a, k)})"
    by (rule free_mem_heap_rep(1) [OF rep]) simp
  moreover have "insert (unat a, k) (insert (unat b, l) L) - {(unat a, k)} = insert (unat b, l) L"
    using new(2) by blast
  ultimately have r1: "heap_rep (free_mem a s) (insert (unat b, l) L)" by simp
  have "heap_rep (free_mem b (free_mem a s)) (insert (unat b, l) L - {(unat b, l)})"
    by (rule free_mem_heap_rep(1) [OF r1]) simp
  moreover have "insert (unat b, l) L - {(unat b, l)} = L" using new(1) by blast
  ultimately show ?thesis by simp
qed

lemma idle_task_turn_reaps:
  assumes dead: "deadqueue s = d # ds" and st: "stack_alloc (procs s d) = st"
    and rep: "heap_rep s (insert (unat st, k) (insert (unat d, l) L))"
    and new: "\<forall>k. (unat d, k) \<notin> L" "\<forall>k. (unat st, k) \<notin> insert (unat d, l) L"
  shows "heap_rep (idle_task_turn s) L" "deadqueue (idle_task_turn s) = ds"
    "runqueue (idle_task_turn s) = runqueue s" "waitqueue (idle_task_turn s) = waitqueue s"
proof -
  let ?s1 = "s\<lparr>primask := True, deadqueue := ds\<rparr>"
  have "heap_rep ?s1 (insert (unat st, k) (insert (unat d, l) L))" using rep by simp
  from free_two [OF this new] have "heap_rep (free_mem d (free_mem st ?s1)) L" .
  moreover have eq: "idle_task_turn s = (free_mem d (free_mem st ?s1))\<lparr>primask := primask s\<rparr>"
    by (simp add: idle_task_turn_def irq_defs Let_def dead st)
  ultimately show "heap_rep (idle_task_turn s) L" by simp
  show "deadqueue (idle_task_turn s) = ds" "runqueue (idle_task_turn s) = runqueue s"
    "waitqueue (idle_task_turn s) = waitqueue s"
    by (simp_all add: eq)
qed

subsection \<open>Context switches\<close>

lemma length_8E:
  assumes "length rs = 8"
  obtains a b c d e f g h where "rs = [a, b, c, d, e, f, g, h]"
  using assms by (auto simp: numeral_eq_Suc length_Suc_conv)

lemma push_regs_eq:
  "push_regs p [a, b, c, d, e, f, g, h] m =
    store32 (p + 28) h (store32 (p + 24) g (store32 (p + 20) f (store32 (p + 16) e
      (store32 (p + 12) d (store32 (p + 8) c (store32 (p + 4) b (store32 p a m)))))))"
  by (simp add: push_regs_def)

lemma push_regs_frame:
  assumes "length rs = 8" "\<not> in_range p 32 x"
  shows "push_regs p rs m x = m x"
proof -
  obtain a b c d e f g h where rs: "rs = [a, b, c, d, e, f, g, h]" using assms(1) by (rule length_8E)
  have out: "\<not> in_range (p + of_nat k) 4 x" if "k \<le> 28" for k
    using in_range_sub [of p k 4 x 32] that assms(2) by auto
  have "\<not> in_range p 4 x" "\<not> in_range (p + 4) 4 x" "\<not> in_range (p + 8) 4 x" "\<not> in_range (p + 12) 4 x"
    "\<not> in_range (p + 16) 4 x" "\<not> in_range (p + 20) 4 x" "\<not> in_range (p + 24) 4 x" "\<not> in_range (p + 28) 4 x"
    using out [of 0] out [of 4] out [of 8] out [of 12] out [of 16] out [of 20] out [of 24] out [of 28]
    by simp_all
  then show ?thesis by (simp add: rs push_regs_eq store32_frame_range)
qed

lemma pop_push_regs:
  assumes "length rs = 8" "aligned4 p"
  shows "pop_regs (push_regs p rs m) p 8 = rs"
proof -
  obtain a b c d e f g h where rs: "rs = [a, b, c, d, e, f, g, h]" using assms(1) by (rule length_8E)
  have "aligned4 (p + 4)" "aligned4 (p + 8)" "aligned4 (p + 12)" "aligned4 (p + 16)" "aligned4 (p + 20)"
    "aligned4 (p + 24)" "aligned4 (p + 28)"
    using assms(2) by (auto intro!: aligned_offset)
  with assms(2) show ?thesis
    by (simp add: pop_regs_def upt_8 rs push_regs_eq load32_store32)
qed

lemma pop_regs_cong:
  assumes "\<And>x. in_range p 32 x \<Longrightarrow> m' x = m x"
  shows "pop_regs m' p 8 = pop_regs m p 8"
proof -
  have "load32 m' (p + 4 * of_nat i) = load32 m (p + 4 * of_nat i)" if "i < 8" for i
  proof (rule load32_cong, rule assms)
    fix x assume "in_range (p + 4 * of_nat i) 4 x"
    then show "in_range p 32 x" using in_range_sub [of p "4 * i" 4 x 32] that by simp
  qed
  then show ?thesis by (simp add: pop_regs_def)
qed

text \<open>What PendSV leaves in memory and registers.\<close>

lemma irq_pendsv_eq:
  assumes inv: "sched_inv s" and sp: "current_tsk s = 0 \<or> (psp s \<noteq> 0 \<and> psp s \<noteq> 32)" and idle: "idle_tsk s \<noteq> 0"
    and pv: "irq_pendsv s = Some s'"
  defines "m \<equiv> (if psp s = 0 then ram s else push_regs (psp s - 32) (callee_regs s) (ram s))"
  shows "ram s' = m" "current_tsk s' = (if ready_queue s = [] then idle_tsk s else hd (ready_queue s))"
    "psp s' = cur_stack (procs s' (current_tsk s')) + 32"
    "callee_regs s' = pop_regs m (cur_stack (procs s' (current_tsk s'))) 8"
    "procs s' = (if current_tsk s = 0 then procs s
      else (procs s)(current_tsk s := (procs s (current_tsk s))\<lparr>cur_stack := psp s - 32\<rparr>))"
    "sched_inv s'"
proof -
  let ?s0 = "s\<lparr>ram := m\<rparr>" and ?r0 = "if psp s = 0 then 0 else psp s - 32"
  have inv0: "sched_inv ?s0" using inv by (simp add: sched_inv_def queued_def)
  have sp0: "current_tsk ?s0 = 0 \<or> ?r0 \<noteq> 0" using sp by auto
  have rq: "ready_queue ?s0 = ready_queue s" by (simp add: ready_queue_def)
  obtain s1 where s1: "pick_new_task ?r0 ?s0 = Some (cur_stack (procs s1 (if ready_queue ?s0 = [] then idle_tsk ?s0 else hd (ready_queue ?s0))), s1)"
    "current_tsk s1 = (if ready_queue ?s0 = [] then idle_tsk ?s0 else hd (ready_queue ?s0))"
    "runqueue s1 = tl (ready_queue ?s0)" "waitqueue s1 = waitqueue ?s0" "deadqueue s1 = deadqueue ?s0"
    "primask s1 = primask ?s0" "ram s1 = ram ?s0" "idle_tsk s1 = idle_tsk ?s0"
    "procs s1 = (if current_tsk ?s0 = 0 then procs ?s0
       else (procs ?s0)(current_tsk ?s0 := (procs ?s0 (current_tsk ?s0))\<lparr>cur_stack := ?r0\<rparr>))"
    by (rule pick_new_task_eq [OF inv0 sp0]) (use idle in simp)
  have inv1: "sched_inv s1"
    by (rule pick_new_task_inv [OF inv0 sp0 _ s1(1)]) (use idle in simp)
  have eq: "irq_pendsv s = (case pick_new_task ?r0 ?s0 of None \<Rightarrow> None
     | Some (r, s1) \<Rightarrow> Some (s1\<lparr>callee_regs := pop_regs (ram s1) r 8, psp := r + 32, pendsv := False\<rparr>))"
    by (cases "psp s = 0") (simp_all add: irq_pendsv_def m_def Let_def split: option.splits)
  have s': "s' = s1\<lparr>callee_regs := pop_regs m (cur_stack (procs s1 (current_tsk s1))) 8,
      psp := cur_stack (procs s1 (current_tsk s1)) + 32, pendsv := False\<rparr>"
    using pv eq s1(1,2,7) by simp
  show "ram s' = m" "current_tsk s' = (if ready_queue s = [] then idle_tsk s else hd (ready_queue s))"
    "psp s' = cur_stack (procs s' (current_tsk s')) + 32"
    "callee_regs s' = pop_regs m (cur_stack (procs s' (current_tsk s'))) 8"
    "sched_inv s'"
    using s1(2,7) inv1 by (simp_all add: s' rq sched_inv_def queued_def)
  show "procs s' = (if current_tsk s = 0 then procs s
      else (procs s)(current_tsk s := (procs s (current_tsk s))\<lparr>cur_stack := psp s - 32\<rparr>))"
    using s1(9) sp by (auto simp: s')
qed


lemma irq_pendsv_returns:
  assumes inv: "sched_inv s" and sp: "current_tsk s = 0 \<or> (psp s \<noteq> 0 \<and> psp s \<noteq> 32)" and idle: "idle_tsk s \<noteq> 0"
  obtains s' where "irq_pendsv s = Some s'"
proof -
  have inv0: "sched_inv (s\<lparr>ram := m\<rparr>)" for m using inv by (simp add: sched_inv_def queued_def)
  have "\<exists>r s1. pick_new_task (if psp s = 0 then 0 else psp s - 32) (s\<lparr>ram := m\<rparr>) = Some (r, s1)" for m
    by (rule pick_new_task_eq [OF inv0 [of m], of "if psp s = 0 then 0 else psp s - 32"])
      (use sp idle in \<open>auto simp del: not_None_eq\<close>)
  from this [of "ram s"] this [of "push_regs (psp s - 32) (callee_regs s) (ram s)"] show thesis
    by (cases "psp s = 0") (auto simp: irq_pendsv_def intro: that)
qed

end
