(* ===== verification/Heap_Properties.thy ===== *)
theory Heap_Properties
  imports Heap_Interface
begin

text \<open>
  The properties of the allocator: what \<open>get_mem\<close> and \<open>free_mem\<close> do on every branch, the safety of
  every client that follows the protocol, and what happens at the edges (exhaustion, sizes that wrap
  around). \<open>boot_machine\<close> is the concrete state the witnesses start from.
\<close>

unbundle bit_operations_syntax

subsection \<open>Facts about the abstract operations\<close>

lemma empty_heap_blocks:
  assumes shape: "heap_shape bs" and co: "coalesced bs" and live: "live bs = {}"
  shows "bs = [(heap_size, False)]"
proof -
  have free: "\<not> f" if "(s, f) \<in> set bs" for s f
  proof
    assume f
    with that obtain xs ys where bs: "bs = xs @ (s, True) # ys" by (auto simp: in_set_conv_decomp)
    have "(heap_base + bsum xs + 4, s - 8) \<in> live bs"
      unfolding bs live_flag [OF refl] by (rule insertI1)
    with live show False by simp
  qed
  show ?thesis
  proof (cases bs)
    case Nil
    with shape show ?thesis by (simp add: heap_shape_def heap_size_def)
  next
    case (Cons b bs')
    obtain s f where b: "b = (s, f)" by (cases b)
    have f: "\<not> f" using free [of s f] Cons b by simp
    have "bs' = []"
    proof (cases bs')
      case (Cons c cs)
      with co f have "snd c" by (simp add: \<open>bs = b # bs'\<close> b)
      moreover have "(fst c, snd c) \<in> set bs" by (simp add: \<open>bs = b # bs'\<close> Cons)
      ultimately show ?thesis using free by blast
    qed
    with shape f Cons b show ?thesis by (simp add: heap_shape_def)
  qed
qed

lemma free_list_single:
  assumes "heap_rel m fl [(heap_size, False)] fs"
  shows "fs = [heap_base]"
proof -
  note r = heap_relD [OF assms]
  from r(8) have "set fs = {heap_base}" by (simp add: free_addrs_def)
  with r(7) show ?thesis by (cases fs; cases "tl fs") auto
qed

lemma release_alloc_spec:
  assumes inv: "heap_inv m fl bs fs" and a: "alloc_spec n bs fs = Some (c, bs', fs')" "16 \<le> n"
  shows "fst (release_spec c bs' fs') = bs"
proof -
  have rel: "heap_rel m fl bs fs" and co: "coalesced bs" using inv by (auto simp: heap_inv_def)
  show ?thesis
    using rel
  proof (cases rule: alloc_spec_cases [where n = n])
    case none
    with a(1) show ?thesis by simp
  next
    case (some d xs t ys)
    have c: "c = heap_base + bsum xs" and
      bs': "bs' = xs @ (if t < n + 16 then [(t, True)] else [(n, True), (t - n, False)]) @ ys"
      using some(3,6) a(1) by auto
    have ok: "sizes_ok xs" using heap_relD(2) [OF rel] by (simp add: some(2))
    have pr: "\<not> (xs \<noteq> [] \<and> \<not> snd (last xs))" and nx: "ys = [] \<or> snd (hd ys)"
      using co by (auto simp: some(2) coalesced_append)
    have jn: "join_next c t ys gs = (t, ys, gs)" for gs
      using nx by (cases ys) (auto simp: join_next_def split: bool.splits)
    show ?thesis
    proof (cases "t < n + 16")
      case True
      then have "break_at heap_base c bs' = (xs, (t, True) # ys)"
        using break_at_eq [OF ok c, of t True ys] by (simp add: bs')
      then show ?thesis
        using pr jn by (auto simp: release_spec_def join_prev_def some(2))
    next
      case False
      then have "break_at heap_base c bs' = (xs, (n, True) # (t - n, False) # ys)"
        using break_at_eq [OF ok c, of n True "(t - n, False) # ys"] by (simp add: bs')
      then show ?thesis
        using pr some(4) by (auto simp: release_spec_def join_prev_def join_next_def some(2))
    qed
  qed
qed

lemma alloc_spec_block:
  assumes rel: "heap_rel m fl bs fs" and a: "alloc_spec n bs fs = Some (c, bs', fs')"
  shows "\<exists>k. (c, k, True) \<in> set (layout heap_base bs')"
  using rel
proof (cases rule: alloc_spec_cases [where n = n])
  case (some d xs t ys)
  with a show ?thesis by auto
qed (use a in simp)

lemma convert_overflow:
  assumes "2 ^ 32 - 12 < unat r"
  shows "mem_convert_to_block_size r = 16"
proof -
  let ?k = "(unat r + 3) div 4"
  have u: "unat r < 2 ^ 32" using unsigned_less [of r] by simp
  have k: "2 ^ 30 - 2 \<le> ?k" "?k \<le> 2 ^ 30"
    using assms u by auto
  then consider "?k = 2 ^ 30 - 2" | "?k = 2 ^ 30 - 1" | "?k = 2 ^ 30" by linarith
  then have "P2ROUND r 4 \<in> {0xFFFFFFF8, 0xFFFFFFFC, 0}"
    unfolding P2ROUND_4 by cases simp_all
  then show ?thesis
    by (auto simp: mem_convert_to_block_size_def Let_def MEM_ALIGN_def sizeof_mem_btag_def)
qed

subsection \<open>A concrete machine\<close>

text \<open>The free-list head lies in the first RAM bank, as \<open>linker.ld\<close> places \<open>.bss\<close>.\<close>

definition boot_machine :: machine where
  "boot_machine = mem_setup \<lparr>primask = False, ram = (\<lambda>_. 0), mem_free_list = 0x10000100\<rparr>"

lemma boot_machine_fields: "mem_free_list boot_machine = 0x10000100" "primask boot_machine = False"
  by (simp_all add: boot_machine_def mem_setup_def Let_def)

lemma boot_machine_inv:
  "heap_inv (ram boot_machine) (mem_free_list boot_machine) [(heap_size, False)] [heap_base]"
  using mem_setup_rel [of "\<lparr>primask = False, ram = (\<lambda>_. 0), mem_free_list = 0x10000100\<rparr>"]
  by (simp add: heap_inv_def boot_machine_fields)
    (simp add: boot_machine_def fl_ok_def aligned4_def heap_base_def heap_size_def)

lemma boot_machine_rep: "heap_rep boot_machine {}"
  using boot_machine_inv by (force simp: heap_rep_def live_def)


subsection \<open>Properties\<close>

text \<open>\<open>mem_setup\<close> turns any memory into a heap of one free block of \<open>MEM_HEAP_SIZE\<close> bytes that
  is alone on the free list, and changes no other part of the machine.\<close>

theorem mem_setup_single_block:
  assumes "fl_ok (mem_free_list s)"
  shows "\<exists>m. mem_setup s = s\<lparr>ram := m\<rparr> \<and> heap_inv m (mem_free_list s) [(heap_size, False)] [heap_base]"
  using mem_setup_rel [OF assms]
  by (intro exI [of _ "ram (mem_setup s)"]) (simp add: mem_setup_def Let_def heap_inv_def)

lemma mem_setup_single_block_witness:
  "\<exists>m. mem_setup \<lparr>primask = True, ram = (\<lambda>_. 255), mem_free_list = 0x10000100\<rparr>
      = \<lparr>primask = True, ram = m, mem_free_list = 0x10000100\<rparr>
    \<and> heap_inv m 0x10000100 [(heap_size, False)] [heap_base]"
  using mem_setup_single_block [of "\<lparr>primask = True, ram = (\<lambda>_. 255), mem_free_list = 0x10000100\<rparr>"]
  by (simp add: fl_ok_def aligned4_def heap_base_def heap_size_def)

text \<open>C1: \<open>get_mem\<close> is first-fit allocation over the abstract heap. It finds the first block of the
  free list that is large enough for the rounded request, marks it allocated, splits off the rest
  when that is at least 16 bytes, gives back the address 4 bytes into the block, keeps the heap
  invariant, every byte of every allocated payload and the interrupt mask; and it never returns
  when no free block is large enough.\<close>

theorem get_mem_refines:
  assumes "heap_inv (ram s) (mem_free_list s) bs fs" and "sz \<noteq> 0" "unat sz \<le> 2 ^ 32 - 12"
  shows "case alloc_spec (block_size_of (unat sz)) bs fs of
      None \<Rightarrow> get_mem sz s = None
    | Some (c, bs', fs') \<Rightarrow> (\<exists>m. get_mem sz s = Some (of_nat (c + 4), s\<lparr>ram := m\<rparr>)
        \<and> heap_inv m (mem_free_list s) bs' fs'
        \<and> (\<forall>x. payload_byte bs (unat x) \<longrightarrow> m x = ram s x))"
  using assms by (rule get_mem_step)

lemma get_mem_refines_witness:
  "\<exists>m. get_mem 10 boot_machine = Some (0x2007C004, boot_machine\<lparr>ram := m\<rparr>)
    \<and> heap_inv m 0x10000100 [(20, True), (32748, False)] [heap_base + 20]"
  using get_mem_refines [OF boot_machine_inv, of 10]
  by (simp add: alloc_spec_def block_size_of_def size_at_def heap_base_def heap_size_def
      boot_machine_fields) blast

text \<open>C2: \<open>free_mem\<close> of a live buffer is the abstract release: the block is freed and merged with
  whichever of its two neighbours is free; the invariant (in particular that no two free blocks
  touch), the interrupt mask and every byte of the other payloads are kept.\<close>

theorem free_mem_refines:
  assumes "heap_inv (ram s) (mem_free_list s) bs fs" and "(c, n, True) \<in> set (layout heap_base bs)"
  shows "\<exists>m. free_mem (of_nat (c + 4)) s = s\<lparr>ram := m\<rparr> \<and>
    (case release_spec c bs fs of (bs', fs') \<Rightarrow>
       heap_inv m (mem_free_list s) bs' fs' \<and>
       (\<forall>x. payload_byte bs' (unat x) \<longrightarrow> m x = ram s x))"
  using assms by (rule free_mem_step)

lemma boot_get_mem:
  obtains m where "get_mem 10 boot_machine = Some (0x2007C004, boot_machine\<lparr>ram := m\<rparr>)"
    "heap_inv m 0x10000100 [(20, True), (32748, False)] [heap_base + 20]"
  using get_mem_step [OF boot_machine_inv, of 10]
  by (simp add: alloc_spec_def block_size_of_def size_at_def heap_base_def heap_size_def
      boot_machine_fields) blast

lemma free_mem_refines_witness:
  "\<exists>(s :: machine) m. heap_inv (ram s) 0x10000100 [(20, True), (32748, False)] [heap_base + 20]
    \<and> free_mem 0x2007C004 s = s\<lparr>ram := m\<rparr> \<and> heap_inv m 0x10000100 [(32768, False)] [heap_base]"
proof -
  obtain m where m: "heap_inv m 0x10000100 [(20, True), (32748, False)] [heap_base + 20]"
    using boot_get_mem by blast
  let ?s = "boot_machine\<lparr>ram := m\<rparr>"
  have "\<exists>m'. free_mem (of_nat (heap_base + 4)) ?s = ?s\<lparr>ram := m'\<rparr>
      \<and> heap_inv m' 0x10000100 [(32768, False)] [heap_base]"
    using free_mem_refines [of ?s "[(20, True), (32748, False)]" "[heap_base + 20]" heap_base 20] m
    by (auto simp: boot_machine_fields release_spec_def join_prev_def join_next_def)
  moreover have "(of_nat (heap_base + 4) :: u32) = 0x2007C004" by (simp add: heap_base_def)
  ultimately obtain m' where "free_mem 0x2007C004 ?s = ?s\<lparr>ram := m'\<rparr>"
    "heap_inv m' 0x10000100 [(32768, False)] [heap_base]" by metis
  with m show ?thesis
    by - (rule exI [of _ ?s], rule exI [of _ m'], simp)
qed

text \<open>Giving a buffer back right after getting it restores the sequence of blocks exactly.\<close>

theorem get_mem_free_mem_roundtrip:
  assumes inv: "heap_inv (ram s) (mem_free_list s) bs fs" and r: "request_ok r"
    and g: "get_mem r s = Some (p, s')"
  shows "\<exists>m fs'. free_mem p s' = s\<lparr>ram := m\<rparr> \<and> heap_inv m (mem_free_list s) bs fs'"
proof -
  have rr: "r \<noteq> 0" "unat r \<le> 2 ^ 32 - 12" using r by (auto simp: request_ok_def)
  note gm = get_mem_step [OF inv rr]
  obtain c bs' fs' where a: "alloc_spec (block_size_of (unat r)) bs fs = Some (c, bs', fs')"
    using gm g by (cases "alloc_spec (block_size_of (unat r)) bs fs") auto
  then obtain m where m: "p = of_nat (c + 4)" "s' = s\<lparr>ram := m\<rparr>" "heap_inv m (mem_free_list s) bs' fs'"
    using gm g by auto
  obtain k where k: "(c, k, True) \<in> set (layout heap_base bs')"
    using alloc_spec_block [OF _ a] inv by (auto simp: heap_inv_def)
  have inv': "heap_inv (ram s') (mem_free_list s') bs' fs'" using m by simp
  obtain fs2 where "release_spec c bs' fs' = (bs, fs2)"
    using release_alloc_spec [OF inv a block_size_of_facts(1)] by (metis prod.collapse)
  then obtain m2 where m2: "free_mem p s' = s'\<lparr>ram := m2\<rparr>"
    "heap_inv m2 (mem_free_list s') bs fs2"
    using free_mem_step [OF inv' k] unfolding m(1) by auto
  with m2(1) m(2) show ?thesis by auto
qed

lemma get_mem_free_mem_roundtrip_witness:
  "\<exists>s' m fs'. get_mem 10 boot_machine = Some (0x2007C004, s')
    \<and> free_mem 0x2007C004 s' = boot_machine\<lparr>ram := m\<rparr> \<and> heap_inv m 0x10000100 [(heap_size, False)] fs'"
proof -
  obtain m where m: "get_mem 10 boot_machine = Some (0x2007C004, boot_machine\<lparr>ram := m\<rparr>)"
    by (rule boot_get_mem)
  from get_mem_free_mem_roundtrip [OF boot_machine_inv _ this] m show ?thesis
    by (fastforce simp: request_ok_def boot_machine_fields)
qed


text \<open>
  The states a program reaches from \<open>mem_setup\<close> when it only frees what it got, once, and only
  writes into what it holds. The ledger records each buffer with the size asked for, the ghost map
  what was written.
\<close>

inductive client :: "machine \<Rightarrow> ledger \<Rightarrow> ghost \<Rightarrow> bool" where
  start: "fl_ok (mem_free_list s) \<Longrightarrow> client (mem_setup s) {} (\<lambda>_. None)"
| take: "client s K G \<Longrightarrow> request_ok r \<Longrightarrow> get_mem r s = Some (p, s') \<Longrightarrow>
    client s' (insert (unat p, unat r) K) G"
| give: "client s K G \<Longrightarrow> (unat p, r) \<in> K \<Longrightarrow>
    client (free_mem p s) (K - {(unat p, r)}) (\<lambda>x. if in_buf (unat p, r) x then None else G x)"
| fill: "client s K G \<Longrightarrow> b \<in> K \<Longrightarrow> in_buf b x \<Longrightarrow> client (poke x v s) K (G(x \<mapsto> v))"

lemma client_ledger: "client s K G \<Longrightarrow> heap.ledger_ok s K G"
proof (induction rule: client.induct)
  case (start s)
  from mem_setup_heap_rep [OF this] show ?case by (rule heap.ledger_empty)
qed (blast intro: heap.ledger_alloc heap.ledger_release heap.ledger_write)+

text \<open>C3: in every state such a program reaches, after any sequence of \<open>get_mem\<close>, \<open>free_mem\<close> and
  writes, the buffers it holds lie inside the heap, are 4-aligned, do not overlap one another, are as
  long as was asked for, and still contain every byte written into them.\<close>

theorem client_buffers_safe:
  assumes "client s K G"
  shows "(\<forall>a b. a \<in> K \<longrightarrow> b \<in> K \<longrightarrow> a = b \<or> apart a b)
    \<and> (\<forall>p r. (p, r) \<in> K \<longrightarrow> heap_base < p \<and> p + r < heap_base + heap_size \<and> 4 dvd p)
    \<and> (\<forall>x v. G x = Some v \<longrightarrow> ram s x = v)"
  using heap.ledger_safe [OF client_ledger [OF assms]] by blast

lemma boot_client: "client boot_machine {} (\<lambda>_. None)"
  unfolding boot_machine_def by (rule client.start) (simp add: fl_ok_def aligned4_def heap_base_def heap_size_def)

lemma client_buffers_safe_witness:
  "\<exists>s. client s {(0x2007C004, 10)} [0x2007C006 \<mapsto> 42] \<and> ram s 0x2007C006 = 42"
proof -
  obtain m where m: "get_mem 10 boot_machine = Some (0x2007C004, boot_machine\<lparr>ram := m\<rparr>)"
    by (rule boot_get_mem)
  have "client (boot_machine\<lparr>ram := m\<rparr>) {(0x2007C004, 10)} (\<lambda>_. None)"
    using client.take [OF boot_client _ m] by (simp add: request_ok_def)
  then have "client (poke 0x2007C006 42 (boot_machine\<lparr>ram := m\<rparr>)) {(0x2007C004, 10)} [0x2007C006 \<mapsto> 42]"
    by (rule client.fill) (auto simp: in_buf_def)
  with client_buffers_safe [OF this] show ?thesis by auto
qed

text \<open>When the only live buffer is freed the heap is one free block again: no sequence of
  allocations and frees leaves it fragmented.\<close>

theorem free_last_buffer_coalesces:
  assumes inv: "heap_inv (ram s) (mem_free_list s) bs fs" and l: "live bs = {(unat p, l)}"
  shows "\<exists>m. free_mem p s = s\<lparr>ram := m\<rparr>
    \<and> heap_inv m (mem_free_list s) [(heap_size, False)] [heap_base]"
proof -
  have rel: "heap_rel (ram s) (mem_free_list s) bs fs" using inv by (simp add: heap_inv_def)
  have "(unat p, l) \<in> live bs" using l by simp
  then obtain c n where blk: "(c, n, True) \<in> set (layout heap_base bs)" and cn: "unat p = c + 4" "l = n - 8"
    unfolding live_def by auto
  have pc: "of_nat (c + 4) = p" unfolding cn(1) [symmetric] by simp
  obtain bs' fs' where r: "release_spec c bs fs = (bs', fs')" by (cases "release_spec c bs fs") auto
  obtain m where m: "free_mem p s = s\<lparr>ram := m\<rparr>" "heap_inv m (mem_free_list s) bs' fs'"
    using free_mem_step [OF inv blk] unfolding pc r by auto
  have "live bs' = {}" using release_spec_live [OF rel blk r] l cn by simp
  with m(2) have "bs' = [(heap_size, False)]"
    by (intro empty_heap_blocks) (auto simp: heap_inv_def heap_rel_def)
  with m show ?thesis using free_list_single by (auto simp: heap_inv_def)
qed

lemma free_last_buffer_coalesces_witness:
  "\<exists>(s :: machine) m. heap_inv (ram s) 0x10000100 [(20, True), (32748, False)] [heap_base + 20]
    \<and> free_mem 0x2007C004 s = s\<lparr>ram := m\<rparr> \<and> heap_inv m 0x10000100 [(heap_size, False)] [heap_base]"
proof -
  obtain m where m: "heap_inv m 0x10000100 [(20, True), (32748, False)] [heap_base + 20]"
    using boot_get_mem by blast
  let ?s = "boot_machine\<lparr>ram := m\<rparr>"
  have "live [(20, True), (32748, False)] = {(unat (0x2007C004 :: u32), 12)}"
    by (auto simp: live_def heap_base_def)
  from free_last_buffer_coalesces [OF _ this, of ?s] m obtain m' where
    "free_mem 0x2007C004 ?s = ?s\<lparr>ram := m'\<rparr>" "heap_inv m' 0x10000100 [(heap_size, False)] [heap_base]"
    by (auto simp: boot_machine_fields)
  with m show ?thesis
    by - (rule exI [of _ ?s], rule exI [of _ m'], simp)
qed

text \<open>C33: a request within 11 bytes of the top of the address space is not refused: its block size
  wraps around, and the caller is handed the block of an 8-byte request.\<close>

theorem get_mem_huge_request:
  assumes "2 ^ 32 - 12 < unat r"
  shows "get_mem r s = get_mem 8 s"
proof -
  have "r \<noteq> 0" using assms by auto
  moreover have "mem_convert_to_block_size 8 = 16"
    using mem_convert_to_block_size_eq(1) [of 8] by (simp add: block_size_of_def)
  ultimately show ?thesis
    by (simp add: get_mem_def convert_overflow [OF assms])
qed

lemma get_mem_huge_request_witness:
  "get_mem 0xFFFFFFFF boot_machine = get_mem 8 boot_machine"
  by (rule get_mem_huge_request) simp

text \<open>C30: on a fresh heap \<open>get_mem\<close> returns exactly for the sizes that fit, 32760 bytes being the
  largest (and for 0, answered with \<open>NULL\<close>); for every other size below the wrap-around it hangs with
  interrupts masked and never gives back \<open>NULL\<close>.\<close>

theorem get_mem_fresh_heap_capacity:
  assumes fl: "fl_ok (mem_free_list s)" and r: "unat r \<le> 2 ^ 32 - 12"
  shows "get_mem r (mem_setup s) \<noteq> None \<longleftrightarrow> unat r \<le> 32760"
proof (cases "r = 0")
  case False
  have fl': "mem_free_list (mem_setup s) = mem_free_list s" by (simp add: mem_setup_def Let_def)
  have inv: "heap_inv (ram (mem_setup s)) (mem_free_list (mem_setup s)) [(heap_size, False)] [heap_base]"
    using mem_setup_rel [OF fl] by (simp add: heap_inv_def fl')
  have "block_size_of (unat r) \<le> 32768 \<longleftrightarrow> unat r \<le> 32760"
    by (auto simp: block_size_of_def)
  then show ?thesis
    using get_mem_step [OF inv False r]
    by (auto simp: alloc_spec_def size_at_def heap_size_def split: if_splits)
qed (simp add: get_mem_def)

lemma get_mem_fresh_heap_capacity_witness:
  "get_mem 32760 boot_machine \<noteq> None \<and> get_mem 32761 boot_machine = None"
proof -
  let ?s = "\<lparr>primask = False, ram = (\<lambda>_. 0), mem_free_list = 0x10000100\<rparr> :: machine"
  have fl: "fl_ok (mem_free_list ?s)"
    by (simp add: fl_ok_def aligned4_def heap_base_def heap_size_def)
  have "get_mem 32760 (mem_setup ?s) \<noteq> None \<longleftrightarrow> unat (32760 :: u32) \<le> 32760"
    by (rule get_mem_fresh_heap_capacity [OF fl]) simp
  moreover have "get_mem 32761 (mem_setup ?s) \<noteq> None \<longleftrightarrow> unat (32761 :: u32) \<le> 32760"
    by (rule get_mem_fresh_heap_capacity [OF fl]) simp
  ultimately show ?thesis unfolding boot_machine_def by (simp del: not_None_eq)
qed

end
