(* ===== verification/Sched_Properties.thy ===== *)
theory Sched_Properties
  imports Process_Correct Heap_Properties
begin

text \<open>
  The properties of the scheduler and of the wait queues. \<open>example_sched\<close> builds the concrete
  states of the witnesses: a fresh heap, the given queues and current process, an idle process at
  \<open>0x90\<close> and a stack for every process.
\<close>

unbundle bit_operations_syntax

definition example_sched :: "(u32 \<Rightarrow> proc_state) \<Rightarrow> u32 list \<Rightarrow> u32 list \<Rightarrow> u32 \<Rightarrow> sched" where
  "example_sched st rq wq cur =
     \<lparr>primask = False, ram = ram boot_machine, mem_free_list = 0x10000100,
      procs = (\<lambda>p. \<lparr>cur_stack = 0x10002000 + 0x100 * p, stack_alloc = 0x10002000, state = st p\<rparr>),
      runqueue = rq, waitqueue = wq, deadqueue = [], current_tsk = cur, idle_tsk = 0x90,
      psp = 0x10008000, callee_regs = [4, 5, 6, 7, 8, 9, 10, 11], pendsv = False,
      addr_process_finish = 0x101, addr_idle_task = 0x201\<rparr>"

lemma example_sched_rep: "heap_rep (example_sched st rq wq cur) {}"
  using boot_machine_rep by (simp add: heap_rep_def example_sched_def boot_machine_fields)

text \<open>C4: the scheduler never corrupts its queues: from a state in which every process is on at most
  one queue, the one that its state names, waking a waiting process, putting the current process to
  sleep or ending it, and picking the next process all succeed and keep that invariant, provided a
  process is not woken before it has been switched out.\<close>

theorem scheduler_step_safe:
  assumes inv: "sched_inv s"
  shows "(\<forall>p. p \<in> set (waitqueue s) \<and> p \<noteq> current_tsk s \<longrightarrow>
            (\<exists>s'. process_wakeup p s = Some s' \<and> sched_inv s' \<and> runqueue s' = p # runqueue s))
    \<and> (linkable (current_tsk s) s \<longrightarrow>
            (\<exists>s'. process_wait s = Some s' \<and> sched_inv s' \<and> waitqueue s' = current_tsk s # waitqueue s))
    \<and> (linkable (current_tsk s) s \<longrightarrow>
            (\<exists>s'. process_finish s = Some s' \<and> sched_inv s' \<and> deadqueue s' = current_tsk s # deadqueue s))
    \<and> (\<forall>sp. sp \<noteq> 0 \<and> idle_tsk s \<noteq> 0 \<longrightarrow>
            (\<exists>r s'. pick_new_task sp s = Some (r, s') \<and> sched_inv s'))"
proof (intro conjI allI impI)
  fix p assume p: "p \<in> set (waitqueue s) \<and> p \<noteq> current_tsk s"
  then show "\<exists>s'. process_wakeup p s = Some s' \<and> sched_inv s' \<and> runqueue s' = p # runqueue s"
    using process_wakeup_eq [OF inv, of p] process_wakeup_inv [OF inv] by auto
next
  assume "linkable (current_tsk s) s"
  from process_wait_eq [OF this] process_wait_inv [OF inv this]
  show "\<exists>s'. process_wait s = Some s' \<and> sched_inv s' \<and> waitqueue s' = current_tsk s # waitqueue s" by auto
next
  assume "linkable (current_tsk s) s"
  from process_finish_eq [OF this] process_finish_inv [OF inv this]
  show "\<exists>s'. process_finish s = Some s' \<and> sched_inv s' \<and> deadqueue s' = current_tsk s # deadqueue s" by auto
next
  fix sp :: u32 assume a: "sp \<noteq> 0 \<and> idle_tsk s \<noteq> 0"
  then show "\<exists>r s'. pick_new_task sp s = Some (r, s') \<and> sched_inv s'"
    using pick_new_task_eq [OF inv, of sp] pick_new_task_inv [OF inv, of sp] by metis
qed

definition two_running :: sched where
  "two_running = example_sched (\<lambda>p. if p = 0x40 then WAITING else RUNNING) [0x20, 0x30] [0x40] 0x10"

lemma two_running_inv: "sched_inv two_running"
  by (simp add: two_running_def example_sched_def sched_inv_def queued_def)

lemma two_running_fields:
  "waitqueue two_running = [0x40]" "runqueue two_running = [0x20, 0x30]" "current_tsk two_running = 0x10"
  "idle_tsk two_running = 0x90" "deadqueue two_running = []" "linkable 0x10 two_running"
  "state (procs two_running 0x10) = RUNNING"
  by (simp_all add: two_running_def example_sched_def linkable_def queued_def)

lemma scheduler_step_safe_witness:
  "\<exists>s'. process_wakeup 0x40 two_running = Some s' \<and> sched_inv s' \<and> runqueue s' = [0x40, 0x20, 0x30]"
  using scheduler_step_safe [OF two_running_inv] by (simp add: two_running_fields)

text \<open>C29: with timer interrupts only, the running processes take turns in a fixed cycle: after \<open>k\<close>
  switches the current process followed by the run queue is the original one rotated by \<open>k\<close>.\<close>

theorem pick_new_task_round_robin:
  assumes "sched_inv s" "current_tsk s \<noteq> 0" "state (procs s (current_tsk s)) = RUNNING"
    and "idle_tsk s \<noteq> 0" "0 \<notin> set sps"
  shows "\<exists>s'. switches sps s = Some s'
    \<and> current_tsk s' # runqueue s' = rotate (length sps) (current_tsk s # runqueue s)"
  using switches_rotate [OF assms] by blast

lemma pick_new_task_round_robin_witness:
  "\<exists>s'. switches [0x100, 0x200] two_running = Some s' \<and> current_tsk s' # runqueue s' = [0x30, 0x10, 0x20]"
  using pick_new_task_round_robin [OF two_running_inv, of "[0x100, 0x200]"]
  by (simp add: two_running_fields)

text \<open>\<open>pick_new_task\<close> takes the first process of the run queue, after the current one has been
  put at its end if it is still running; so it never resumes a waiting or finished process, and the
  idle process runs exactly when no other can.\<close>

theorem pick_new_task_choice:
  assumes inv: "sched_inv s" and sp: "current_tsk s = 0 \<or> sp \<noteq> 0" and idle: "idle_tsk s \<noteq> 0"
    and pk: "pick_new_task sp s = Some (r, s')"
  shows "current_tsk s' = (if ready_queue s = [] then idle_tsk s else hd (ready_queue s))
    \<and> runqueue s' = tl (ready_queue s)
    \<and> (current_tsk s' \<noteq> idle_tsk s \<longrightarrow> state (procs s' (current_tsk s')) = RUNNING)
    \<and> r = cur_stack (procs s' (current_tsk s')) \<and> primask s' = primask s"
proof -
  obtain s1 where s1: "pick_new_task sp s = Some (cur_stack (procs s1 (if ready_queue s = [] then idle_tsk s else hd (ready_queue s))), s1)"
    "current_tsk s1 = (if ready_queue s = [] then idle_tsk s else hd (ready_queue s))"
    "runqueue s1 = tl (ready_queue s)" "waitqueue s1 = waitqueue s" "deadqueue s1 = deadqueue s"
    "primask s1 = primask s" "ram s1 = ram s" "idle_tsk s1 = idle_tsk s"
    "procs s1 = (if current_tsk s = 0 then procs s
       else (procs s)(current_tsk s := (procs s (current_tsk s))\<lparr>cur_stack := sp\<rparr>))"
    by (rule pick_new_task_eq [OF inv sp idle])
  have "state (procs s1 (hd (ready_queue s))) = RUNNING" if "ready_queue s \<noteq> []"
  proof -
    have "hd (ready_queue s) \<in> set (ready_queue s)" using that by (rule hd_in_set)
    then have "state (procs s (hd (ready_queue s))) = RUNNING"
      using sched_invD(4) [OF inv] by (auto simp: ready_queue_def split: if_splits)
    then show ?thesis using s1(9) by auto
  qed
  then show ?thesis using s1(1-3,6) pk by auto
qed

lemma pick_new_task_choice_witness:
  "\<exists>r s'. pick_new_task 0x100 two_running = Some (r, s') \<and> current_tsk s' = 0x20 \<and> runqueue s' = [0x30, 0x10]"
proof -
  obtain r s' where pk: "pick_new_task 0x100 two_running = Some (r, s')"
    by (rule pick_new_task_eq [OF two_running_inv, of "0x100"]) (simp_all add: two_running_fields)
  with pick_new_task_choice [OF two_running_inv _ _ pk] show ?thesis
    by (simp add: two_running_fields ready_queue_def)
qed

text \<open>The address of the node \<open>cur_sched_queue\<close> of a process.\<close>

definition sched_link :: "u32 \<Rightarrow> u32" where
  "sched_link p = p + 8"

text \<open>C34: a lost race. \<open>process_wait\<close> enables interrupts before it raises PendSV; when an interrupt
  handler wakes the sleeper in that window, the process is RUNNING and the first of the run queue
  while it is still current. So \<open>pick_new_task\<close> adds it to the run queue a second time (the state of the model ends
  there: \<open>None\<close>). In the RAM, wherever the list of that run queue lies, adding the node at the tail and popping
  the next one yields the same process again, and leaves a list whose head points to its node, which is
  unlinked: from there the list goes on to NULL, and all other processes are lost.\<close>

theorem wakeup_before_switch:
  assumes inv: "sched_inv s" and cur: "linkable (current_tsk s) s" and sp: "sp \<noteq> 0"
  shows "\<exists>s1 s2. process_wait s = Some s1 \<and> primask s1 = False
    \<and> process_wakeup (current_tsk s) s1 = Some s2
    \<and> current_tsk s2 = current_tsk s \<and> runqueue s2 = current_tsk s # runqueue s
    \<and> state (procs s2 (current_tsk s2)) = RUNNING \<and> pick_new_task sp s2 = None
    \<and> (\<forall>m h. dlist m h (map sched_link (runqueue s2)) \<longrightarrow> (let x = sched_link (current_tsk s2) in
         \<exists>m'. list_pop h (list_add_tail x h m) = (x, m') \<and> list_next m' h = x \<and> list_next m' x = 0))"
proof -
  obtain s1 where s1: "process_wait s = Some s1" "sched_inv s1" "current_tsk s1 = current_tsk s"
    "waitqueue s1 = current_tsk s # waitqueue s" "runqueue s1 = runqueue s" "primask s1 = False"
    using process_wait_eq [OF cur] process_wait_inv [OF inv cur] by auto
  have "current_tsk s \<in> set (waitqueue s1)" using s1(4) by simp
  from process_wakeup_eq [OF s1(2) this] obtain s2 where s2: "process_wakeup (current_tsk s) s1 = Some s2"
    "runqueue s2 = current_tsk s # runqueue s" "current_tsk s2 = current_tsk s"
    "state (procs s2 (current_tsk s)) = RUNNING"
    using s1(3,5) by auto
  have "current_tsk s \<noteq> 0" using cur by (simp add: linkable_def)
  then have "pick_new_task sp s2 = None"
    using sp s2(2-4) by (simp add: pick_new_task_def irq_defs stop_current_def run_add_tail_def
        linkable_def queued_def set_cur_stack_def)
  moreover have "\<exists>m'. list_pop h (list_add_tail x h m) = (x, m') \<and> list_next m' h = x \<and> list_next m' x = 0"
    if "dlist m h (map sched_link (runqueue s2))" "x = sched_link (current_tsk s2)" for m h x
    using linked_node_popped [of m h x] that by (simp add: s2(2,3))
  ultimately show ?thesis using s1 s2 unfolding Let_def by metis
qed

lemma wakeup_before_switch_witness:
  "\<exists>s1 s2 m m'. process_wait two_running = Some s1 \<and> process_wakeup 0x10 s1 = Some s2
    \<and> dlist m 0x1000 [0x18, 0x28, 0x38] \<and> list_pop 0x1000 (list_add_tail 0x18 0x1000 m) = (0x18, m')
    \<and> list_next m' 0x1000 = 0x18 \<and> list_next m' 0x18 = 0"
proof -
  let ?m = "list_add 0x18 0x1000 (list_add 0x28 0x1000 (list_add 0x38 0x1000 (INIT_LIST 0x1000 (\<lambda>_. 0))))"
  have a: "nodes_ok [0x38, 0x1000]" "nodes_ok [0x28, 0x1000, 0x38]" "nodes_ok [0x18, 0x1000, 0x28, 0x38]" "aligned4 0x1000"
    by (simp_all add: nodes_ok_def aligned4_def)
  have m: "dlist ?m 0x1000 [0x18, 0x28, 0x38]"
    by (rule dl.rep_add [OF dl.rep_add [OF dl.rep_add [OF dl.rep_init]]]) (use a in simp_all)
  obtain s1 s2 where s: "process_wait two_running = Some s1" "process_wakeup 0x10 s1 = Some s2"
    "runqueue s2 = [0x10, 0x20, 0x30]" "current_tsk s2 = 0x10"
    "\<forall>m h. dlist m h (map sched_link (runqueue s2)) \<longrightarrow> (let x = sched_link (current_tsk s2) in
         \<exists>m'. list_pop h (list_add_tail x h m) = (x, m') \<and> list_next m' h = x \<and> list_next m' x = 0)"
    using wakeup_before_switch [OF two_running_inv, of "0x100"] by (auto simp: two_running_fields)
  from s(5) [THEN spec, of ?m, THEN spec, of "0x1000"] m
  obtain m' where "list_pop 0x1000 (list_add_tail 0x18 0x1000 ?m) = (0x18, m')" "list_next m' 0x1000 = 0x18" "list_next m' 0x18 = 0"
    by (auto simp: s(3,4) sched_link_def)
  with m s(1,2) show ?thesis by blast
qed

text \<open>\<open>waitqueue_wakeup\<close> wakes every process on the wait queue and frees every
  \<open>waiting_proc_t\<close>: the run queue gets the sleepers in the reverse of their order on the wait queue,
  no other process moves, the wait queue is empty and the interrupt mask is as before.\<close>

theorem waitqueue_wakeup_wakes_all:
  assumes "sched_inv s" "heap_rep s L" "distinct (map snd wq)" "set (map snd wq) \<subseteq> set (waitqueue s)"
    and "current_tsk s \<notin> set (map snd wq)" "distinct (map fst wq)" "\<forall>w \<in> set (map fst wq). \<exists>l. (unat w, l) \<in> L"
  shows "\<exists>s'. waitqueue_wakeup wq s = Some ([], s') \<and> sched_inv s'
    \<and> heap_rep s' (without L (set (map fst wq)))
    \<and> runqueue s' = rev (map snd wq) @ runqueue s
    \<and> waitqueue s' = filter (\<lambda>p. p \<notin> set (map snd wq)) (waitqueue s)
    \<and> deadqueue s' = deadqueue s \<and> primask s' = primask s"
  by (rule waitqueue_wakeup_spec [OF assms]) blast


lemma one_buffer:
  obtains m where "\<And>s. mem_free_list s = 0x10000100 \<Longrightarrow> heap_rep (s\<lparr>ram := m\<rparr>) {(0x2007C004, 12)}"
proof -
  obtain m where m: "heap_inv m 0x10000100 [(20, True), (32748, False)] [heap_base + 20]"
    using boot_get_mem by blast
  have "live [(20, True), (32748, False)] = {(0x2007C004, 12)}"
    by (auto simp: live_def heap_base_def)
  with m show thesis
    by (intro that [of m]) (auto simp: heap_rep_def)
qed

lemma waitqueue_wakeup_wakes_all_witness:
  "\<exists>s s'. runqueue (s :: sched) = [0x20, 0x30] \<and> waitqueue_wakeup [(0x2007C004, 0x40)] s = Some ([], s')
    \<and> runqueue s' = [0x40, 0x20, 0x30] \<and> waitqueue s' = [] \<and> heap_rep s' {}"
proof -
  obtain m where m: "\<And>s :: sched. mem_free_list s = 0x10000100 \<Longrightarrow> heap_rep (s\<lparr>ram := m\<rparr>) {(0x2007C004, 12)}"
    using one_buffer by blast
  let ?s = "two_running\<lparr>ram := m\<rparr>"
  have rep: "heap_rep ?s {(0x2007C004, 12)}"
    by (rule m) (simp add: two_running_def example_sched_def)
  have inv: "sched_inv ?s" using two_running_inv by (simp add: sched_inv_def queued_def)
  have "without {(0x2007C004, 12)} {0x2007C004} = {}" by (auto simp: without_def)
  with waitqueue_wakeup_wakes_all [OF inv rep, of "[(0x2007C004, 0x40)]"]
  obtain s' where "waitqueue_wakeup [(0x2007C004, 0x40)] ?s = Some ([], s')" "heap_rep s' {}"
    "runqueue s' = [0x40, 0x20, 0x30]" "waitqueue s' = []"
    by (auto simp: two_running_fields)
  then show ?thesis
    by - (rule exI [of _ ?s], rule exI [of _ s'], simp add: two_running_fields)
qed

text \<open>A new process gets a stack of its own such that the first switch to it loads zeros into r4
  to r11 and leaves the hardware a frame with the entry point as \<open>pc\<close>, the argument in \<open>r0\<close>,
  \<open>process_finish\<close> as return address and only the Thumb bit in \<open>psr\<close>. Both allocations are fresh
  and no queue changes.\<close>

theorem create_process_stack:
  assumes rep: "heap_rep s L" and cp: "create_process pc r0 s = Some (p, s')"
  shows "\<exists>st lp ls. stack_alloc (procs s' p) = st \<and> cur_stack (procs s' p) = st + 0x3C0
    \<and> 20 \<le> lp \<and> 0x400 \<le> ls \<and> (\<forall>k. (unat p, k) \<notin> L) \<and> (\<forall>k. (unat st, k) \<notin> insert (unat p, lp) L)
    \<and> heap_rep s' (insert (unat st, ls) (insert (unat p, lp) L))
    \<and> pop_regs (ram s') (st + 0x3C0) 8 = replicate 8 0
    \<and> load32 (ram s') (st + 0x3E0) = r0 \<and> load32 (ram s') (st + 0x3F4) = addr_process_finish s
    \<and> load32 (ram s') (st + 0x3F8) = pc \<and> load32 (ram s') (st + 0x3FC) = 0x01000000
    \<and> queued s' = queued s \<and> current_tsk s' = current_tsk s"
proof -
  obtain st lp ls m m0 where c: "20 \<le> lp" "0x400 \<le> ls" "\<forall>k. (unat p, k) \<notin> L" "\<forall>k. (unat st, k) \<notin> insert (unat p, lp) L"
    "heap_rep s' (insert (unat st, ls) (insert (unat p, lp) L))"
    "s' = s\<lparr>ram := m, procs := (procs s)(p := (procs s p)\<lparr>stack_alloc := st, cur_stack := st + 0x3C0\<rparr>)\<rparr>"
    "m = init_stack (st + 0x3C0 + 32) (addr_process_finish s) pc r0 m0" "aligned4 st"
    by (rule create_process_spec [OF rep cp])
  have "aligned4 (st + 0x3C0)" using c(8) by (rule aligned_offset) simp
  note l = init_stack_loads [OF this c(7)]
  have "load32 m (st + 0x3E0) = r0" "load32 m (st + 0x3F4) = addr_process_finish s"
    "load32 m (st + 0x3F8) = pc" "load32 m (st + 0x3FC) = 0x01000000"
    using l(1-4) by (simp_all add: add.assoc)
  then show ?thesis
    using c(1-5) l(5) by (intro exI [of _ st] exI [of _ lp] exI [of _ ls]) (simp add: c(6) queued_def)
qed

lemma example_create:
  obtains p s' where "create_process 0x301 7 two_running = Some (p, s')"
proof -
  have inv: "heap_inv (ram two_running) (mem_free_list two_running) [(heap_size, False)] [heap_base]"
    using boot_machine_inv by (simp add: two_running_def example_sched_def boot_machine_fields)
  obtain p m where g1: "get_mem 20 two_running = Some (p, two_running\<lparr>ram := m\<rparr>)"
    "heap_inv m (mem_free_list two_running) [(28, True), (32740, False)] [heap_base + 28]"
    using get_mem_step [OF inv, of 20]
    by (auto simp: alloc_spec_def block_size_of_def size_at_def heap_size_def)
  have "\<exists>q s'. get_mem 0x400 (two_running\<lparr>ram := m\<rparr>) = Some (q, s')"
    using get_mem_step [of "two_running\<lparr>ram := m\<rparr>" "[(28, True), (32740, False)]" "[heap_base + 28]" "0x400"] g1(2)
    by (auto simp: alloc_spec_def block_size_of_def size_at_def)
  with g1(1) show thesis
    by (auto simp: create_process_def Let_def sizeof_process_t_def STACK_SZ_def intro: that)
qed

lemma two_running_rep: "heap_rep two_running {}"
  unfolding two_running_def by (rule example_sched_rep)

lemma create_process_stack_witness:
  "\<exists>p s' st. create_process 0x301 7 two_running = Some (p, s') \<and> cur_stack (procs s' p) = st + 0x3C0
    \<and> load32 (ram s') (st + 0x3E0) = 7 \<and> load32 (ram s') (st + 0x3F8) = 0x301"
proof -
  obtain p s' where cp: "create_process 0x301 7 two_running = Some (p, s')" by (rule example_create)
  from create_process_stack [OF two_running_rep cp] cp show ?thesis by blast
qed

text \<open>C28: the two allocations of a process are given back when the idle task reaps it: no process
  leaks memory, whatever happened to the rest of the system in between.\<close>

theorem process_memory_reclaimed:
  assumes rep: "heap_rep s L" and cp: "create_process pc r0 s = Some (p, s1)"
    and later: "\<forall>M. heap_rep s1 M \<longrightarrow> heap_rep s2 M" "deadqueue s2 = p # ds"
      "stack_alloc (procs s2 p) = stack_alloc (procs s1 p)"
  shows "heap_rep (idle_task_turn s2) L \<and> deadqueue (idle_task_turn s2) = ds
    \<and> runqueue (idle_task_turn s2) = runqueue s2 \<and> primask (idle_task_turn s2) = primask s2"
proof -
  obtain st lp ls m m0 where c: "\<forall>k. (unat p, k) \<notin> L" "\<forall>k. (unat st, k) \<notin> insert (unat p, lp) L"
    "heap_rep s1 (insert (unat st, ls) (insert (unat p, lp) L))"
    "s1 = s\<lparr>ram := m, procs := (procs s)(p := (procs s p)\<lparr>stack_alloc := st, cur_stack := st + 0x3C0\<rparr>)\<rparr>"
    using create_process_spec [OF rep cp] by metis
  have "stack_alloc (procs s2 p) = st" using later(3) by (simp add: c(4))
  moreover have "heap_rep s2 (insert (unat st, ls) (insert (unat p, lp) L))" using later(1) c(3) by blast
  ultimately show ?thesis
    using idle_task_turn_reaps [OF later(2) _ _ c(1,2)] later(2)
    by (simp add: idle_task_turn_def irq_defs Let_def)
qed

lemma process_memory_reclaimed_witness:
  "\<exists>p s1. create_process 0x301 7 two_running = Some (p, s1)
    \<and> heap_rep (idle_task_turn (s1\<lparr>deadqueue := [p]\<rparr>)) {}"
proof -
  obtain p s1 where cp: "create_process 0x301 7 two_running = Some (p, s1)" by (rule example_create)
  from process_memory_reclaimed [OF two_running_rep cp, of "s1\<lparr>deadqueue := [p]\<rparr>" "[]"] cp
  show ?thesis by simp
qed

text \<open>C20: a context switch loses nothing: when a process that was switched out is picked again, it
  finds its stack pointer and r4 to r11 as they were, provided the others kept off the 32 bytes
  below its stack pointer.\<close>

theorem context_switch_preserves_registers:
  assumes inv: "sched_inv s" "sched_inv s2" and a: "current_tsk s = a" "a \<noteq> 0"
    and sp: "aligned4 (psp s)" "psp s \<noteq> 0" "psp s \<noteq> 32" "length (callee_regs s) = 8"
    and idle: "idle_tsk s \<noteq> 0" "idle_tsk s2 \<noteq> 0"
    and out: "irq_pendsv s = Some s1"
    and other: "current_tsk s2 \<noteq> a" "cur_stack (procs s2 a) = cur_stack (procs s1 a)"
      "current_tsk s2 = 0 \<or> psp s2 \<noteq> 0 \<and> psp s2 \<noteq> 32" "length (callee_regs s2) = 8"
      "\<forall>x. in_range (psp s - 32) 32 x \<longrightarrow> ram s2 x = ram s1 x \<and> \<not> in_range (psp s2 - 32) 32 x"
    and resumed: "irq_pendsv s2 = Some s3" "current_tsk s3 = a"
  shows "callee_regs s3 = callee_regs s \<and> psp s3 = psp s"
proof -
  note e1 = irq_pendsv_eq [OF inv(1) _ idle(1) out] and e2 = irq_pendsv_eq [OF inv(2) other(3) idle(2) resumed(1)]
  let ?p = "psp s - 32"
  have al: "aligned4 ?p" using sp(1) aligned_offset [of "psp s" "- 32"] by simp
  have stk1: "cur_stack (procs s1 a) = ?p" and m1: "ram s1 = push_regs ?p (callee_regs s) (ram s)"
    using e1(1,5) a sp by simp_all
  have "cur_stack (procs s3 a) = cur_stack (procs s2 a)" using e2(5) other(1) by auto
  then have stk: "cur_stack (procs s3 (current_tsk s3)) = ?p" using other(2) stk1 resumed(2) by simp
  have "ram s3 x = ram s1 x" if "in_range ?p 32 x" for x
    using e2(1) other(4,5) push_regs_frame [of "callee_regs s2" "psp s2 - 32" x "ram s2"] that by auto
  from pop_regs_cong [OF this] have "pop_regs (ram s3) ?p 8 = pop_regs (ram s1) ?p 8" .
  also have "\<dots> = callee_regs s" unfolding m1 by (rule pop_push_regs [OF sp(4) al])
  finally show ?thesis using e2(1,3,4) stk by simp
qed


lemma context_switch_preserves_registers_witness:
  "\<exists>s1 s3. irq_pendsv (example_sched (\<lambda>_. RUNNING) [0x20] [] 0x10) = Some s1 \<and> current_tsk s1 = 0x20
    \<and> irq_pendsv s1 = Some s3 \<and> current_tsk s3 = 0x10
    \<and> callee_regs s3 = [4, 5, 6, 7, 8, 9, 10, 11] \<and> psp s3 = 0x10008000"
proof -
  let ?s = "example_sched (\<lambda>_. RUNNING) [0x20] [] 0x10"
  have f: "psp ?s = 0x10008000" "callee_regs ?s = [4, 5, 6, 7, 8, 9, 10, 11]" "current_tsk ?s = 0x10"
    "runqueue ?s = [0x20]" "idle_tsk ?s = 0x90" "state (procs ?s p) = RUNNING"
    "cur_stack (procs ?s p) = 0x10002000 + 0x100 * p" for p
    by (simp_all add: example_sched_def)
  have rq: "ready_queue ?s = [0x20, 0x10]" by (simp add: ready_queue_def f)
  have inv: "sched_inv ?s" by (simp add: example_sched_def sched_inv_def queued_def)
  obtain s1 where s1: "irq_pendsv ?s = Some s1"
    by (rule irq_pendsv_returns [OF inv]) (simp_all add: f)
  note e1 = irq_pendsv_eq [OF inv _ _ s1]
  have c1: "current_tsk s1 = 0x20" "sched_inv s1" "psp s1 = 0x10004020"
    "length (callee_regs s1) = 8" "cur_stack (procs s1 0x10) = 0x10007FE0" "state (procs s1 p) = RUNNING" for p
    using e1(2-6) by (simp_all add: f rq pop_regs_def)
  have r1: "runqueue s1 = [0x10]" "idle_tsk s1 = 0x90"
  proof -
    have "s1 = (the (irq_pendsv ?s))" using s1 by simp
    then show "runqueue s1 = [0x10]" "idle_tsk s1 = 0x90"
      using s1 by (simp_all add: irq_pendsv_def pick_new_task_def stop_current_def run_add_tail_def
          linkable_def queued_def set_cur_stack_def irq_defs example_sched_def Let_def)
  qed
  have rq1: "ready_queue s1 = [0x10, 0x20]" by (simp add: ready_queue_def r1 c1)
  obtain s3 where s3: "irq_pendsv s1 = Some s3"
    by (rule irq_pendsv_returns [OF c1(2)]) (simp_all add: c1 r1)
  have c3: "current_tsk s3 = 0x10"
    using irq_pendsv_eq(2) [OF c1(2) _ _ s3] by (simp add: c1 r1 rq1)
  have apart: "\<not> in_range (0x10004000 :: u32) 32 x" if "in_range (0x10007FE0 :: u32) 32 x" for x
    using that in_range_of_nat [of "0x10007FE0" 32 x] in_range_of_nat [of "0x10004000" 32 x] by simp
  have "callee_regs s3 = callee_regs ?s \<and> psp s3 = psp ?s"
  proof (rule context_switch_preserves_registers [OF inv c1(2) f(3) _ _ _ _ _ _ _ s1 _ _ _ _ _ s3 c3])
    show "\<forall>x. in_range (psp ?s - 32) 32 x \<longrightarrow> ram s1 x = ram s1 x \<and> \<not> in_range (psp s1 - 32) 32 x"
      using apart by (simp add: f c1)
  qed (simp_all add: f c1 r1 aligned4_def)
  with s1 s3 c1(1) c3 show ?thesis by (simp add: f)
qed

end
