(* ===== verification/Byteswap.thy ===== *)
theory Byteswap
  imports Prelude
begin

text \<open>
  \<open>byteswap.c\<close>: in-place reversal of the bytes of a halfword or word. \<open>swap16\<close> and \<open>swap32\<close> are
  the expressions, \<open>swap_endian16\<close> and \<open>swap_endian32\<close> the functions on a pointer. Swapping turns
  the little-endian value of a field into its network (big-endian) value.
\<close>

unbundle bit_operations_syntax

text \<open>\<open>*val << 8\<close> is an \<open>int\<close> in C; storing it back into the \<open>uint16_t\<close> keeps the low 16 bits.\<close>

definition swap16 :: "u16 \<Rightarrow> u16" where
  "swap16 v = push_bit 8 v OR drop_bit 8 v"

definition swap32 :: "u32 \<Rightarrow> u32" where
  "swap32 v = push_bit 24 v OR (push_bit 8 v AND 0x00FF0000) OR
     (drop_bit 8 v AND 0x0000FF00) OR drop_bit 24 v"

definition swap_endian16 :: "u32 \<Rightarrow> mem \<Rightarrow> mem" where
  "swap_endian16 val m = store16 val (swap16 (load16 m val)) m"

definition swap_endian32 :: "u32 \<Rightarrow> mem \<Rightarrow> mem" where
  "swap_endian32 val m = store32 val (swap32 (load32 m val)) m"

text \<open>The network-order value of two and of four bytes.\<close>

definition be16 :: "mem \<Rightarrow> u32 \<Rightarrow> u16" where
  "be16 m p = push_bit 8 (ucast (m p)) OR ucast (m (p + 1))"

definition be32 :: "mem \<Rightarrow> u32 \<Rightarrow> u32" where
  "be32 m p = push_bit 24 (ucast (m p)) OR push_bit 16 (ucast (m (p + 1)))
     OR push_bit 8 (ucast (m (p + 2))) OR ucast (m (p + 3))"

lemma swap16_swap16 [simp]: "swap16 (swap16 v) = v"
proof (rule bit_word_eqI)
  fix n assume n: "n < LENGTH(16)"
  then show "bit (swap16 (swap16 v)) n \<longleftrightarrow> bit v n"
    unfolding swap16_def by (cases "n < 8") (auto simp: bit_simps)
qed

lemma bit_mask_byte2: "bit (0x00FF0000 :: u32) n \<longleftrightarrow> 16 \<le> n \<and> n < 24"
proof -
  have "bit (0x00FF0000 :: u32) n \<longleftrightarrow> bit (push_bit 16 (mask 8) :: u32) n"
    by (simp add: mask_eq_exp_minus_1 push_bit_eq_mult)
  also have "\<dots> \<longleftrightarrow> 16 \<le> n \<and> n < 24"
    unfolding bit_push_bit_iff bit_mask_iff by (auto simp: word_size)
  finally show ?thesis .
qed

lemma bit_mask_byte1: "bit (0x0000FF00 :: u32) n \<longleftrightarrow> 8 \<le> n \<and> n < 16"
proof -
  have "bit (0x0000FF00 :: u32) n \<longleftrightarrow> bit (push_bit 8 (mask 8) :: u32) n"
    by (simp add: mask_eq_exp_minus_1 push_bit_eq_mult)
  also have "\<dots> \<longleftrightarrow> 8 \<le> n \<and> n < 16"
    unfolding bit_push_bit_iff bit_mask_iff by (auto simp: word_size)
  finally show ?thesis .
qed

text \<open>A word has no bits above its width.\<close>

lemma bit_above:
  "8 \<le> n \<Longrightarrow> \<not> bit (b :: u8) n" "16 \<le> n \<Longrightarrow> \<not> bit (h :: u16) n" "32 \<le> n \<Longrightarrow> \<not> bit (w :: u32) n"
  using bit_imp_le_length [of b n] bit_imp_le_length [of h n] bit_imp_le_length [of w n] by auto

lemma bit_swap32:
  "n < 32 \<Longrightarrow> bit (swap32 v) n \<longleftrightarrow>
     (if n < 8 then bit v (n + 24) else if n < 16 then bit v (n + 8)
      else if n < 24 then bit v (n - 8) else bit v (n - 24))"
  unfolding swap32_def bit_or_iff bit_and_iff bit_push_bit_iff bit_drop_bit_eq bit_mask_byte1 bit_mask_byte2
  by (auto simp: bit_above add.commute)

lemma swap32_swap32 [simp]: "swap32 (swap32 v) = v"
proof (rule bit_word_eqI)
  fix n assume n: "n < LENGTH(32)"
  then consider "n < 8" | "8 \<le> n \<and> n < 16" | "16 \<le> n \<and> n < 24" | "24 \<le> n" by linarith
  then show "bit (swap32 (swap32 v)) n \<longleftrightarrow> bit v n"
    using n by cases (simp_all add: bit_swap32 less_diff_conv2)
qed

lemma swap16_load16 [simp]: "swap16 (load16 m p) = be16 m p"
proof (rule bit_word_eqI)
  fix n assume n: "n < LENGTH(16)"
  then show "bit (swap16 (load16 m p)) n \<longleftrightarrow> bit (be16 m p) n"
    unfolding swap16_def load16_def be16_def by (cases "n < 8") (auto simp: bit_simps bit_above)
qed

lemma byte_cases:
  assumes "n < (32 :: nat)"
  obtains k where "k < 8" "n = k" | k where "k < 8" "n = k + 8" | k where "k < 8" "n = k + 16"
    | k where "k < 8" "n = k + 24"
proof -
  consider "n < 8" | "8 \<le> n \<and> n < 16" | "16 \<le> n \<and> n < 24" | "24 \<le> n" by linarith
  then show thesis
    using that(1) [of n] that(2) [of "n - 8"] that(3) [of "n - 16"] that(4) [of "n - 24"] assms
    by cases auto
qed

lemma swap32_load32 [simp]: "swap32 (load32 m p) = be32 m p"
proof (rule bit_word_eqI)
  fix n assume "n < LENGTH(32)"
  then have "n < 32" by simp
  then show "bit (swap32 (load32 m p)) n \<longleftrightarrow> bit (be32 m p) n"
    by (cases rule: byte_cases) (simp_all add: bit_swap32 load32_def be32_def bit_simps bit_above)
qed

lemma load16_store16_same [mem_simps, simp]: "load16 (store16 p v m) p = v"
proof (rule bit_word_eqI)
  fix n assume n: "n < LENGTH(16)"
  have "p + 1 \<noteq> p" by simp
  with n show "bit (load16 (store16 p v m) p) n \<longleftrightarrow> bit v n"
    unfolding load16_def store16_def by (cases "n < 8") (auto simp: bit_simps bit_above)
qed

text \<open>After the swap a field reads as the number that was sent; swapping twice changes nothing.\<close>

lemma load16_swap_endian16: "load16 (swap_endian16 p m) p = be16 m p"
  by (simp add: swap_endian16_def)

lemma load32_swap_endian32: "load32 (swap_endian32 p m) p = be32 m p"
  by (simp add: swap_endian32_def)

lemma store16_load16: "store16 p (load16 m p) m = m"
proof -
  have "(ucast (load16 m p) :: u8) = m p" "(ucast (drop_bit 8 (load16 m p)) :: u8) = m (p + 1)"
    by (rule bit_word_eqI; simp add: load16_def bit_simps bit_above)+
  then show ?thesis by (auto simp: store16_def)
qed

lemma store32_load32: "store32 p (load32 m p) m = m"
proof -
  have "(ucast (load32 m p) :: u8) = m p" "(ucast (drop_bit 8 (load32 m p)) :: u8) = m (p + 1)"
    "(ucast (drop_bit 16 (load32 m p)) :: u8) = m (p + 2)" "(ucast (drop_bit 24 (load32 m p)) :: u8) = m (p + 3)"
    by (rule bit_word_eqI; simp add: load32_def bit_simps bit_above)+
  then show ?thesis by (auto simp: store32_def)
qed

lemma store16_twice [simp]: "store16 p v (store16 p w m) = store16 p v m"
  by (auto simp: store16_def fun_upd_def)

text \<open>Swapping the bytes of a field twice leaves the memory as it was, and once makes it read as
  the network-order value.\<close>

theorem swap_endian_roundtrip:
  "swap_endian16 p (swap_endian16 p m) = m \<and> swap_endian32 p (swap_endian32 p m) = m
    \<and> load16 (swap_endian16 p m) p = be16 m p \<and> load32 (swap_endian32 p m) p = be32 m p"
proof -
  have twice: "store32 p v (store32 p w m) = store32 p v m" for v w
    by (auto simp: store32_def fun_upd_def)
  have "store16 p (swap16 (be16 m p)) m = m" "store32 p (swap32 (be32 m p)) m = m"
    using store16_load16 [of p m] store32_load32 [of p m]
    by (simp_all flip: swap16_load16 swap32_load32)
  then show ?thesis by (simp add: swap_endian16_def swap_endian32_def twice)
qed

end
