(* ===== verification/Codec.thy ===== *)
theory Codec
  imports Byteswap
begin

text \<open>
  The packed protocol headers as records, with the bytes that represent them in memory on the
  little-endian machine. A header in a packet buffer is read with \<open>decode\<close> and written with
  \<open>encode\<close>; the swap functions of the protocol files work on the records. Decoding an encoded
  header gives it back, and a decoded and swapped field is the network-order number.
\<close>

unbundle bit_operations_syntax

subsection \<open>Halfwords and words as bytes\<close>

definition le16 :: "u16 \<Rightarrow> u8 list" where
  "le16 v = [ucast v, ucast (drop_bit 8 v)]"

definition le32 :: "u32 \<Rightarrow> u8 list" where
  "le32 v = [ucast v, ucast (drop_bit 8 v), ucast (drop_bit 16 v), ucast (drop_bit 24 v)]"

definition of_le16 :: "u8 \<Rightarrow> u8 \<Rightarrow> u16" where
  "of_le16 a b = ucast a OR push_bit 8 (ucast b)"

definition of_le32 :: "u8 \<Rightarrow> u8 \<Rightarrow> u8 \<Rightarrow> u8 \<Rightarrow> u32" where
  "of_le32 a b c d = ucast a OR push_bit 8 (ucast b) OR push_bit 16 (ucast c) OR push_bit 24 (ucast d)"

definition of_be16 :: "u8 \<Rightarrow> u8 \<Rightarrow> u16" where
  "of_be16 a b = of_le16 b a"

definition of_be32 :: "u8 \<Rightarrow> u8 \<Rightarrow> u8 \<Rightarrow> u8 \<Rightarrow> u32" where
  "of_be32 a b c d = of_le32 d c b a"

definition be16_bytes :: "u16 \<Rightarrow> u8 list" where
  "be16_bytes v = rev (le16 v)"

definition be32_bytes :: "u32 \<Rightarrow> u8 list" where
  "be32_bytes v = rev (le32 v)"

lemma length_le [simp]: "length (le16 v) = 2" "length (le32 w) = 4"
  "length (be16_bytes v) = 2" "length (be32_bytes w) = 4"
  by (simp_all add: le16_def le32_def be16_bytes_def be32_bytes_def)

lemma of_le16_le16 [simp]: "of_le16 (ucast v) (ucast (drop_bit 8 v)) = v"
proof (rule bit_word_eqI)
  fix n assume "n < LENGTH(16)"
  then show "bit (of_le16 (ucast v) (ucast (drop_bit 8 v))) n \<longleftrightarrow> bit v n"
    unfolding of_le16_def by (cases "n < 8") (auto simp: bit_simps bit_above)
qed

lemma of_le32_le32 [simp]:
  "of_le32 (ucast v) (ucast (drop_bit 8 v)) (ucast (drop_bit 16 v)) (ucast (drop_bit 24 v)) = v"
proof (rule bit_word_eqI)
  fix n assume "n < LENGTH(32)"
  then have "n < 32" by simp
  then show "bit (of_le32 (ucast v) (ucast (drop_bit 8 v)) (ucast (drop_bit 16 v)) (ucast (drop_bit 24 v))) n \<longleftrightarrow> bit v n"
    by (cases rule: byte_cases) (simp_all add: of_le32_def bit_simps bit_above add.commute)
qed

lemma le16_of_le16 [simp]: "le16 (of_le16 a b) = [a, b]"
  unfolding le16_def of_le16_def
  by (simp; intro conjI; (rule bit_word_eqI, simp add: bit_simps bit_above))

lemma le32_of_le32 [simp]: "le32 (of_le32 a b c d) = [a, b, c, d]"
  unfolding le32_def of_le32_def
  by (simp; intro conjI; (rule bit_word_eqI, simp add: bit_simps bit_above))

lemma swap16_of_le16 [simp]: "swap16 (of_le16 a b) = of_be16 a b"
proof (rule bit_word_eqI)
  fix n assume n: "n < LENGTH(16)"
  then show "bit (swap16 (of_le16 a b)) n \<longleftrightarrow> bit (of_be16 a b) n"
    unfolding swap16_def of_be16_def of_le16_def by (cases "n < 8") (auto simp: bit_simps bit_above)
qed

lemma swap32_of_le32 [simp]: "swap32 (of_le32 a b c d) = of_be32 a b c d"
proof (rule bit_word_eqI)
  fix n assume "n < LENGTH(32)"
  then have "n < 32" by simp
  then show "bit (swap32 (of_le32 a b c d)) n \<longleftrightarrow> bit (of_be32 a b c d) n"
    by (cases rule: byte_cases) (simp_all add: bit_swap32 of_be32_def of_le32_def bit_simps bit_above)
qed

lemma le16_swap16 [simp]: "le16 (swap16 v) = be16_bytes v"
proof -
  have "swap16 v = of_be16 (ucast v) (ucast (drop_bit 8 v))"
    by (subst (1) of_le16_le16 [of v, symmetric]) (rule swap16_of_le16)
  then show ?thesis by (simp add: of_be16_def be16_bytes_def) (simp add: le16_def)
qed

lemma le32_swap32 [simp]: "le32 (swap32 v) = be32_bytes v"
proof -
  have "swap32 v = of_be32 (ucast v) (ucast (drop_bit 8 v)) (ucast (drop_bit 16 v)) (ucast (drop_bit 24 v))"
    by (subst (1) of_le32_le32 [of v, symmetric]) (rule swap32_of_le32)
  then show ?thesis by (simp add: of_be32_def be32_bytes_def) (simp add: le32_def)
qed

subsection \<open>ethernet_header\<close>

record ethernet_header =
  ether_dhost :: "u8 list"
  ether_shost :: "u8 list"
  ether_type :: u16

definition encode_ethernet :: "ethernet_header \<Rightarrow> u8 list" where
  "encode_ethernet h = ether_dhost h @ ether_shost h @ le16 (ether_type h)"

definition decode_ethernet :: "u8 list \<Rightarrow> ethernet_header" where
  "decode_ethernet b = \<lparr>ether_dhost = take 6 b, ether_shost = take 6 (drop 6 b),
     ether_type = of_le16 (b ! 12) (b ! 13)\<rparr>"

subsection \<open>ip4_header\<close>

text \<open>The two 4-bit fields of the first byte: \<open>ihl\<close> is the low half.\<close>

record ip4_header =
  ihl :: "4 word"
  ip4_version :: "4 word"
  ip4_reserved_0 :: u8
  tot_length :: u16
  identification :: u16
  ip4_reserved_1 :: u16
  ttl :: u8
  ip4_protocol :: u8
  header_checksum :: u16
  ip4_src :: u32
  ip4_dst :: u32

definition encode_ip4 :: "ip4_header \<Rightarrow> u8 list" where
  "encode_ip4 h = [ucast (ihl h) OR push_bit 4 (ucast (ip4_version h)), ip4_reserved_0 h]
     @ le16 (tot_length h) @ le16 (identification h) @ le16 (ip4_reserved_1 h)
     @ [ttl h, ip4_protocol h] @ le16 (header_checksum h) @ le32 (ip4_src h) @ le32 (ip4_dst h)"

definition decode_ip4 :: "u8 list \<Rightarrow> ip4_header" where
  "decode_ip4 b = \<lparr>ihl = ucast (b ! 0), ip4_version = ucast (drop_bit 4 (b ! 0)), ip4_reserved_0 = b ! 1,
     tot_length = of_le16 (b ! 2) (b ! 3), identification = of_le16 (b ! 4) (b ! 5),
     ip4_reserved_1 = of_le16 (b ! 6) (b ! 7), ttl = b ! 8, ip4_protocol = b ! 9,
     header_checksum = of_le16 (b ! 10) (b ! 11),
     ip4_src = of_le32 (b ! 12) (b ! 13) (b ! 14) (b ! 15),
     ip4_dst = of_le32 (b ! 16) (b ! 17) (b ! 18) (b ! 19)\<rparr>"

subsection \<open>arp_packet\<close>

record arp_packet =
  HTYPE :: u16
  PTYPE :: u16
  HLEN :: u8
  PLEN :: u8
  OPER :: u16
  SHA :: "u8 list"
  SPA :: u32
  THA :: "u8 list"
  TPA :: u32

definition encode_arp :: "arp_packet \<Rightarrow> u8 list" where
  "encode_arp p = le16 (HTYPE p) @ le16 (PTYPE p) @ [HLEN p, PLEN p] @ le16 (OPER p)
     @ SHA p @ le32 (SPA p) @ THA p @ le32 (TPA p)"

definition decode_arp :: "u8 list \<Rightarrow> arp_packet" where
  "decode_arp b = \<lparr>HTYPE = of_le16 (b ! 0) (b ! 1), PTYPE = of_le16 (b ! 2) (b ! 3),
     HLEN = b ! 4, PLEN = b ! 5, OPER = of_le16 (b ! 6) (b ! 7), SHA = take 6 (drop 8 b),
     SPA = of_le32 (b ! 14) (b ! 15) (b ! 16) (b ! 17), THA = take 6 (drop 18 b),
     TPA = of_le32 (b ! 24) (b ! 25) (b ! 26) (b ! 27)\<rparr>"

subsection \<open>udp_header\<close>

record udp_header =
  udp_src_port :: u16
  udp_dst_port :: u16
  udp_length :: u16
  udp_checksum :: u16

definition encode_udp :: "udp_header \<Rightarrow> u8 list" where
  "encode_udp h = le16 (udp_src_port h) @ le16 (udp_dst_port h) @ le16 (udp_length h) @ le16 (udp_checksum h)"

definition decode_udp :: "u8 list \<Rightarrow> udp_header" where
  "decode_udp b = \<lparr>udp_src_port = of_le16 (b ! 0) (b ! 1), udp_dst_port = of_le16 (b ! 2) (b ! 3),
     udp_length = of_le16 (b ! 4) (b ! 5), udp_checksum = of_le16 (b ! 6) (b ! 7)\<rparr>"

subsection \<open>tcp_header and the pseudo header\<close>

record tcp_header =
  source_port :: u16
  dest_port :: u16
  seq_n :: u32
  ack_n :: u32
  tcp_reserved_0 :: "4 word"
  data_offset :: "4 word"
  fin :: bool
  syn :: bool
  rst :: bool
  psh :: bool
  ack :: bool
  urg :: bool
  ece :: bool
  cwr :: bool
  window_sz :: u16
  tcp_checksum :: u16
  urg_ptr :: u16

definition tcp_flags :: "tcp_header \<Rightarrow> u8" where
  "tcp_flags h = of_bool (fin h) OR push_bit 1 (of_bool (syn h)) OR push_bit 2 (of_bool (rst h))
     OR push_bit 3 (of_bool (psh h)) OR push_bit 4 (of_bool (ack h)) OR push_bit 5 (of_bool (urg h))
     OR push_bit 6 (of_bool (ece h)) OR push_bit 7 (of_bool (cwr h))"

definition encode_tcp :: "tcp_header \<Rightarrow> u8 list" where
  "encode_tcp h = le16 (source_port h) @ le16 (dest_port h) @ le32 (seq_n h) @ le32 (ack_n h)
     @ [ucast (tcp_reserved_0 h) OR push_bit 4 (ucast (data_offset h)), tcp_flags h]
     @ le16 (window_sz h) @ le16 (tcp_checksum h) @ le16 (urg_ptr h)"

definition decode_tcp :: "u8 list \<Rightarrow> tcp_header" where
  "decode_tcp b = \<lparr>source_port = of_le16 (b ! 0) (b ! 1), dest_port = of_le16 (b ! 2) (b ! 3),
     seq_n = of_le32 (b ! 4) (b ! 5) (b ! 6) (b ! 7), ack_n = of_le32 (b ! 8) (b ! 9) (b ! 10) (b ! 11),
     tcp_reserved_0 = ucast (b ! 12), data_offset = ucast (drop_bit 4 (b ! 12)),
     fin = bit (b ! 13) 0, syn = bit (b ! 13) 1, rst = bit (b ! 13) 2, psh = bit (b ! 13) 3,
     ack = bit (b ! 13) 4, urg = bit (b ! 13) 5, ece = bit (b ! 13) 6, cwr = bit (b ! 13) 7,
     window_sz = of_le16 (b ! 14) (b ! 15), tcp_checksum = of_le16 (b ! 16) (b ! 17),
     urg_ptr = of_le16 (b ! 18) (b ! 19)\<rparr>"

record tcp_pseudo =
  ps_src :: u32
  ps_dst :: u32
  ps_reserved_0 :: u8
  ps_proto :: u8
  ps_length :: u16

definition encode_pseudo :: "tcp_pseudo \<Rightarrow> u8 list" where
  "encode_pseudo h = le32 (ps_src h) @ le32 (ps_dst h) @ [ps_reserved_0 h, ps_proto h] @ le16 (ps_length h)"

subsection \<open>Round trips\<close>

lemma nibbles:
  fixes a b :: "4 word"
  shows "(ucast (ucast a OR push_bit 4 (ucast b) :: u8) :: 4 word) = a"
    and "(ucast (drop_bit 4 (ucast a) OR drop_bit 4 (push_bit 4 (ucast b)) :: u8) :: 4 word) = b"
proof -
  have a: "\<not> bit a n" if "4 \<le> n" for n using bit_imp_le_length [of a n] that by auto
  have b: "n < 4" if "bit b n" for n using bit_imp_le_length [of b n] that by simp
  show "(ucast (ucast a OR push_bit 4 (ucast b) :: u8) :: 4 word) = a"
    by (rule bit_word_eqI) (auto simp: bit_simps)
  show "(ucast (drop_bit 4 (ucast a) OR drop_bit 4 (push_bit 4 (ucast b)) :: u8) :: 4 word) = b"
    by (rule bit_word_eqI) (auto simp: bit_simps a dest: b)
qed

lemma length_encode [simp]:
  "length (encode_ip4 h) = 20" "length (encode_udp u) = 8" "length (encode_tcp t) = 20"
  "length (encode_pseudo p) = 12"
  by (simp_all add: encode_ip4_def encode_udp_def encode_tcp_def encode_pseudo_def)

lemma decode_encode_ip4 [simp]: "decode_ip4 (encode_ip4 h) = h"
  by (simp add: decode_ip4_def encode_ip4_def le16_def le32_def nibbles)

lemma decode_encode_udp [simp]: "decode_udp (encode_udp h) = h"
  by (simp add: decode_udp_def encode_udp_def le16_def)

lemma tcp_flags_bits:
  "bit (tcp_flags h) 0 = fin h" "bit (tcp_flags h) 1 = syn h" "bit (tcp_flags h) 2 = rst h"
  "bit (tcp_flags h) 3 = psh h" "bit (tcp_flags h) 4 = ack h" "bit (tcp_flags h) 5 = urg h"
  "bit (tcp_flags h) 6 = ece h" "bit (tcp_flags h) 7 = cwr h"
  by (simp_all add: tcp_flags_def bit_simps)

lemma tcp_flags_bit1: "bit (tcp_flags h) (Suc 0) = syn h"
  using tcp_flags_bits(2) [of h] by simp

lemma decode_encode_tcp [simp]: "decode_tcp (encode_tcp h) = h"
  by (simp add: decode_tcp_def encode_tcp_def le16_def le32_def nibbles tcp_flags_bits tcp_flags_bit1)

lemma decode_encode_ethernet:
  "length (ether_dhost h) = 6 \<Longrightarrow> length (ether_shost h) = 6 \<Longrightarrow> decode_ethernet (encode_ethernet h) = h"
  by (simp add: decode_ethernet_def encode_ethernet_def le16_def nth_append)

lemma decode_encode_arp:
  "length (SHA p) = 6 \<Longrightarrow> length (THA p) = 6 \<Longrightarrow> decode_arp (encode_arp p) = p"
  by (simp add: decode_arp_def encode_arp_def le16_def le32_def nth_append)

subsection \<open>Swapping in memory\<close>

lemma load16_le: "load16 m p = of_le16 (m p) (m (p + 1))"
  by (simp add: load16_def of_le16_def)

lemma load32_le: "load32 m p = of_le32 (m p) (m (p + 1)) (m (p + 2)) (m (p + 3))"
  by (simp add: load32_def of_le32_def)

lemma store16_le: "store16 p (of_le16 a b) m = m(p := a, p + 1 := b)"
  using le16_of_le16 [of a b] by (simp add: store16_def le16_def)

lemma store32_le: "store32 p (of_le32 a b c d) m = m(p := a, p + 1 := b, p + 2 := c, p + 3 := d)"
  using le32_of_le32 [of a b c d] by (simp add: store32_def le32_def)

lemma store16_bytes: "store16 p v m = write_bytes p (le16 v) m"
  by (simp add: store16_def le16_def)

lemma store32_bytes: "store32 p v m = write_bytes p (le32 v) m"
  by (simp add: store32_def le32_def add.assoc)

lemma swap_endian16_upd: "swap_endian16 p m = m(p := m (p + 1), p + 1 := m p)"
proof -
  have "swap16 (load16 m p) = of_le16 (m (p + 1)) (m p)"
    by (simp only: load16_le swap16_of_le16 of_be16_def)
  then show ?thesis by (simp only: swap_endian16_def store16_le)
qed

lemma swap_endian32_upd:
  "swap_endian32 p m = m(p := m (p + 3), p + 1 := m (p + 2), p + 2 := m (p + 1), p + 3 := m p)"
proof -
  have "swap32 (load32 m p) = of_le32 (m (p + 3)) (m (p + 2)) (m (p + 1)) (m p)"
    by (simp only: load32_le swap32_of_le32 of_be32_def)
  then show ?thesis by (simp only: swap_endian32_def store32_le)
qed

lemma be16_le: "be16 m p = of_le16 (m (p + 1)) (m p)"
  by (simp only: swap16_load16 [symmetric] load16_le swap16_of_le16 of_be16_def)

lemma be32_le: "be32 m p = of_le32 (m (p + 3)) (m (p + 2)) (m (p + 1)) (m p)"
  by (simp only: swap32_load32 [symmetric] load32_le swap32_of_le32 of_be32_def)

lemmas bytes_simps = swap_endian16_upd swap_endian32_upd be16_le be32_le load16_le load32_le

text \<open>A memory is determined by the bytes in a range and by agreeing with another outside of it.\<close>

lemma write_bytes_eqI:
  assumes "length bs \<le> 2 ^ 32" "read_bytes m' p (length bs) = bs" "\<And>x. \<not> in_range p (length bs) x \<Longrightarrow> m' x = m x"
  shows "m' = write_bytes p bs m"
proof
  fix x
  show "m' x = write_bytes p bs m x"
  proof (cases "in_range p (length bs) x")
    case True
    then have i: "unat (x - p) < length bs" and x: "x = p + of_nat (unat (x - p))" by (simp_all add: in_range_def)
    have "m' (p + of_nat (unat (x - p))) = bs ! unat (x - p)"
      using read_bytes_nth [OF i, of m' p] assms(2) by simp
    then show ?thesis using write_bytes_nth [OF assms(1) i, of p m] x by simp
  next
    case False
    then show ?thesis using assms(3) write_bytes_frame [OF assms(1) False] by simp
  qed
qed

text \<open>Bytes written at the start of a zeroed buffer.\<close>

lemma read_after_memset:
  assumes k: "length bs \<le> k" "k \<le> 2 ^ 32"
  shows "read_bytes (write_bytes p bs (memset p 0 k m)) p k = bs @ replicate (k - length bs) 0"
proof (rule nth_equalityI)
  fix i assume "i < length (read_bytes (write_bytes p bs (memset p 0 k m)) p k)"
  then have i: "i < k" by simp
  have b: "length bs \<le> 2 ^ 32" using k by simp
  have r: "in_range p j (p + of_nat i) \<longleftrightarrow> i < j" for j using i k(2) by (simp add: in_range_def)
  show "read_bytes (write_bytes p bs (memset p 0 k m)) p k ! i = (bs @ replicate (k - length bs) 0) ! i"
  proof (cases "i < length bs")
    case True
    then show ?thesis using i write_bytes_nth [OF b True] by (simp add: read_bytes_nth nth_append)
  next
    case False
    then show ?thesis using i k r write_bytes_frame [OF b, of p "p + of_nat i"] memset_byte [OF k(2), of p "p + of_nat i"]
      by (simp add: read_bytes_nth nth_append)
  qed
qed (use k in simp)

subsection \<open>Stores into a known run of bytes\<close>

text \<open>Reads, writes and swaps at constant offsets of a run of bytes are list operations.\<close>

lemma write_bytes_read: "n \<le> 2 ^ 32 \<Longrightarrow> write_bytes p (read_bytes m p n) m = m"
  by (rule write_bytes_eqI [symmetric]) simp_all

lemma write_bytes_upd:
  assumes "length bs \<le> 2 ^ 32" "i < length bs"
  shows "(write_bytes p bs m)(p + of_nat i := v) = write_bytes p (bs[i := v]) m"
proof (rule write_bytes_eqI [of "bs[i := v]", unfolded length_list_update])
  show "length bs \<le> 2 ^ 32" using assms by simp
  show "read_bytes ((write_bytes p bs m)(p + of_nat i := v)) p (length bs) = bs[i := v]"
  proof (rule nth_equalityI)
    fix j assume "j < length (read_bytes ((write_bytes p bs m)(p + of_nat i := v)) p (length bs))"
    then have j: "j < length bs" by simp
    have "p + of_nat j = p + of_nat i \<longleftrightarrow> j = i" by (rule offset_eq) (use assms j in auto)
    then show "read_bytes ((write_bytes p bs m)(p + of_nat i := v)) p (length bs) ! j = bs[i := v] ! j"
      using j assms write_bytes_nth [OF assms(1) j, of p m] by (simp add: read_bytes_nth nth_list_update)
  qed simp
  fix x assume x: "\<not> in_range p (length bs) x"
  have "x \<noteq> p + of_nat i"
  proof
    assume "x = p + of_nat i"
    then have "unat (x - p) = i" using assms by simp
    then show False using x assms(2) by (simp add: in_range_def)
  qed
  then show "((write_bytes p bs m)(p + of_nat i := v)) x = m x"
    using write_bytes_frame [OF assms(1) x] by simp
qed

lemma write_bytes_upd_numeral:
  "length bs \<le> 2 ^ 32 \<Longrightarrow> 0 < length bs \<Longrightarrow> (write_bytes p bs m)(p := v) = write_bytes p (bs[0 := v]) m"
  "length bs \<le> 2 ^ 32 \<Longrightarrow> 1 < length bs \<Longrightarrow> (write_bytes p bs m)(p + 1 := v) = write_bytes p (bs[1 := v]) m"
  "length bs \<le> 2 ^ 32 \<Longrightarrow> numeral k < length bs \<Longrightarrow>
     (write_bytes p bs m)(p + numeral k := v) = write_bytes p (bs[numeral k := v]) m"
  using write_bytes_upd [of bs 0 p m v] write_bytes_upd [of bs 1 p m v] write_bytes_upd [of bs "numeral k" p m v]
  by simp_all

lemma write_bytes_nth_numeral:
  "length bs \<le> 2 ^ 32 \<Longrightarrow> 0 < length bs \<Longrightarrow> write_bytes p bs m p = bs ! 0"
  "length bs \<le> 2 ^ 32 \<Longrightarrow> 1 < length bs \<Longrightarrow> write_bytes p bs m (p + 1) = bs ! 1"
  "length bs \<le> 2 ^ 32 \<Longrightarrow> numeral k < length bs \<Longrightarrow> write_bytes p bs m (p + numeral k) = bs ! numeral k"
  using write_bytes_nth [of bs 0 p m] write_bytes_nth [of bs 1 p m] write_bytes_nth [of bs "numeral k" p m]
  by simp_all

lemmas patch_simps = write_bytes_upd_numeral write_bytes_nth_numeral bytes_simps

end
