(* ===== verification/Cbuf.thy ===== *)
theory Cbuf
  imports Heap_Properties
begin

text \<open>
  The circular byte buffer of \<open>cbuf.c\<close>, on the RAM. \<open>cb_rep cb m q\<close> says that the buffer \<open>cb\<close>
  holds the bytes \<open>q\<close>, oldest first, in the memory \<open>m\<close>; push appends and pop removes, each all or
  nothing. The locale \<open>byte_fifo\<close> is the contract the TCP receive path relies on.
\<close>

unbundle bit_operations_syntax

subsection \<open>cbuf.c\<close>

record circular_buf =
  buffer :: u32
  head :: u32
  tail :: u32
  buf_sz :: u32
  free_space :: u32

definition circular_buf_init :: "u32 \<Rightarrow> circular_buf \<Rightarrow> 'a machine_scheme \<Rightarrow> (circular_buf \<times> 'a machine_scheme) option" where
  "circular_buf_init capacity cbuf s =
     do {
       let cbuf = cbuf\<lparr>free_space := capacity, buf_sz := capacity\<rparr>;
       (p, s) \<leftarrow> get_mem capacity s;
       Some (cbuf\<lparr>buffer := p, head := p, tail := p\<rparr>, s)
     }"

definition circular_buf_free :: "circular_buf \<Rightarrow> 'a machine_scheme \<Rightarrow> circular_buf \<times> 'a machine_scheme" where
  "circular_buf_free cbuf s =
     (let s = free_mem (buffer cbuf) s
      in (cbuf\<lparr>buffer := 0, tail := 0, head := 0, buf_sz := 0\<rparr>, s))"

definition circular_buf_cur_capacity :: "circular_buf \<Rightarrow> u32" where
  "circular_buf_cur_capacity cbuf = free_space cbuf"

definition circular_buf_cur_usage :: "circular_buf \<Rightarrow> u32" where
  "circular_buf_cur_usage cbuf = buf_sz cbuf - free_space cbuf"

text \<open>\<open>head++\<close> and \<open>tail++\<close> with the wrap at the end of the buffer.\<close>

definition advance :: "circular_buf \<Rightarrow> u32 \<Rightarrow> u32" where
  "advance cbuf p = (if p + 1 = buffer cbuf + buf_sz cbuf then buffer cbuf else p + 1)"

text \<open>The copy loops: \<open>n\<close> bytes to go, the next one at \<open>data\<close> (\<open>dst\<close>).\<close>

fun push_loop :: "nat \<Rightarrow> u32 \<Rightarrow> circular_buf \<Rightarrow> mem \<Rightarrow> circular_buf \<times> mem" where
  "push_loop 0 data cbuf m = (cbuf, m)"
| "push_loop (Suc n) data cbuf m =
     (let m = m(head cbuf := m data);
          cbuf = cbuf\<lparr>head := advance cbuf (head cbuf)\<rparr>
      in push_loop n (data + 1) cbuf m)"

definition circular_buf_push :: "u32 \<Rightarrow> u32 \<Rightarrow> circular_buf \<Rightarrow> mem \<Rightarrow> circular_buf \<times> mem" where
  "circular_buf_push data len cbuf m =
     (if len > free_space cbuf then (cbuf, m)
      else (let (cbuf, m) = push_loop (unat len) data cbuf m
            in (cbuf\<lparr>free_space := free_space cbuf - len\<rparr>, m)))"

fun pop_loop :: "nat \<Rightarrow> u32 \<Rightarrow> circular_buf \<Rightarrow> mem \<Rightarrow> circular_buf \<times> mem" where
  "pop_loop 0 dst cbuf m = (cbuf, m)"
| "pop_loop (Suc n) dst cbuf m =
     (let m = m(dst := m (tail cbuf));
          cbuf = cbuf\<lparr>tail := advance cbuf (tail cbuf)\<rparr>
      in pop_loop n (dst + 1) cbuf m)"

definition circular_buf_pop :: "u32 \<Rightarrow> u32 \<Rightarrow> circular_buf \<Rightarrow> mem \<Rightarrow> circular_buf \<times> mem" where
  "circular_buf_pop dst len cbuf m =
     (if len > buf_sz cbuf - free_space cbuf then (cbuf, m)
      else (let (cbuf, m) = pop_loop (unat len) dst cbuf m
            in (cbuf\<lparr>free_space := free_space cbuf + len\<rparr>, m)))"

subsection \<open>The bytes in a buffer\<close>

text \<open>The buffer area is \<open>n\<close> bytes long and does not touch the end of the address space.\<close>

definition area_ok :: "circular_buf \<Rightarrow> bool" where
  "area_ok cb \<longleftrightarrow> 0 < unat (buf_sz cb) \<and> unat (buffer cb) + unat (buf_sz cb) < 2 ^ 32"

definition in_area :: "circular_buf \<Rightarrow> u32 \<Rightarrow> bool" where
  "in_area cb x \<longleftrightarrow> in_range (buffer cb) (unat (buf_sz cb)) x"

text \<open>The address of the \<open>i\<close>-th cell, counted round the ring.\<close>

definition cell :: "circular_buf \<Rightarrow> nat \<Rightarrow> u32" where
  "cell cb i = buffer cb + of_nat (i mod unat (buf_sz cb))"

definition ring :: "circular_buf \<Rightarrow> mem \<Rightarrow> u8 list \<Rightarrow> bool" where
  "ring cb m q \<longleftrightarrow> area_ok cb \<and> length q \<le> unat (buf_sz cb) \<and>
     (\<exists>k < unat (buf_sz cb). tail cb = cell cb k \<and> head cb = cell cb (k + length q)
        \<and> (\<forall>i < length q. m (cell cb (k + i)) = q ! i))"

definition cb_rep :: "circular_buf \<Rightarrow> mem \<Rightarrow> u8 list \<Rightarrow> bool" where
  "cb_rep cb m q \<longleftrightarrow> ring cb m q \<and> unat (free_space cb) = unat (buf_sz cb) - length q"

lemma word_of_nat_unat_id: "(of_nat (unat w) :: u32) = w"
  by simp

lemma cell_eq:
  assumes "area_ok cb"
  shows "cell cb i = cell cb j \<longleftrightarrow> i mod unat (buf_sz cb) = j mod unat (buf_sz cb)"
proof -
  let ?n = "unat (buf_sz cb)"
  have n: "0 < ?n" "?n < 2 ^ 32" using assms by (auto simp: area_ok_def)
  have "i mod ?n < 2 ^ 32" "j mod ?n < 2 ^ 32"
    using n by (auto intro: order_less_trans [OF mod_less_divisor])
  then have "(of_nat (i mod ?n) :: u32) = of_nat (j mod ?n) \<longleftrightarrow> i mod ?n = j mod ?n"
    by (rule of_nat_eq_u32)
  then show ?thesis by (simp add: cell_def)
qed

lemma cell_upd [simp]: "cell (cb\<lparr>head := h\<rparr>) i = cell cb i" "cell (cb\<lparr>tail := h\<rparr>) i = cell cb i"
  by (simp_all add: cell_def)

lemma cell_in_area:
  assumes "area_ok cb"
  shows "in_area cb (cell cb i)"
proof -
  let ?n = "unat (buf_sz cb)"
  have "0 < ?n" "?n < 2 ^ 32" using assms by (auto simp: area_ok_def)
  then have "i mod ?n < ?n" "i mod ?n < 2 ^ 32" by (auto intro: order_less_trans [OF mod_less_divisor])
  then show ?thesis by (simp add: in_area_def cell_def in_range_def)
qed

lemma advance_cell:
  assumes "area_ok cb"
  shows "advance cb (cell cb i) = cell cb (Suc i)"
proof -
  let ?n = "unat (buf_sz cb)" and ?k = "i mod unat (buf_sz cb)"
  have n: "0 < ?n" "?n < 2 ^ 32" "?k < ?n" using assms by (auto simp: area_ok_def)
  have c1: "cell cb i + 1 = buffer cb + of_nat (Suc ?k)" by (simp add: cell_def)
  have "(of_nat (Suc ?k) :: u32) = of_nat ?n \<longleftrightarrow> Suc ?k = ?n"
    by (rule of_nat_eq_u32) (use n in auto)
  then have eq: "buffer cb + of_nat (Suc ?k) = buffer cb + buf_sz cb \<longleftrightarrow> Suc ?k = ?n"
    by (simp only: add_left_cancel word_of_nat_unat_id)
  have md: "Suc i mod ?n = (if Suc ?k = ?n then 0 else Suc ?k)"
    by (rule mod_Suc)
  show ?thesis
    unfolding advance_def c1 eq cell_def [of cb "Suc i"] md by simp
qed

lemma mod_offset_distinct:
  assumes "i < l" "l < (n :: nat)"
  shows "(k + i) mod n \<noteq> (k + l) mod n"
proof
  assume "(k + i) mod n = (k + l) mod n"
  then have "n dvd (k + l) - (k + i)" by (metis mod_eq_dvd_iff_nat add_left_mono assms(1) less_imp_le)
  then have "n dvd l - i" by simp
  with assms show False by (auto dest: dvd_imp_le)
qed

lemma ring_push:
  assumes r: "ring cb m q" and len: "length q < unat (buf_sz cb)"
  shows "ring (cb\<lparr>head := advance cb (head cb)\<rparr>) (m(head cb := v)) (q @ [v])"
proof -
  let ?n = "unat (buf_sz cb)" and ?cb = "cb\<lparr>head := advance cb (head cb)\<rparr>"
  obtain k where k: "k < ?n" "tail cb = cell cb k" "head cb = cell cb (k + length q)"
    "\<And>i. i < length q \<Longrightarrow> m (cell cb (k + i)) = q ! i" and ok: "area_ok cb"
    using r by (auto simp: ring_def)
  have "(m(head cb := v)) (cell cb (k + i)) = (q @ [v]) ! i" if "i < Suc (length q)" for i
  proof (cases "i = length q")
    case False
    then have "i < length q" using that by simp
    moreover from this have "cell cb (k + i) \<noteq> head cb"
      using mod_offset_distinct [of i "length q" ?n k] len by (simp add: k(3) cell_eq [OF ok])
    ultimately show ?thesis using k(4) by (simp add: nth_append)
  qed (simp add: k(3))
  then have "\<forall>i < length (q @ [v]). (m(head cb := v)) (cell ?cb (k + i)) = (q @ [v]) ! i" by simp
  moreover have "area_ok ?cb" using ok by (simp add: area_ok_def)
  moreover have "head ?cb = cell ?cb (k + length (q @ [v]))" by (simp add: k(3) advance_cell [OF ok])
  ultimately show ?thesis
    unfolding ring_def by (intro conjI exI [of _ k]) (use k(1,2) len in \<open>simp_all del: fun_upd_apply\<close>)
qed

lemma ring_pop:
  assumes r: "ring cb m (v # q)"
  shows "m (tail cb) = v" "ring (cb\<lparr>tail := advance cb (tail cb)\<rparr>) m q"
proof -
  let ?n = "unat (buf_sz cb)" and ?cb = "cb\<lparr>tail := advance cb (tail cb)\<rparr>"
  obtain k where k: "k < ?n" "tail cb = cell cb k" "head cb = cell cb (k + length (v # q))"
    "\<And>i. i < length (v # q) \<Longrightarrow> m (cell cb (k + i)) = (v # q) ! i" and ok: "area_ok cb"
    and len: "length (v # q) \<le> ?n"
    using r by (auto simp: ring_def)
  show "m (tail cb) = v" using k(2) k(4) [of 0] by simp
  let ?k = "Suc k mod ?n"
  have n: "0 < ?n" using k(1) by simp
  have sh: "cell cb (?k + i) = cell cb (Suc k + i)" for i
    by (simp add: cell_eq [OF ok] mod_add_left_eq)
  have "cell cb ?k = cell cb (Suc k)" using sh [of 0] by simp
  moreover have "m (cell cb (?k + i)) = q ! i" if "i < length q" for i
    using k(4) [of "Suc i"] that by (simp add: sh)
  moreover have "?k < ?n" using n by simp
  ultimately show "ring ?cb m q"
    using ok len k(3) unfolding ring_def
    by (auto simp: sh k(2) advance_cell [OF ok] area_ok_def intro!: exI [of _ ?k])
qed

lemma ring_cong:
  assumes "ring cb m q" "\<And>x. in_area cb x \<Longrightarrow> m' x = m x"
  shows "ring cb m' q"
  using assms cell_in_area by (fastforce simp: ring_def)


subsection \<open>The copy loops\<close>

lemma ring_same_area [simp]:
  "in_area (cb\<lparr>head := h\<rparr>) = in_area cb" "in_area (cb\<lparr>tail := h\<rparr>) = in_area cb"
  "in_area (cb\<lparr>free_space := f\<rparr>) = in_area cb"
  by (simp_all add: in_area_def fun_eq_iff)

lemma ring_head_in_area: "ring cb m q \<Longrightarrow> in_area cb (head cb)"
  by (auto simp: ring_def cell_in_area)

lemma push_loop_fields:
  "push_loop n data cb m = (cb', m') \<Longrightarrow>
     buffer cb' = buffer cb \<and> buf_sz cb' = buf_sz cb \<and> tail cb' = tail cb \<and> free_space cb' = free_space cb"
  by (induction n data cb m rule: push_loop.induct) (auto simp: Let_def)

lemma pop_loop_fields:
  "pop_loop n dst cb m = (cb', m') \<Longrightarrow>
     buffer cb' = buffer cb \<and> buf_sz cb' = buf_sz cb \<and> head cb' = head cb \<and> free_space cb' = free_space cb"
  by (induction n dst cb m rule: pop_loop.induct) (auto simp: Let_def)

lemma push_loop_ring:
  assumes "push_loop n data cb m = (cb', m')" "ring cb m q" "length q + n \<le> unat (buf_sz cb)"
    and "\<And>i. i < n \<Longrightarrow> \<not> in_area cb (data + of_nat i)"
  shows "ring cb' m' (q @ read_bytes m data n) \<and> (\<forall>x. \<not> in_area cb x \<longrightarrow> m' x = m x)"
  using assms
proof (induction n arbitrary: data cb m q)
  case (Suc n)
  let ?cb = "cb\<lparr>head := advance cb (head cb)\<rparr>" and ?m = "m(head cb := m data)"
  have r1: "ring ?cb ?m (q @ [m data])"
    using Suc.prems(3) by (intro ring_push [OF Suc.prems(2)]) simp
  have dat: "\<not> in_area ?cb (data + 1 + of_nat i)" if "i < n" for i
    using Suc.prems(4) [of "Suc i"] that by (simp add: algebra_simps)
  have hd: "in_area cb (head cb)" using Suc.prems(2) by (rule ring_head_in_area)
  have "push_loop n (data + 1) ?cb ?m = (cb', m')" using Suc.prems(1) by (simp add: Let_def)
  from Suc.IH [OF this r1 _ dat] Suc.prems(3)
  have IH: "ring cb' m' ((q @ [m data]) @ read_bytes ?m (data + 1) n)"
    "\<And>x. \<not> in_area cb x \<Longrightarrow> m' x = ?m x" by (simp_all del: fun_upd_apply)
  have "?m (data + 1 + of_nat i) = m (data + 1 + of_nat i)" if "i < n" for i
    using dat [OF that] hd by (metis fun_upd_other ring_same_area(1))
  then have "read_bytes ?m (data + 1) n = read_bytes m (data + 1) n"
    by (rule read_bytes_cong)
  with IH hd show ?case by auto
qed auto

lemma pop_loop_ring:
  assumes "pop_loop n dst cb m = (cb', m')" "ring cb m (xs @ q)" "length xs = n" "n \<le> 2 ^ 32"
    and "\<And>i. i < n \<Longrightarrow> \<not> in_area cb (dst + of_nat i)"
  shows "ring cb' m' q \<and> m' = write_bytes dst xs m"
  using assms
proof (induction n arbitrary: dst cb m xs)
  case (Suc n)
  obtain v vs where xs: "xs = v # vs" "length vs = n" using Suc.prems(3) by (cases xs) auto
  let ?cb = "cb\<lparr>tail := advance cb (tail cb)\<rparr>" and ?m = "m(dst := v)"
  have "ring cb m (v # vs @ q)" using Suc.prems(2) xs by simp
  note rp = ring_pop [OF this]
  have "\<not> in_area cb dst" using Suc.prems(5) [of 0] by simp
  then have r1: "ring ?cb ?m (vs @ q)" by (intro ring_cong [OF rp(2)]) auto
  have dst: "\<not> in_area ?cb (dst + 1 + of_nat i)" if "i < n" for i
    using Suc.prems(5) [of "Suc i"] that by (simp add: algebra_simps)
  have "pop_loop n (dst + 1) ?cb ?m = (cb', m')" using Suc.prems(1) by (simp add: Let_def rp(1))
  from Suc.IH [OF this r1 xs(2) _ dst] Suc.prems(4)
  show ?case by (auto simp: xs simp del: fun_upd_apply)
qed auto

subsection \<open>Push and pop\<close>

lemma ring_free_space [simp]: "ring (cb\<lparr>free_space := f\<rparr>) m q = ring cb m q"
  by (simp add: ring_def area_ok_def cell_def)

lemma cb_rep_length: "cb_rep cb m q \<Longrightarrow> length q \<le> unat (buf_sz cb)"
  by (auto simp: cb_rep_def ring_def)

lemma circular_buf_push_rep:
  assumes rep: "cb_rep cb m q" and push: "circular_buf_push data len cb m = (cb', m')"
    and out: "\<And>i. i < unat len \<Longrightarrow> \<not> in_area cb (data + of_nat i)"
  shows "cb_rep cb' m' (if length q + unat len \<le> unat (buf_sz cb) then q @ read_bytes m data (unat len) else q)"
    and "\<not> in_area cb x \<Longrightarrow> m' x = m x"
    and "buffer cb' = buffer cb \<and> buf_sz cb' = buf_sz cb"
proof -
  have r: "ring cb m q" and f: "unat (free_space cb) = unat (buf_sz cb) - length q"
    using rep by (auto simp: cb_rep_def)
  note len = cb_rep_length [OF rep]
  have fits: "len > free_space cb \<longleftrightarrow> \<not> length q + unat len \<le> unat (buf_sz cb)"
    using f len by (auto simp: word_less_nat_alt)
  have "cb_rep cb' m' (if length q + unat len \<le> unat (buf_sz cb) then q @ read_bytes m data (unat len) else q)
    \<and> (\<forall>x. \<not> in_area cb x \<longrightarrow> m' x = m x) \<and> buffer cb' = buffer cb \<and> buf_sz cb' = buf_sz cb"
  proof (cases "len > free_space cb")
    case True
    with push rep fits show ?thesis by (simp add: circular_buf_push_def)
  next
    case False
    obtain cb1 where p: "push_loop (unat len) data cb m = (cb1, m')" and cb': "cb' = cb1\<lparr>free_space := free_space cb1 - len\<rparr>"
      using push False by (auto simp: circular_buf_push_def split: prod.splits)
    have le: "length q + unat len \<le> unat (buf_sz cb)" using False fits by simp
    note loop = push_loop_ring [OF p r le out] and fs = push_loop_fields [OF p]
    have "unat (free_space cb - len) = unat (free_space cb) - unat len"
      using False by (simp add: unat_sub)
    then have "cb_rep cb' m' (q @ read_bytes m data (unat len))"
      using loop fs f le by (simp add: cb_rep_def cb')
    with loop fs le show ?thesis by (simp add: cb')
  qed
  then show "cb_rep cb' m' (if length q + unat len \<le> unat (buf_sz cb) then q @ read_bytes m data (unat len) else q)"
    "\<not> in_area cb x \<Longrightarrow> m' x = m x" "buffer cb' = buffer cb \<and> buf_sz cb' = buf_sz cb"
    by blast+
qed

lemma circular_buf_pop_rep:
  assumes rep: "cb_rep cb m q" and pop: "circular_buf_pop dst len cb m = (cb', m')"
    and out: "\<And>i. i < unat len \<Longrightarrow> \<not> in_area cb (dst + of_nat i)"
  shows "if unat len \<le> length q
    then cb_rep cb' m' (drop (unat len) q) \<and> m' = write_bytes dst (take (unat len) q) m
    else cb' = cb \<and> m' = m"
proof -
  have r: "ring cb m q" and f: "unat (free_space cb) = unat (buf_sz cb) - length q"
    using rep by (auto simp: cb_rep_def)
  note len = cb_rep_length [OF rep]
  have us: "unat (buf_sz cb - free_space cb) = length q"
    using f len by (simp add: unat_sub word_le_nat_alt)
  have fits: "len > buf_sz cb - free_space cb \<longleftrightarrow> \<not> unat len \<le> length q"
    using us by (auto simp: word_less_nat_alt)
  show ?thesis
  proof (cases "len > buf_sz cb - free_space cb")
    case True
    with pop fits show ?thesis by (auto simp: circular_buf_pop_def)
  next
    case False
    obtain cb1 where p: "pop_loop (unat len) dst cb m = (cb1, m')" and cb': "cb' = cb1\<lparr>free_space := free_space cb1 + len\<rparr>"
      using pop False by (auto simp: circular_buf_pop_def split: prod.splits)
    have le: "unat len \<le> length q" using False fits by simp
    have "ring cb m (take (unat len) q @ drop (unat len) q)" using r by simp
    moreover have "unat len < 2 ^ 32" using unsigned_less [of len] by simp
    ultimately have loop: "ring cb1 m' (drop (unat len) q)" "m' = write_bytes dst (take (unat len) q) m"
      using pop_loop_ring [OF p, of "take (unat len) q" "drop (unat len) q"] out le by auto
    note fs = pop_loop_fields [OF p]
    have sz: "unat (buf_sz cb) < 2 ^ 32" using unsigned_less [of "buf_sz cb"] by simp
    have "unat (free_space cb) + unat len \<le> unat (buf_sz cb)" using f le len by linarith
    then have "unat (free_space cb + len) = unat (free_space cb) + unat len"
      using sz by (subst unat_add_lem [symmetric]) simp
    then have "cb_rep cb' m' (drop (unat len) q)"
      using loop fs f le len by (simp add: cb_rep_def cb')
    with loop le show ?thesis by simp
  qed
qed

lemma circular_buf_pop_area:
  "circular_buf_pop dst len cb m = (cb', m') \<Longrightarrow> buffer cb' = buffer cb \<and> buf_sz cb' = buf_sz cb"
  using pop_loop_fields by (fastforce simp: circular_buf_pop_def Let_def split: prod.splits if_splits)

lemma circular_buf_counts:
  assumes "cb_rep cb m q"
  shows "unat (circular_buf_cur_usage cb) = length q"
    "unat (circular_buf_cur_capacity cb) = unat (buf_sz cb) - length q"
proof -
  have f: "unat (free_space cb) = unat (buf_sz cb) - length q" using assms by (simp add: cb_rep_def)
  note len = cb_rep_length [OF assms]
  show "unat (circular_buf_cur_usage cb) = length q"
    using f len by (simp add: circular_buf_cur_usage_def unat_sub word_le_nat_alt)
  show "unat (circular_buf_cur_capacity cb) = unat (buf_sz cb) - length q"
    using f by (simp add: circular_buf_cur_capacity_def)
qed


subsection \<open>The interface\<close>

text \<open>
  A bounded byte queue in memory: \<open>area\<close> are the bytes it owns, \<open>size_of\<close> how many it can hold.
  Source and destination of a transfer lie outside the area.
\<close>

locale byte_fifo =
  fixes rep :: "'b \<Rightarrow> mem \<Rightarrow> u8 list \<Rightarrow> bool"
    and area :: "'b \<Rightarrow> u32 \<Rightarrow> bool"
    and size_of :: "'b \<Rightarrow> nat"
    and push :: "u32 \<Rightarrow> u32 \<Rightarrow> 'b \<Rightarrow> mem \<Rightarrow> 'b \<times> mem"
    and pop :: "u32 \<Rightarrow> u32 \<Rightarrow> 'b \<Rightarrow> mem \<Rightarrow> 'b \<times> mem"
  assumes rep_bound: "rep b m q \<Longrightarrow> length q \<le> size_of b"
    and rep_cong: "rep b m q \<Longrightarrow> (\<And>x. area b x \<Longrightarrow> m' x = m x) \<Longrightarrow> rep b m' q"
    and push_rep: "rep b m q \<Longrightarrow> push src len b m = (b', m') \<Longrightarrow>
      (\<And>i. i < unat len \<Longrightarrow> \<not> area b (src + of_nat i)) \<Longrightarrow>
      rep b' m' (if length q + unat len \<le> size_of b then q @ read_bytes m src (unat len) else q)"
    and push_frame: "rep b m q \<Longrightarrow> push src len b m = (b', m') \<Longrightarrow>
      (\<And>i. i < unat len \<Longrightarrow> \<not> area b (src + of_nat i)) \<Longrightarrow>
      size_of b' = size_of b \<and> area b' = area b \<and> (\<forall>x. \<not> area b x \<longrightarrow> m' x = m x)"
    and pop_rep: "rep b m q \<Longrightarrow> pop dst len b m = (b', m') \<Longrightarrow>
      (\<And>i. i < unat len \<Longrightarrow> \<not> area b (dst + of_nat i)) \<Longrightarrow> unat len \<le> length q \<Longrightarrow>
      rep b' m' (drop (unat len) q) \<and> m' = write_bytes dst (take (unat len) q) m"
begin

text \<open>What two producers push one after the other, a consumer pops in that order.\<close>

lemma push_push_pop:
  assumes rep: "rep b m []" and p1: "push s1 l1 b m = (b1, m1)" and p2: "push s2 l2 b1 m1 = (b2, m2)"
    and out: "\<And>i. i < unat l1 \<Longrightarrow> \<not> area b (s1 + of_nat i)" "\<And>i. i < unat l2 \<Longrightarrow> \<not> area b (s2 + of_nat i)"
      "\<And>i. i < unat l3 \<Longrightarrow> \<not> area b (dst + of_nat i)"
    and fits: "unat l1 + unat l2 \<le> size_of b" and l3: "unat l3 = unat l1 + unat l2"
    and pp: "pop dst l3 b2 m2 = (b3, m3)"
  shows "read_bytes m3 dst (unat l3) = read_bytes m s1 (unat l1) @ read_bytes m s2 (unat l2) \<and> rep b3 m3 []"
proof -
  have r1: "rep b1 m1 (read_bytes m s1 (unat l1))"
    using push_rep [OF rep p1 out(1)] fits by simp
  note f1 = push_frame [OF rep p1 out(1)]
  have o2: "\<And>i. i < unat l2 \<Longrightarrow> \<not> area b1 (s2 + of_nat i)" using out(2) f1 by simp
  have "read_bytes m1 s2 (unat l2) = read_bytes m s2 (unat l2)"
    using f1 out(2) by (intro read_bytes_cong) auto
  then have r2: "rep b2 m2 (read_bytes m s1 (unat l1) @ read_bytes m s2 (unat l2))"
    using push_rep [OF r1 p2 o2] f1 fits by simp
  note f2 = push_frame [OF r1 p2 o2]
  have o3: "\<And>i. i < unat l3 \<Longrightarrow> \<not> area b2 (dst + of_nat i)" using out(3) f1 f2 by simp
  have "rep b3 m3 (drop (unat l3) (read_bytes m s1 (unat l1) @ read_bytes m s2 (unat l2)))"
    and m3: "m3 = write_bytes dst (read_bytes m s1 (unat l1) @ read_bytes m s2 (unat l2)) m2"
    using pop_rep [OF r2 pp o3] l3 by auto
  then have "rep b3 m3 []" using l3 by simp
  moreover have "unat l3 \<le> 2 ^ 32" by (rule less_imp_le [OF unat_bound])
  then have "read_bytes m3 dst (unat l3) = read_bytes m s1 (unat l1) @ read_bytes m s2 (unat l2)"
    using read_write_bytes [of "read_bytes m s1 (unat l1) @ read_bytes m s2 (unat l2)" dst m2] l3
    by (simp add: m3)
  ultimately show ?thesis by simp
qed

end

interpretation cb: byte_fifo cb_rep in_area "\<lambda>cb. unat (buf_sz cb)" circular_buf_push circular_buf_pop
  apply unfold_locales
  subgoal by (rule cb_rep_length)
  subgoal by (auto simp: cb_rep_def intro: ring_cong)
  subgoal by (rule circular_buf_push_rep(1))
  subgoal for b m q src len b' m'
    using circular_buf_push_rep(2,3) [of b m q src len b' m'] by (auto simp: in_area_def fun_eq_iff)
  subgoal for b m q dst len b' m'
    using circular_buf_pop_rep [of b m q dst len b' m'] by auto
  done


subsection \<open>Properties\<close>

lemma circular_buf_init_spec:
  assumes rep: "heap_rep s L" and cap: "request_ok capacity"
    and i: "circular_buf_init capacity cbuf s = Some (cb, s')"
  shows "\<exists>l \<ge> unat capacity. heap_rep s' (insert (unat (buffer cb), l) L) \<and> cb_rep cb (ram s') []
    \<and> buf_sz cb = capacity"
proof -
  obtain p where g: "get_mem capacity s = Some (p, s')"
    and cb: "cb = cbuf\<lparr>free_space := capacity, buf_sz := capacity, buffer := p, head := p, tail := p\<rparr>"
    using i by (auto simp: circular_buf_init_def Let_def split: bind_splits)
  obtain l where l: "unat capacity \<le> l" "heap_rep s' (insert (unat p, l) L)"
    using get_mem_heap_rep(1) [OF rep cap g] by blast
  have "unat p + l < 2 ^ 32" using heap_rep_bounds [OF l(2)] heap_consts(1) by fastforce
  moreover have "0 < unat capacity" using cap by (simp add: request_ok_def unat_gt_0)
  ultimately have "cb_rep cb (ram s') []"
    using l(1) by (auto simp: cb cb_rep_def ring_def area_ok_def cell_def intro!: exI [of _ 0])
  with l show ?thesis by (auto simp: cb)
qed

text \<open>C13: a circular buffer is a bounded first-in first-out queue of bytes: \<open>circular_buf_push\<close>
  appends the whole block or, when it does not fit, nothing; \<open>circular_buf_pop\<close> delivers the oldest
  bytes, all that were asked for or none; the counters report the bytes held and the room left; and
  no byte outside the buffer and the destination changes. This holds wherever the data wraps round
  the end of the area.\<close>

theorem circular_buf_ops:
  assumes rep: "cb_rep cb m q"
    and push: "circular_buf_push data len cb m = (cb1, m1)"
    and pop: "circular_buf_pop dst n cb m = (cb2, m2)"
    and out: "\<forall>i < unat len. \<not> in_area cb (data + of_nat i)" "\<forall>i < unat n. \<not> in_area cb (dst + of_nat i)"
  shows "cb_rep cb1 m1 (if length q + unat len \<le> unat (buf_sz cb) then q @ read_bytes m data (unat len) else q)
    \<and> (\<forall>x. \<not> in_area cb x \<longrightarrow> m1 x = m x)
    \<and> (if unat n \<le> length q
       then cb_rep cb2 m2 (drop (unat n) q) \<and> m2 = write_bytes dst (take (unat n) q) m
       else cb2 = cb \<and> m2 = m)
    \<and> unat (circular_buf_cur_usage cb) = length q
    \<and> unat (circular_buf_cur_capacity cb) = unat (buf_sz cb) - length q"
  using circular_buf_push_rep(1,2) [OF rep push] circular_buf_pop_rep [OF rep pop] circular_buf_counts [OF rep] out
  by blast

text \<open>An area of four bytes, empty, with the next cell the last one.\<close>

definition example_cbuf :: circular_buf where
  "example_cbuf = \<lparr>buffer = 0x1000, head = 0x1003, tail = 0x1003, buf_sz = 4, free_space = 4\<rparr>"

lemma example_cbuf_rep: "cb_rep example_cbuf m []"
  by (auto simp: example_cbuf_def cb_rep_def ring_def area_ok_def cell_def intro!: exI [of _ 3])

lemma example_cbuf_area: "in_area example_cbuf x \<longleftrightarrow> 0x1000 \<le> unat x \<and> unat x < 0x1004"
  using in_range_of_nat [of "0x1000" 4 x] by (simp add: example_cbuf_def in_area_def)

lemma outside_example:
  assumes "a + l \<le> 2 ^ 32" "0x1004 \<le> a" "i < l"
  shows "\<not> in_area example_cbuf (of_nat a + of_nat i)"
proof -
  have "(of_nat a + of_nat i :: u32) = of_nat (a + i)" by simp
  moreover have "unat (of_nat (a + i) :: u32) = a + i" by (rule unat_of_nat_u32) (use assms in simp)
  ultimately show ?thesis using assms(2) by (simp add: example_cbuf_area del: of_nat_add)
qed

lemma circular_buf_ops_witness:
  "\<exists>cb m. circular_buf_push 0x2000 3 example_cbuf (\<lambda>x. ucast x) = (cb, m) \<and> cb_rep cb m [0, 1, 2]"
proof -
  obtain cb m where p: "circular_buf_push 0x2000 3 example_cbuf (\<lambda>x. ucast x) = (cb, m)" by fastforce
  obtain cb' m' where q: "circular_buf_pop 0x2000 3 example_cbuf (\<lambda>x. ucast x) = (cb', m')" by fastforce
  have "\<forall>i < unat (3 :: u32). \<not> in_area example_cbuf (0x2000 + of_nat i)"
    using outside_example [of "0x2000" 3] by simp
  from circular_buf_ops [OF example_cbuf_rep p q this this]
  have "cb_rep cb m (read_bytes (\<lambda>x. ucast x) 0x2000 3)" by (simp add: example_cbuf_def)
  moreover have "read_bytes (\<lambda>x. ucast x) 0x2000 3 = [0, 1, 2]" by simp
  ultimately show ?thesis using p by metis
qed

text \<open>Two blocks pushed one after the other come out as one stream, in order, into the
  destination of the pop that takes them both, and leave the buffer empty.\<close>

theorem circular_buf_stream:
  assumes "cb_rep b m []" and "circular_buf_push s1 l1 b m = (b1, m1)" and "circular_buf_push s2 l2 b1 m1 = (b2, m2)"
    and "\<forall>i < unat l1. \<not> in_area b (s1 + of_nat i)" "\<forall>i < unat l2. \<not> in_area b (s2 + of_nat i)"
      "\<forall>i < unat l3. \<not> in_area b (dst + of_nat i)"
    and "unat l1 + unat l2 \<le> unat (buf_sz b)" "unat l3 = unat l1 + unat l2"
    and "circular_buf_pop dst l3 b2 m2 = (b3, m3)"
  shows "read_bytes m3 dst (unat l3) = read_bytes m s1 (unat l1) @ read_bytes m s2 (unat l2) \<and> cb_rep b3 m3 []"
  by (rule cb.push_push_pop [OF assms(1-3)]) (use assms(4-9) in auto)

lemma circular_buf_stream_witness:
  "\<exists>b1 m1 b2 m2 b3 m3. circular_buf_push 0x2000 2 example_cbuf (\<lambda>x. ucast x) = (b1, m1)
    \<and> circular_buf_push 0x2007 1 b1 m1 = (b2, m2) \<and> circular_buf_pop 0x3000 3 b2 m2 = (b3, m3)
    \<and> read_bytes m3 0x3000 3 = [0, 1, 7]"
proof -
  obtain b1 m1 where p1: "circular_buf_push 0x2000 2 example_cbuf (\<lambda>x. ucast x) = (b1, m1)" by fastforce
  obtain b2 m2 where p2: "circular_buf_push 0x2007 1 b1 m1 = (b2, m2)" by fastforce
  obtain b3 m3 where p3: "circular_buf_pop 0x3000 3 b2 m2 = (b3, m3)" by fastforce
  have o: "\<forall>i < unat (2 :: u32). \<not> in_area example_cbuf (0x2000 + of_nat i)"
    "\<forall>i < unat (1 :: u32). \<not> in_area example_cbuf (0x2007 + of_nat i)"
    "\<forall>i < unat (3 :: u32). \<not> in_area example_cbuf (0x3000 + of_nat i)"
    using outside_example [of "0x2000" 2] outside_example [of "0x2007" 1] outside_example [of "0x3000" 3]
    by simp_all
  from circular_buf_stream [OF example_cbuf_rep p1 p2 o _ _ p3]
  have "read_bytes m3 0x3000 3 = read_bytes (\<lambda>x. ucast x) 0x2000 2 @ read_bytes (\<lambda>x. ucast x) 0x2007 1"
    by (simp add: example_cbuf_def)
  then have "read_bytes m3 0x3000 3 = [0, 1, 7]" by simp
  with p1 p2 p3 show ?thesis by blast
qed

text \<open>\<open>circular_buf_free\<close> forgets to reset the free space, so a freed buffer that was not full
  reports bytes to read: its usage is the negated free space, which wraps around.\<close>

theorem circular_buf_free_usage:
  assumes "cb_rep cb (ram s) q" "length q < unat (buf_sz cb)" "circular_buf_free cb s = (cb', s')"
  shows "circular_buf_cur_usage cb' = - free_space cb \<and> circular_buf_cur_usage cb' \<noteq> 0"
proof -
  have "0 < unat (free_space cb)" using assms(1,2) by (simp add: cb_rep_def)
  then show ?thesis using assms(3) by (auto simp: circular_buf_free_def circular_buf_cur_usage_def)
qed

lemma circular_buf_free_usage_witness:
  "circular_buf_cur_usage (fst (circular_buf_free example_cbuf boot_machine)) = 0xFFFFFFFC"
proof -
  obtain cb' s' where f: "circular_buf_free example_cbuf boot_machine = (cb', s')" by fastforce
  from circular_buf_free_usage [OF example_cbuf_rep _ f] show ?thesis
    by (simp add: f) (simp add: example_cbuf_def)
qed

end
