(* ===== verification/Net.thy ===== *)
theory Net
  imports Process_Correct Codec Cbuf
begin

text \<open>
  The state of the network stack: the statics and the objects of \<open>protocol.c\<close>, \<open>ethernet.c\<close>,
  \<open>emac.c\<close>, \<open>arp.c\<close>, \<open>ipv4.c\<close>, \<open>udp.c\<close> and \<open>tcp.c\<close>. An object is a record found by its address;
  a queue or table is the list of the addresses linked on it, head first. Payloads and frames are
  bytes of the RAM. The wait queues belong to \<open>wait.c\<close>.
\<close>

unbundle bit_operations_syntax

subsection \<open>Objects\<close>

datatype protocol_type = ETHERNET | IPV4 | UDP | TCP | ARP | DROP

record packet_t =
  pkt_data :: u32
  pkt_cur_data :: u32
  pkt_data_length :: u32
  pkt_cur_data_length :: u32
  pkt_handler :: protocol_type
  pkt_src_ip :: u32
  pkt_dst_ip :: u32

record ether_tx_q_t =
  eq_dhost :: "u8 list"
  eq_ether_type :: u16
  eq_payload :: u32
  eq_payload_len :: u16

record arp_entry =
  ae_ether_addr :: "u8 list"
  ae_ipaddr :: u32

record arp_pending_request =
  ar_tick_count :: u32
  ar_TPA :: u32
  ar_timed_out :: bool
  ar_finished :: bool
  ar_answer :: u32

record ip4_tx_q_t =
  iq_protocol :: u8
  iq_dst_ip :: u32
  iq_payload :: u32
  iq_payload_len :: u16

record udp_listener =
  ul_dst_buf :: u32
  ul_dst_buf_sz :: u16
  ul_dst_buf_ptr :: u16
  ul_port :: u16

datatype tcp_state = CLOSED | LISTEN | SYN_SENT | SYN_RECEIVED | ESTABLISHED | CLOSE_WAIT
  | LAST_ACK | FIN_WAIT1 | FIN_WAIT2 | CLOSING | TIME_WAIT

record tcb =
  cur_seq_n :: u32
  cur_ack_n :: u32
  unacked_byte_count :: u32
  rx_buf :: circular_buf
  tcb_state :: tcp_state
  timeout :: u16
  src_port :: u16
  dst_port :: u16
  host_window_sz :: u16
  dst_ip :: u32
  decrement_timeout :: bool
  timed_out :: bool
  last_msg :: u32

subsection \<open>State\<close>

text \<open>A registered \<open>struct tick_work_q\<close> is named by its \<open>tick_fn\<close>.\<close>

datatype tick_fn = ARP_TICK | TCP_TICK

text \<open>
  A registered \<open>struct protocol_t\<close> is named by its \<open>type\<close>, which determines its \<open>rx_pkt\<close>. Of the
  EMAC the descriptor and status arrays and the three indices are kept (\<open>rx_desc\<close> and
  \<open>tx_desc\<close>: \<open>packet\<close> and \<open>control\<close>; \<open>rx_status\<close>: the \<open>status_info\<close> words); \<open>current_frame\<close> and its length are the statics of
  \<open>irq_enet\<close>. \<open>tx_log\<close> records the bytes that the two descriptors of a transmission pointed to while
  the code waited for the EMAC to send them.
\<close>

record net = sched +
  pkts :: "u32 \<Rightarrow> packet_t"
  pkt_rx_q :: "u32 list"
  rx_waitq :: waitqueue_t
  protocol_head :: "protocol_type list"
  ether_objs :: "u32 \<Rightarrow> ether_tx_q_t"
  ether_tx_queue :: "u32 list"
  ether_tx_waitq :: waitqueue_t
  ether_addr :: "u8 list"
  no_dropped_packets :: u32
  arp_entries :: "u32 \<Rightarrow> arp_entry"
  arp_table_head :: "u32 list"
  arp_reqs :: "u32 \<Rightarrow> arp_pending_request"
  arp_pending_requests :: "u32 list"
  arp_waitqueue :: waitqueue_t
  ip4_objs :: "u32 \<Rightarrow> ip4_tx_q_t"
  ip4_tx_queue :: "u32 list"
  ip4_tx_waitq :: waitqueue_t
  listeners :: "u32 \<Rightarrow> udp_listener"
  udp_rx_requests :: "u32 list"
  udp_waitq :: waitqueue_t
  tcbs :: "u32 \<Rightarrow> tcb"
  tcb_head :: "u32 list"
  tcp_waitq :: waitqueue_t
  rx_desc :: "(u32 \<times> u32) list"
  rx_status :: "u32 list"
  rx_consume_index :: u32
  rx_produce_index :: u32
  current_frame :: u32
  current_frame_len :: u32
  tx_desc :: "(u32 \<times> u32) list"
  tx_produce_index :: u32
  tx_log :: "(u8 list \<times> u8 list) list"
  tick_work :: "tick_fn list"
  timer0_irq_wakeups :: u32

subsection \<open>Waking the wait queues of the stack\<close>

definition wake_rx :: "'a net_scheme \<Rightarrow> 'a net_scheme option" where
  "wake_rx s = do { (q, s) \<leftarrow> waitqueue_wakeup (rx_waitq s) s; Some (s\<lparr>rx_waitq := q\<rparr>) }"

definition wake_ether_tx :: "'a net_scheme \<Rightarrow> 'a net_scheme option" where
  "wake_ether_tx s = do { (q, s) \<leftarrow> waitqueue_wakeup (ether_tx_waitq s) s; Some (s\<lparr>ether_tx_waitq := q\<rparr>) }"

definition wake_arp :: "'a net_scheme \<Rightarrow> 'a net_scheme option" where
  "wake_arp s = do { (q, s) \<leftarrow> waitqueue_wakeup (arp_waitqueue s) s; Some (s\<lparr>arp_waitqueue := q\<rparr>) }"

definition wake_ip4_tx :: "'a net_scheme \<Rightarrow> 'a net_scheme option" where
  "wake_ip4_tx s = do { (q, s) \<leftarrow> waitqueue_wakeup (ip4_tx_waitq s) s; Some (s\<lparr>ip4_tx_waitq := q\<rparr>) }"

definition wake_udp :: "'a net_scheme \<Rightarrow> 'a net_scheme option" where
  "wake_udp s = do { (q, s) \<leftarrow> waitqueue_wakeup (udp_waitq s) s; Some (s\<lparr>udp_waitq := q\<rparr>) }"

definition wake_tcp :: "'a net_scheme \<Rightarrow> 'a net_scheme option" where
  "wake_tcp s = do { (q, s) \<leftarrow> waitqueue_wakeup (tcp_waitq s) s; Some (s\<lparr>tcp_waitq := q\<rparr>) }"

lemmas wake_defs = wake_rx_def wake_ether_tx_def wake_arp_def wake_ip4_tx_def wake_udp_def wake_tcp_def

subsection \<open>The system invariant\<close>

definition all_waits :: "'a net_scheme \<Rightarrow> waitqueue_t" where
  "all_waits s = rx_waitq s @ ether_tx_waitq s @ arp_waitqueue s @ ip4_tx_waitq s @ udp_waitq s @ tcp_waitq s"

text \<open>
  Every waiting process sleeps on one wait queue only, is on the scheduler's wait queue, is not the
  current one, and its \<open>waiting_proc_t\<close> is a live allocation.
\<close>

definition waits_ok :: "'a net_scheme \<Rightarrow> ledger \<Rightarrow> bool" where
  "waits_ok s L \<longleftrightarrow> distinct (map snd (all_waits s)) \<and> distinct (map fst (all_waits s))
     \<and> set (map snd (all_waits s)) \<subseteq> set (waitqueue s) \<and> current_tsk s \<notin> set (map snd (all_waits s))
     \<and> (\<forall>w \<in> set (map fst (all_waits s)). \<exists>l. (unat w, l) \<in> L)"

definition net_ok :: "'a net_scheme \<Rightarrow> ledger \<Rightarrow> nat \<Rightarrow> bool" where
  "net_ok s L n \<longleftrightarrow> sched_inv s \<and> heap_room s L n \<and> waits_ok s L"

text \<open>The payload bytes of the live buffers in \<open>L\<close> are the same in both states.\<close>

definition keeps :: "'a machine_scheme \<Rightarrow> 'a machine_scheme \<Rightarrow> ledger \<Rightarrow> bool" where
  "keeps s s' L \<longleftrightarrow> (\<forall>b \<in> L. \<forall>x. in_buf b x \<longrightarrow> ram s' x = ram s x)"

lemma keepsD: "keeps s s' L \<Longrightarrow> b \<in> L \<Longrightarrow> in_buf b x \<Longrightarrow> ram s' x = ram s x"
  by (simp add: keeps_def)

lemma keeps_refl [simp]: "keeps s s L"
  by (simp add: keeps_def)

lemma keeps_trans:
  assumes "keeps s s1 L" "keeps s1 s2 L"
  shows "keeps s s2 L"
  using assms by (simp add: keeps_def)

lemma keeps_subset: "keeps s s' L \<Longrightarrow> K \<subseteq> L \<Longrightarrow> keeps s s' K"
  by (meson keeps_def subsetD)

lemma without_mono: "A \<subseteq> B \<Longrightarrow> without L B \<subseteq> without L A"
  by (auto simp: without_def)

lemma heap_room_free_all:
  assumes "heap_room s L n" "distinct ws" "\<forall>w \<in> set ws. \<exists>l. (unat w, l) \<in> L"
  shows "heap_room (fold free_mem ws s) (without L (set ws)) n"
  using assms
proof (induction ws arbitrary: s L)
  case (Cons w ws)
  obtain l where l: "(unat w, l) \<in> L" using Cons.prems(3) by auto
  have r: "heap_room (free_mem w s) (without L {w}) n"
    using free_mem_room [OF Cons.prems(1) l] without_one [OF heap_room_rep [OF Cons.prems(1)] l] by simp
  have "\<exists>l. (unat v, l) \<in> without L {w}" if "v \<in> set ws" for v
  proof -
    have "v \<noteq> w" using that Cons.prems(2) by auto
    then have "unat v \<noteq> unat w" by (simp add: word_unat_eq_iff)
    with Cons.prems(3) that show ?thesis by (fastforce simp: without_def)
  qed
  with Cons.IH [OF r] Cons.prems(2) show ?case by (simp add: without_without)
qed simp

subsection \<open>What waking does to the system\<close>

definition nodes :: "waitqueue_t \<Rightarrow> u32 set" where
  "nodes wq = set (map fst wq)"

definition sleepers :: "waitqueue_t \<Rightarrow> u32 set" where
  "sleepers wq = set (map snd wq)"

text \<open>The state after the sleepers of \<open>wq\<close> have been made runnable, last sleeper first.\<close>

abbreviation woken :: "waitqueue_t \<Rightarrow> mem \<Rightarrow> (u32 \<Rightarrow> process_t) \<Rightarrow> 'a sched_scheme \<Rightarrow> 'a sched_scheme" where
  "woken wq m pr s \<equiv> s\<lparr>ram := m, procs := pr, runqueue := rev (map snd wq) @ runqueue s,
     waitqueue := filter (\<lambda>p. p \<notin> sleepers wq) (waitqueue s)\<rparr>"

lemma heap_room_sched_cong [simp]:
  "heap_room (s\<lparr>primask := b\<rparr>) L n = heap_room s L n"
  "heap_room (s\<lparr>runqueue := q\<rparr>) L n = heap_room s L n" "heap_room (s\<lparr>waitqueue := q\<rparr>) L n = heap_room s L n"
  "heap_room (s\<lparr>procs := pr\<rparr>) L n = heap_room s L n" "heap_room (s\<lparr>current_tsk := c\<rparr>) L n = heap_room s L n"
  "heap_room (s\<lparr>pendsv := b\<rparr>) L n = heap_room s L n"
  by (rule heap_room_cong; simp)+

lemma wake_all_net:
  assumes "sched_inv s" "heap_room s L n" "distinct (map snd wq)" "sleepers wq \<subseteq> set (waitqueue s)"
    and "current_tsk s \<notin> sleepers wq" "distinct (map fst wq)" "\<forall>w \<in> nodes wq. \<exists>l. (unat w, l) \<in> L"
  shows "\<exists>m pr. wake_all wq s = Some (woken wq m pr s) \<and> sched_inv (woken wq m pr s)
    \<and> heap_room (woken wq m pr s) (without L (nodes wq)) n \<and> keeps s (woken wq m pr s) (without L (nodes wq))"
  using assms
proof (induction wq arbitrary: s L)
  case Nil
  have "s = woken [] (ram s) (procs s) s" by (simp add: sleepers_def)
  with Nil show ?case by (intro exI [of _ "ram s"] exI [of _ "procs s"]) (simp add: nodes_def sleepers_def)
next
  case (Cons a wq)
  obtain w p where a: "a = (w, p)" by (cases a)
  have p: "p \<in> set (waitqueue s)" "p \<noteq> current_tsk s" using Cons.prems by (auto simp: a sleepers_def)
  let ?pr = "(procs s)(p := (procs s p)\<lparr>state := RUNNING\<rparr>)"
  let ?s1 = "s\<lparr>runqueue := p # runqueue s, waitqueue := remove1 p (waitqueue s), procs := ?pr\<rparr>"
  have s1: "process_wakeup p s = Some ?s1" by (rule process_wakeup_eq [OF Cons.prems(1) p(1)])
  have inv1: "sched_inv ?s1" by (rule process_wakeup_inv [OF Cons.prems(1) p s1])
  have room1: "heap_room ?s1 L n" using Cons.prems(2) by simp
  obtain l where l: "(unat w, l) \<in> L" using Cons.prems(7) by (auto simp: a nodes_def)
  obtain m where m: "free_mem w ?s1 = ?s1\<lparr>ram := m\<rparr>" by (rule free_mem_ram)
  let ?s2 = "?s1\<lparr>ram := m\<rparr>"
  have one: "L - {(unat w, l)} = without L {w}"
    by (rule without_one [OF heap_room_rep [OF Cons.prems(2)] l])
  have room2: "heap_room ?s2 (without L {w}) n"
    using free_mem_room [OF room1 l] unfolding m one .
  have inv2: "sched_inv ?s2" using inv1 sched_inv_free_mem [of w ?s1] unfolding m by blast
  have keep2: "ram ?s2 x = ram s x" if "b \<in> without L {w}" "in_buf b x" for b x
    using free_mem_heap_rep(2) [OF heap_room_rep [OF room1] l, of b x] that unfolding m one [symmetric] by simp
  have wq2: "waitqueue ?s2 = filter (\<lambda>q. q \<noteq> p) (waitqueue s)"
    using sched_invD(2) [OF Cons.prems(1)] by (auto simp: distinct_remove1_removeAll removeAll_filter_not_eq intro: filter_cong)
  have live: "\<exists>l. (unat v, l) \<in> without L {w}" if "v \<in> nodes wq" for v
  proof -
    have "v \<noteq> w" using that Cons.prems(6) by (auto simp: a nodes_def)
    then have "unat v \<noteq> unat w" by (simp add: word_unat_eq_iff)
    with Cons.prems(7) that show ?thesis by (fastforce simp: without_def nodes_def)
  qed
  have sub: "sleepers wq \<subseteq> set (waitqueue ?s2)"
    using Cons.prems(3,4) unfolding wq2 by (auto simp: a sleepers_def)
  obtain m' pr' where w': "wake_all wq ?s2 = Some (woken wq m' pr' ?s2)" "sched_inv (woken wq m' pr' ?s2)"
    "heap_room (woken wq m' pr' ?s2) (without (without L {w}) (nodes wq)) n"
    "keeps ?s2 (woken wq m' pr' ?s2) (without (without L {w}) (nodes wq))"
    using Cons.IH [OF inv2 room2 _ sub] Cons.prems(3,5,6) live by (auto simp: a sleepers_def)
  have eq: "woken wq m' pr' ?s2 = woken (a # wq) m' pr' s"
    using wq2 by (simp add: a sleepers_def conj_commute)
  have nd: "without (without L {w}) (nodes wq) = without L (nodes (a # wq))"
    by (simp add: without_without nodes_def a)
  have "keeps s (woken (a # wq) m' pr' s) (without L (nodes (a # wq)))"
    using w'(4) keep2 unfolding eq nd keeps_def by (auto simp: without_def nodes_def a)
  moreover have "wake_all (a # wq) s = Some (woken (a # wq) m' pr' s)"
    using s1 m w'(1) eq by (simp add: a)
  ultimately show ?case using w'(2,3) unfolding eq nd by blast
qed

lemma waitqueue_wakeup_net:
  assumes "sched_inv s" "heap_room s L n" "distinct (map snd wq)" "sleepers wq \<subseteq> set (waitqueue s)"
    and "current_tsk s \<notin> sleepers wq" "distinct (map fst wq)" "\<forall>w \<in> nodes wq. \<exists>l. (unat w, l) \<in> L"
  shows "\<exists>m pr. waitqueue_wakeup wq s = Some ([], woken wq m pr s) \<and> sched_inv (woken wq m pr s)
    \<and> heap_room (woken wq m pr s) (without L (nodes wq)) n \<and> keeps s (woken wq m pr s) (without L (nodes wq))"
proof -
  let ?s0 = "s\<lparr>primask := True\<rparr>"
  obtain m pr where w: "wake_all wq ?s0 = Some (woken wq m pr ?s0)" "sched_inv (woken wq m pr ?s0)"
    "heap_room (woken wq m pr ?s0) (without L (nodes wq)) n" "keeps ?s0 (woken wq m pr ?s0) (without L (nodes wq))"
    using wake_all_net [of ?s0 L n wq] assms by auto
  have eq: "(woken wq m pr ?s0)\<lparr>primask := primask s\<rparr> = woken wq m pr s" by simp
  have "waitqueue_wakeup wq s = Some ([], woken wq m pr s)"
    using w(1) eq by (simp add: waitqueue_wakeup_def irq_defs)
  moreover have "sched_inv (woken wq m pr s)" using w(2) by (simp add: sched_inv_def queued_def)
  moreover have "heap_room (woken wq m pr s) (without L (nodes wq)) n"
    using w(3) by (simp add: heap_room_def)
  moreover have "keeps s (woken wq m pr s) (without L (nodes wq))" using w(4) by (simp add: keeps_def)
  ultimately show ?thesis by blast
qed

lemma without_in: "(unat v, l) \<in> L \<Longrightarrow> v \<notin> A \<Longrightarrow> (unat v, l) \<in> without L A"
  by (auto simp: without_def dest: word_unat_eq_iff [THEN iffD2])

lemma without_insert: "v \<notin> A \<Longrightarrow> without (insert (unat v, l) L) A = insert (unat v, l) (without L A)"
  by (auto simp: without_def dest: word_unat_eq_iff [THEN iffD2])

lemma in_without: "b \<in> without L A \<Longrightarrow> b \<in> L"
  by (auto simp: without_def)

lemma woken_waits:
  assumes ok: "waits_ok s L" and aw: "all_waits s = A @ q @ B" and aw': "all_waits s' = A @ B"
    and w: "waitqueue s' = filter (\<lambda>p. p \<notin> sleepers q) (waitqueue s)" and c: "current_tsk s' = current_tsk s"
  shows "waits_ok s' (without L (nodes q))"
proof -
  have d: "distinct (map snd (A @ q @ B))" "distinct (map fst (A @ q @ B))"
    "set (map snd (A @ q @ B)) \<subseteq> set (waitqueue s)" "current_tsk s \<notin> set (map snd (A @ q @ B))"
    "\<And>w. w \<in> set (map fst (A @ q @ B)) \<Longrightarrow> \<exists>l. (unat w, l) \<in> L"
    using ok unfolding waits_ok_def aw by blast+
  have "\<exists>l. (unat w, l) \<in> without L (nodes q)" if "w \<in> set (map fst (A @ B))" for w
  proof -
    have "w \<notin> nodes q" using that d(2) by (auto simp: nodes_def)
    then show ?thesis using d(5) [of w] that without_in [of w _ L] by fastforce
  qed
  moreover have "set (map snd (A @ B)) \<subseteq> set (waitqueue s')"
    using d(1,3) by (auto simp: w sleepers_def)
  ultimately show ?thesis using d unfolding waits_ok_def aw' c by auto
qed

lemma wake_net:
  assumes ok: "net_ok s L n" and aw: "all_waits s = A @ q @ B"
  obtains m pr where "waitqueue_wakeup q s = Some ([], woken q m pr s)" "sched_inv (woken q m pr s)"
    "heap_room (woken q m pr s) (without L (nodes q)) n" "keeps s (woken q m pr s) (without L (nodes q))"
proof -
  have inv: "sched_inv s" and room: "heap_room s L n" and wo: "waits_ok s L"
    using ok by (auto simp: net_ok_def)
  have "distinct (map snd q)" "distinct (map fst q)" "sleepers q \<subseteq> set (waitqueue s)"
    "current_tsk s \<notin> sleepers q" "\<forall>w \<in> nodes q. \<exists>l. (unat w, l) \<in> L"
    using wo unfolding waits_ok_def aw by (auto simp: sleepers_def nodes_def)
  then show thesis using waitqueue_wakeup_net [OF inv room, of q] that by blast
qed

text \<open>One lemma per wait queue of the stack: waking it empties it and keeps the system's invariant.\<close>

lemma wake_one:
  assumes ok: "net_ok s L n" and aw: "all_waits s = A @ q @ B"
    and aw': "\<And>m pr. all_waits (U (woken q m pr s)) = A @ B"
    and upd: "\<And>s. ram (U s) = ram s" "\<And>s. mem_free_list (U s) = mem_free_list s" "\<And>s. runqueue (U s) = runqueue s"
      "\<And>s. waitqueue (U s) = waitqueue s" "\<And>s. deadqueue (U s) = deadqueue s" "\<And>s. procs (U s) = procs s"
      "\<And>s. current_tsk (U s) = current_tsk s"
    and wk: "\<And>s'. waitqueue_wakeup q s = Some ([], s') \<Longrightarrow> wake s = Some (U s')"
  shows "\<exists>m pr. wake s = Some (U (woken q m pr s)) \<and> net_ok (U (woken q m pr s)) (without L (nodes q)) n
    \<and> keeps s (U (woken q m pr s)) (without L (nodes q))"
proof -
  obtain m pr where w: "waitqueue_wakeup q s = Some ([], woken q m pr s)" "sched_inv (woken q m pr s)"
    "heap_room (woken q m pr s) (without L (nodes q)) n" "keeps s (woken q m pr s) (without L (nodes q))"
    using wake_net [OF ok aw] by blast
  let ?s' = "U (woken q m pr s)"
  have wo: "waits_ok ?s' (without L (nodes q))"
    by (rule woken_waits [OF _ aw aw']) (use ok in \<open>simp_all add: upd net_ok_def\<close>)
  have "sched_inv ?s'" using w(2) by (simp add: sched_inv_def queued_def upd)
  moreover have "heap_room ?s' (without L (nodes q)) n" using w(3) by (simp add: heap_room_def upd)
  moreover have "keeps s ?s' (without L (nodes q))" using w(4) by (simp add: keeps_def upd)
  ultimately show ?thesis using wk [OF w(1)] wo by (auto simp: net_ok_def)
qed

text \<open>
  The contract of a wait queue: it is one of the queues of the system, setting it leaves the others and
  the scheduler alone, and its waking function is \<open>waitqueue_wakeup\<close> on it. \<open>before\<close> and \<open>after\<close> are the queues
  on either side of it in \<open>all_waits\<close>.
\<close>

locale wait_queue =
  fixes queue :: "'a net_scheme \<Rightarrow> waitqueue_t" and set_queue :: "waitqueue_t \<Rightarrow> 'a net_scheme \<Rightarrow> 'a net_scheme"
    and wake :: "'a net_scheme \<Rightarrow> 'a net_scheme option" and before after :: "'a net_scheme \<Rightarrow> waitqueue_t"
  assumes place: "all_waits s = before s @ queue s @ after s"
    and place_set: "all_waits (set_queue q (woken q' m pr s)) = before s @ q @ after s"
    and others: "ram (set_queue q s) = ram s" "mem_free_list (set_queue q s) = mem_free_list s" "runqueue (set_queue q s) = runqueue s"
      "waitqueue (set_queue q s) = waitqueue s" "deadqueue (set_queue q s) = deadqueue s" "procs (set_queue q s) = procs s"
      "current_tsk (set_queue q s) = current_tsk s"
    and wakes: "wake s = do { (q, s) \<leftarrow> waitqueue_wakeup (queue s) s; Some (set_queue q s) }"
begin

text \<open>Waking it empties it, makes its sleepers runnable, gives their nodes back and keeps the invariant.\<close>

lemma wake_ok:
  assumes "net_ok s L n"
  shows "\<exists>m pr. wake s = Some (set_queue [] (woken (queue s) m pr s))
    \<and> net_ok (set_queue [] (woken (queue s) m pr s)) (without L (nodes (queue s))) n
    \<and> keeps s (set_queue [] (woken (queue s) m pr s)) (without L (nodes (queue s)))"
  by (rule wake_one [OF assms place, of "set_queue []"]) (simp_all add: place_set others wakes)

end

interpretation rx_wq: wait_queue rx_waitq "\<lambda>q s. s\<lparr>rx_waitq := q\<rparr>" wake_rx
  "\<lambda>s. []" "\<lambda>s. ether_tx_waitq s @ arp_waitqueue s @ ip4_tx_waitq s @ udp_waitq s @ tcp_waitq s"
  by unfold_locales (simp_all add: all_waits_def wake_rx_def)

lemmas wake_rx_ok = rx_wq.wake_ok

interpretation ether_tx_wq: wait_queue ether_tx_waitq "\<lambda>q s. s\<lparr>ether_tx_waitq := q\<rparr>" wake_ether_tx
  "\<lambda>s. rx_waitq s" "\<lambda>s. arp_waitqueue s @ ip4_tx_waitq s @ udp_waitq s @ tcp_waitq s"
  by unfold_locales (simp_all add: all_waits_def wake_ether_tx_def)

lemmas wake_ether_tx_ok = ether_tx_wq.wake_ok

interpretation arp_wq: wait_queue arp_waitqueue "\<lambda>q s. s\<lparr>arp_waitqueue := q\<rparr>" wake_arp
  "\<lambda>s. rx_waitq s @ ether_tx_waitq s" "\<lambda>s. ip4_tx_waitq s @ udp_waitq s @ tcp_waitq s"
  by unfold_locales (simp_all add: all_waits_def wake_arp_def)

lemmas wake_arp_ok = arp_wq.wake_ok

interpretation ip4_tx_wq: wait_queue ip4_tx_waitq "\<lambda>q s. s\<lparr>ip4_tx_waitq := q\<rparr>" wake_ip4_tx
  "\<lambda>s. rx_waitq s @ ether_tx_waitq s @ arp_waitqueue s" "\<lambda>s. udp_waitq s @ tcp_waitq s"
  by unfold_locales (simp_all add: all_waits_def wake_ip4_tx_def)

lemmas wake_ip4_tx_ok = ip4_tx_wq.wake_ok

interpretation udp_wq: wait_queue udp_waitq "\<lambda>q s. s\<lparr>udp_waitq := q\<rparr>" wake_udp
  "\<lambda>s. rx_waitq s @ ether_tx_waitq s @ arp_waitqueue s @ ip4_tx_waitq s" "\<lambda>s. tcp_waitq s"
  by unfold_locales (simp_all add: all_waits_def wake_udp_def)

lemmas wake_udp_ok = udp_wq.wake_ok

interpretation tcp_wq: wait_queue tcp_waitq "\<lambda>q s. s\<lparr>tcp_waitq := q\<rparr>" wake_tcp
  "\<lambda>s. rx_waitq s @ ether_tx_waitq s @ arp_waitqueue s @ ip4_tx_waitq s @ udp_waitq s" "\<lambda>s. []"
  by unfold_locales (simp_all add: all_waits_def wake_tcp_def)

lemmas wake_tcp_ok = tcp_wq.wake_ok

subsection \<open>What allocation, writing and release do to the system\<close>

lemma net_okD:
  assumes "net_ok s L n"
  shows "sched_inv s" "heap_room s L n" "waits_ok s L" "heap_rep s L"
  using assms heap_room_rep by (auto simp: net_ok_def)

text \<open>The invariant reads the RAM, the scheduler's fields and the wait queues only.\<close>

lemma net_ok_cong [simp]:
  "net_ok (s\<lparr>primask := b\<rparr>) L n = net_ok s L n" "net_ok (s\<lparr>pkts := x1\<rparr>) L n = net_ok s L n"
  "net_ok (s\<lparr>pkt_rx_q := x2\<rparr>) L n = net_ok s L n" "net_ok (s\<lparr>ether_objs := x3\<rparr>) L n = net_ok s L n"
  "net_ok (s\<lparr>ether_tx_queue := x4\<rparr>) L n = net_ok s L n" "net_ok (s\<lparr>no_dropped_packets := x5\<rparr>) L n = net_ok s L n"
  "net_ok (s\<lparr>arp_entries := x6\<rparr>) L n = net_ok s L n" "net_ok (s\<lparr>arp_table_head := x7\<rparr>) L n = net_ok s L n"
  "net_ok (s\<lparr>arp_reqs := x8\<rparr>) L n = net_ok s L n" "net_ok (s\<lparr>arp_pending_requests := x9\<rparr>) L n = net_ok s L n"
  "net_ok (s\<lparr>ip4_objs := y1\<rparr>) L n = net_ok s L n" "net_ok (s\<lparr>ip4_tx_queue := y2\<rparr>) L n = net_ok s L n"
  "net_ok (s\<lparr>listeners := y3\<rparr>) L n = net_ok s L n" "net_ok (s\<lparr>udp_rx_requests := y4\<rparr>) L n = net_ok s L n"
  "net_ok (s\<lparr>tcbs := y5\<rparr>) L n = net_ok s L n" "net_ok (s\<lparr>tcb_head := y6\<rparr>) L n = net_ok s L n"
  "net_ok (s\<lparr>protocol_head := y7\<rparr>) L n = net_ok s L n"
  by (simp_all add: net_ok_def sched_inv_def queued_def waits_ok_def all_waits_def heap_room_def)

lemma waits_ok_grow: "waits_ok s L \<Longrightarrow> L \<subseteq> K \<Longrightarrow> waits_ok s K"
  unfolding waits_ok_def by blast

lemma waits_ok_ram [simp]: "waits_ok (s\<lparr>ram := m\<rparr>) L = waits_ok s L"
  by (simp add: waits_ok_def all_waits_def)

lemma sched_inv_ram [simp]: "sched_inv (s\<lparr>ram := m\<rparr>) = sched_inv s"
  by (simp add: sched_inv_def queued_def)

lemma net_ok_mono: "net_ok s L n \<Longrightarrow> k \<le> n \<Longrightarrow> net_ok s L k"
  using heap_room_mono by (auto simp: net_ok_def)

lemma get_mem_net:
  assumes ok: "net_ok s L (n + block_size_of (unat r))" and r: "request_ok r" and n: "n = 0 \<or> 16 \<le> n"
  obtains p m l where "get_mem r s = Some (p, s\<lparr>ram := m\<rparr>)" "unat r \<le> l"
    "net_ok (s\<lparr>ram := m\<rparr>) (insert (unat p, l) L) n" "\<And>k. (unat p, k) \<notin> L" "keeps s (s\<lparr>ram := m\<rparr>) L"
proof -
  obtain p s' l where g: "get_mem r s = Some (p, s')" "unat r \<le> l" "heap_room s' (insert (unat p, l) L) n"
    "\<And>k. (unat p, k) \<notin> L" "\<And>b x. b \<in> L \<Longrightarrow> in_buf b x \<Longrightarrow> ram s' x = ram s x" "\<exists>m. s' = s\<lparr>ram := m\<rparr>"
    using get_mem_room [OF net_okD(2) [OF ok] r n] by blast
  obtain m where m: "s' = s\<lparr>ram := m\<rparr>" using g(6) by blast
  have "net_ok s' (insert (unat p, l) L) n"
    using g(3) net_okD [OF ok] waits_ok_grow [of s L "insert (unat p, l) L"] by (auto simp: net_ok_def m)
  then show thesis using that [of p m l] g unfolding m keeps_def by blast
qed

text \<open>Changing bytes within \<open>len\<close> bytes at offset \<open>k\<close> of a live buffer.\<close>

lemma change_net:
  assumes ok: "net_ok s L n" and p: "(unat p, l) \<in> L" and k: "k + len \<le> l"
    and ch: "\<And>x. \<not> in_range (p + of_nat k) len x \<Longrightarrow> m x = ram s x"
  shows "net_ok (s\<lparr>ram := m\<rparr>) L n" and "keeps s (s\<lparr>ram := m\<rparr>) (L - {(unat p, l)})"
proof -
  have rep: "heap_rep s L" using net_okD(4) [OF ok] .
  have in_p: "in_buf (unat p, l) x" if "m x \<noteq> ram s x" for x
    using ch [of x] that in_buf_range [OF rep p k] by blast
  then have "heap_room (s\<lparr>ram := m\<rparr>) L n"
    using heap_room_change [OF net_okD(2) [OF ok]] p by blast
  then show "net_ok (s\<lparr>ram := m\<rparr>) L n"
    using net_okD [OF ok] by (simp add: net_ok_def)
  show "keeps s (s\<lparr>ram := m\<rparr>) (L - {(unat p, l)})"
  proof (unfold keeps_def, intro ballI allI impI)
    fix b x assume b: "b \<in> L - {(unat p, l)}" "in_buf b x"
    then have "apart b (unat p, l)" using heap_rep_apart [OF rep _ p] by blast
    then have "\<not> in_buf (unat p, l) x" using b(2) by (cases b) (auto simp: apart_def in_buf_def)
    then show "ram (s\<lparr>ram := m\<rparr>) x = ram s x" using in_p by fastforce
  qed
qed

text \<open>Writing bytes at offset \<open>k\<close> of a live buffer.\<close>

lemma write_net:
  assumes ok: "net_ok s L n" and p: "(unat p, l) \<in> L" and k: "k + length bs \<le> l"
  shows "net_ok (s\<lparr>ram := write_bytes (p + of_nat k) bs (ram s)\<rparr>) L n"
    and "keeps s (s\<lparr>ram := write_bytes (p + of_nat k) bs (ram s)\<rparr>) (L - {(unat p, l)})"
proof -
  have len: "length bs \<le> 2 ^ 32" using heap_rep_bounds [OF net_okD(4) [OF ok] p] k by (simp add: heap_base_def heap_size_def)
  note c = change_net [OF ok p k, of "write_bytes (p + of_nat k) bs (ram s)", OF write_bytes_frame [OF len]]
  show "net_ok (s\<lparr>ram := write_bytes (p + of_nat k) bs (ram s)\<rparr>) L n" by (rule c(1))
  show "keeps s (s\<lparr>ram := write_bytes (p + of_nat k) bs (ram s)\<rparr>) (L - {(unat p, l)})" by (rule c(2))
qed

lemma free_mem_net:
  assumes ok: "net_ok s L n" and p: "(unat p, l) \<in> L" and w: "p \<notin> nodes (all_waits s)"
  obtains m where "free_mem p s = s\<lparr>ram := m\<rparr>" "net_ok (s\<lparr>ram := m\<rparr>) (without L {p}) n"
    "keeps s (s\<lparr>ram := m\<rparr>) (without L {p})"
proof -
  obtain m where m: "free_mem p s = s\<lparr>ram := m\<rparr>" by (rule free_mem_ram)
  have one: "L - {(unat p, l)} = without L {p}" by (rule without_one [OF net_okD(4) [OF ok] p])
  have room: "heap_room (s\<lparr>ram := m\<rparr>) (without L {p}) n"
    using free_mem_room [OF net_okD(2) [OF ok] p] unfolding m one .
  have keep: "keeps s (s\<lparr>ram := m\<rparr>) (without L {p})"
    using free_mem_heap_rep(2) [OF net_okD(4) [OF ok] p] unfolding keeps_def m one [symmetric] by auto
  have "waits_ok s (without L {p})"
  proof -
    have "\<exists>l. (unat v, l) \<in> without L {p}" if "v \<in> set (map fst (all_waits s))" for v
    proof -
      have "v \<notin> {p}" using that w by (auto simp: nodes_def)
      then show ?thesis using net_okD(3) [OF ok] that without_in [of v _ L "{p}"] unfolding waits_ok_def by blast
    qed
    then show ?thesis using net_okD(3) [OF ok] unfolding waits_ok_def by blast
  qed
  with room net_okD(1) [OF ok] have "net_ok (s\<lparr>ram := m\<rparr>) (without L {p}) n" by (simp add: net_ok_def)
  from that [OF m this keep] show thesis .
qed

text \<open>An element and its payload are given back together.\<close>

lemma free_two_net:
  assumes ok: "net_ok s L n" and p: "(unat p, l) \<in> L" "(unat q, k) \<in> L" "p \<noteq> q"
    and w: "p \<notin> nodes (all_waits s)" "q \<notin> nodes (all_waits s)"
  obtains m where "free_mem q (free_mem p s) = s\<lparr>ram := m\<rparr>" "net_ok (s\<lparr>ram := m\<rparr>) (without L {q, p}) n"
    "keeps s (s\<lparr>ram := m\<rparr>) (without L {q, p})"
proof (rule free_mem_net [OF ok p(1) w(1)])
  fix m1 assume f1: "free_mem p s = s\<lparr>ram := m1\<rparr>" "net_ok (s\<lparr>ram := m1\<rparr>) (without L {p}) n"
    "keeps s (s\<lparr>ram := m1\<rparr>) (without L {p})"
  have q: "(unat q, k) \<in> without L {p}" by (rule without_in [OF p(2)]) (use p(3) in auto)
  have w2: "q \<notin> nodes (all_waits (s\<lparr>ram := m1\<rparr>))" using w(2) by (simp add: all_waits_def)
  have L: "without (without L {p}) {q} = without L {q, p}" by (simp add: without_without)
  show thesis
  proof (rule free_mem_net [OF f1(2) q w2])
    fix m2 assume f2: "free_mem q (s\<lparr>ram := m1\<rparr>) = s\<lparr>ram := m1\<rparr>\<lparr>ram := m2\<rparr>"
      "net_ok (s\<lparr>ram := m1\<rparr>\<lparr>ram := m2\<rparr>) (without (without L {p}) {q}) n"
      "keeps (s\<lparr>ram := m1\<rparr>) (s\<lparr>ram := m1\<rparr>\<lparr>ram := m2\<rparr>) (without (without L {p}) {q})"
    have "keeps s (s\<lparr>ram := m2\<rparr>) (without L {q, p})"
      using f1(3) f2(3) unfolding L keeps_def by (auto simp: without_def)
    then show thesis using that [of m2] f1(1) f2(1,2) unfolding L by simp
  qed
qed

text \<open>A fresh address is not that of a sleeper.\<close>

lemma fresh_not_node:
  assumes "net_ok s L n" "\<And>k. (unat p, k) \<notin> L"
  shows "p \<notin> nodes (all_waits s)"
  using net_okD(3) [OF assms(1)] assms(2) by (auto simp: waits_ok_def nodes_def)

lemma fresh_not_nodes:
  assumes "net_ok s L n" "\<And>k. (unat p, k) \<notin> L"
  shows "p \<notin> nodes (rx_waitq s)" "p \<notin> nodes (ether_tx_waitq s)" "p \<notin> nodes (arp_waitqueue s)"
    "p \<notin> nodes (ip4_tx_waitq s)" "p \<notin> nodes (udp_waitq s)" "p \<notin> nodes (tcp_waitq s)"
  using fresh_not_node [OF assms] by (simp_all add: nodes_def all_waits_def)

text \<open>The \<open>n\<close> bytes from \<open>p\<close> on lie in live buffers, so they survive what keeps these.\<close>

definition live_bytes :: "ledger \<Rightarrow> u32 \<Rightarrow> nat \<Rightarrow> bool" where
  "live_bytes L p n \<longleftrightarrow> (\<forall>i < n. \<exists>b \<in> L. in_buf b (p + of_nat i))"

lemma read_bytes_keeps: "keeps s s' L \<Longrightarrow> live_bytes L p n \<Longrightarrow> read_bytes (ram s') p n = read_bytes (ram s) p n"
  by (rule read_bytes_cong) (auto simp: keeps_def live_bytes_def)

lemma live_bytes_mono: "live_bytes L p n \<Longrightarrow> L \<subseteq> K \<Longrightarrow> live_bytes K p n"
  unfolding live_bytes_def by blast

lemma live_bytes_buf:
  assumes "heap_rep s L" "(unat p, l) \<in> L" "k + n \<le> l"
  shows "live_bytes {(unat p, l)} (p + of_nat k) n"
proof (unfold live_bytes_def, intro allI impI)
  fix i assume i: "i < n"
  have "n \<le> 2 ^ 32" using heap_rep_bounds [OF assms(1,2)] assms(3) by (simp add: heap_base_def heap_size_def)
  then have "in_range (p + of_nat k) n (p + of_nat k + of_nat i)" using i by (simp add: in_range_def)
  then show "\<exists>b \<in> {(unat p, l)}. in_buf b (p + of_nat k + of_nat i)"
    using in_buf_range [OF assms] by blast
qed

lemma live_bytes_without:
  assumes "live_bytes L p n" "\<And>b. b \<in> L \<Longrightarrow> \<exists>i < n. in_buf b (p + of_nat i) \<Longrightarrow> b \<in> without L A"
  shows "live_bytes (without L A) p n"
  using assms unfolding live_bytes_def by blast

subsection \<open>A queue element and a copy of its payload\<close>

text \<open>
  The transmit functions allocate an element and a buffer and copy the caller's payload into the
  buffer.
\<close>

lemma get_copy_net:
  assumes ok: "net_ok s L (n + block_size_of (unat len) + block_size_of (unat sz))"
    and sz: "request_ok sz" and len: "request_ok len" and n: "n = 0 \<or> 16 \<le> n"
    and src: "live_bytes L src (unat len)"
  obtains obj m0 buf m1 lo lb where "get_mem sz s = Some (obj, s\<lparr>ram := m0\<rparr>)"
    "get_mem len (s\<lparr>ram := m0\<rparr>) = Some (buf, s\<lparr>ram := m1\<rparr>)" "unat sz \<le> lo" "unat len \<le> lb"
    "net_ok (s\<lparr>ram := memcpy buf src (unat len) m1\<rparr>) (insert (unat buf, lb) (insert (unat obj, lo) L)) n"
    "read_bytes (memcpy buf src (unat len) m1) buf (unat len) = read_bytes (ram s) src (unat len)"
    "keeps s (s\<lparr>ram := memcpy buf src (unat len) m1\<rparr>) L" "\<And>k. (unat obj, k) \<notin> L"
    "\<And>k. (unat buf, k) \<notin> L" "obj \<noteq> buf"
proof -
  have n': "n + block_size_of (unat len) = 0 \<or> 16 \<le> n + block_size_of (unat len)"
    using block_size_of_facts(1) [of "unat len"] by linarith
  obtain obj m0 lo where a: "get_mem sz s = Some (obj, s\<lparr>ram := m0\<rparr>)" "unat sz \<le> lo"
    "net_ok (s\<lparr>ram := m0\<rparr>) (insert (unat obj, lo) L) (n + block_size_of (unat len))"
    "\<And>k. (unat obj, k) \<notin> L" "keeps s (s\<lparr>ram := m0\<rparr>) L"
    using get_mem_net [OF ok sz n'] by blast
  obtain buf m1 lb where "get_mem len (s\<lparr>ram := m0\<rparr>) = Some (buf, s\<lparr>ram := m0\<rparr>\<lparr>ram := m1\<rparr>)" "unat len \<le> lb"
    "net_ok (s\<lparr>ram := m0\<rparr>\<lparr>ram := m1\<rparr>) (insert (unat buf, lb) (insert (unat obj, lo) L)) n"
    "\<And>k. (unat buf, k) \<notin> insert (unat obj, lo) L" "keeps (s\<lparr>ram := m0\<rparr>) (s\<lparr>ram := m0\<rparr>\<lparr>ram := m1\<rparr>) (insert (unat obj, lo) L)"
    using get_mem_net [OF a(3) len n] by blast
  then have b: "get_mem len (s\<lparr>ram := m0\<rparr>) = Some (buf, s\<lparr>ram := m1\<rparr>)" "unat len \<le> lb"
    "net_ok (s\<lparr>ram := m1\<rparr>) (insert (unat buf, lb) (insert (unat obj, lo) L)) n"
    "\<And>k. (unat buf, k) \<notin> L" "obj \<noteq> buf"
    "keeps (s\<lparr>ram := m0\<rparr>) (s\<lparr>ram := m1\<rparr>) (insert (unat obj, lo) L)"
    by auto
  have k1: "keeps s (s\<lparr>ram := m1\<rparr>) L"
    by (rule keeps_trans [OF a(5) keeps_subset [OF b(6)]]) blast
  let ?K = "insert (unat buf, lb) (insert (unat obj, lo) L)" and ?bs = "read_bytes m1 src (unat len)"
  have w: "net_ok (s\<lparr>ram := memcpy buf src (unat len) m1\<rparr>) ?K n"
    "keeps (s\<lparr>ram := m1\<rparr>) (s\<lparr>ram := memcpy buf src (unat len) m1\<rparr>) (?K - {(unat buf, lb)})"
    using write_net [OF b(3), of buf lb 0 ?bs] b(2) by (simp_all add: memcpy_def)
  have "L \<subseteq> ?K - {(unat buf, lb)}" using b(4) by auto
  then have k2: "keeps s (s\<lparr>ram := memcpy buf src (unat len) m1\<rparr>) L"
    using keeps_trans [OF k1] keeps_subset [OF w(2)] by blast
  have "?bs = read_bytes (ram s) src (unat len)" using read_bytes_keeps [OF k1 src] by simp
  moreover have "read_bytes (memcpy buf src (unat len) m1) buf (unat len) = ?bs"
    using read_write_bytes [of ?bs buf m1] unat_bound [of len] by (simp add: memcpy_def)
  ultimately show thesis using that [OF a(1) b(1) a(2) b(2) w(1) _ k2 a(4) b(4,5)] by simp
qed

end
