(* ===== verification/Protocol.thy ===== *)
theory Protocol
  imports Net
begin

text \<open>
  \<open>protocol.c\<close> without its receive task (\<open>Rx_Task\<close>): the life of a \<open>packet_t\<close> from the interrupt
  handler to the queue of received packets, and the table of protocols.
\<close>

unbundle bit_operations_syntax

definition sizeof_packet_t :: u32 where
  "sizeof_packet_t = 36"

definition set_pkt :: "u32 \<Rightarrow> (packet_t \<Rightarrow> packet_t) \<Rightarrow> 'a net_scheme \<Rightarrow> 'a net_scheme" where
  "set_pkt pkt f s = s\<lparr>pkts := (pkts s)(pkt := f (pkts s pkt))\<rparr>"

definition packet_create :: "u32 \<Rightarrow> u32 \<Rightarrow> 'a net_scheme \<Rightarrow> (u32 \<times> 'a net_scheme) option" where
  "packet_create frame frame_len s =
     do {
       (ret, s) \<leftarrow> get_mem sizeof_packet_t s;
       Some (ret, set_pkt ret (\<lambda>p. p\<lparr>pkt_data := frame, pkt_cur_data := frame,
         pkt_data_length := frame_len, pkt_cur_data_length := frame_len\<rparr>) s)
     }"

definition packet_destroy :: "u32 \<Rightarrow> 'a net_scheme \<Rightarrow> 'a net_scheme" where
  "packet_destroy pkt s = free_mem pkt (free_mem (pkt_data (pkts s pkt)) s)"

text \<open>Linking a packet that is already queued would destroy the queue.\<close>

definition packet_inject :: "u32 \<Rightarrow> protocol_type \<Rightarrow> 'a net_scheme \<Rightarrow> 'a net_scheme option" where
  "packet_inject pkt type s =
     do {
       let (flags, s) = irq_disable s;
       let s = set_pkt pkt (\<lambda>p. p\<lparr>pkt_handler := type\<rparr>) s;
       s \<leftarrow> (if pkt \<in> set (pkt_rx_q s) then None else Some (s\<lparr>pkt_rx_q := pkt # pkt_rx_q s\<rparr>));
       s \<leftarrow> wake_rx s;
       Some (irq_enable flags s)
     }"

definition protocol_register :: "protocol_type \<Rightarrow> 'a net_scheme \<Rightarrow> 'a net_scheme option" where
  "protocol_register protocol s =
     (if protocol \<in> set (protocol_head s) then None
      else Some (s\<lparr>protocol_head := protocol # protocol_head s\<rparr>))"

definition resolve_pkt_protocol :: "u32 \<Rightarrow> 'a net_scheme \<Rightarrow> protocol_type option" where
  "resolve_pkt_protocol pkt s = List.find (\<lambda>proto. proto = pkt_handler (pkts s pkt)) (protocol_head s)"

lemma find_eq: "List.find (\<lambda>y. y = x) xs = (if x \<in> set xs then Some x else None)"
  by (induction xs) auto

lemma resolve_pkt_protocol_eq:
  "resolve_pkt_protocol pkt s =
     (if pkt_handler (pkts s pkt) \<in> set (protocol_head s) then Some (pkt_handler (pkts s pkt)) else None)"
  by (simp add: resolve_pkt_protocol_def find_eq)

lemma packet_inject_ok:
  assumes ok: "net_ok s L n" and new: "pkt \<notin> set (pkt_rx_q s)"
  obtains m pr where "packet_inject pkt type s =
      Some ((woken (rx_waitq s) m pr (set_pkt pkt (\<lambda>p. p\<lparr>pkt_handler := type\<rparr>) s))\<lparr>pkt_rx_q := pkt # pkt_rx_q s, rx_waitq := []\<rparr>)"
    "net_ok ((woken (rx_waitq s) m pr (set_pkt pkt (\<lambda>p. p\<lparr>pkt_handler := type\<rparr>) s))\<lparr>pkt_rx_q := pkt # pkt_rx_q s, rx_waitq := []\<rparr>)
       (without L (nodes (rx_waitq s))) n"
    "keeps s ((woken (rx_waitq s) m pr (set_pkt pkt (\<lambda>p. p\<lparr>pkt_handler := type\<rparr>) s))\<lparr>pkt_rx_q := pkt # pkt_rx_q s, rx_waitq := []\<rparr>)
       (without L (nodes (rx_waitq s)))"
proof -
  let ?f = "\<lambda>p. p\<lparr>pkt_handler := type\<rparr>"
  let ?s1 = "(set_pkt pkt ?f (s\<lparr>primask := True\<rparr>))\<lparr>pkt_rx_q := pkt # pkt_rx_q s\<rparr>"
  have ok1: "net_ok ?s1 L n" using ok by (simp add: set_pkt_def)
  obtain m pr where w: "wake_rx ?s1 = Some ((woken (rx_waitq s) m pr ?s1)\<lparr>rx_waitq := []\<rparr>)"
    "net_ok ((woken (rx_waitq s) m pr ?s1)\<lparr>rx_waitq := []\<rparr>) (without L (nodes (rx_waitq s))) n"
    "keeps ?s1 ((woken (rx_waitq s) m pr ?s1)\<lparr>rx_waitq := []\<rparr>) (without L (nodes (rx_waitq s)))"
    using wake_rx_ok [OF ok1] by (auto simp: set_pkt_def)
  let ?s2 = "(woken (rx_waitq s) m pr (set_pkt pkt ?f s))\<lparr>pkt_rx_q := pkt # pkt_rx_q s, rx_waitq := []\<rparr>"
  have eq: "?s2 = ((woken (rx_waitq s) m pr ?s1)\<lparr>rx_waitq := []\<rparr>)\<lparr>primask := primask s\<rparr>"
    by (simp add: set_pkt_def)
  have "packet_inject pkt type s = Some ?s2"
    using new w(1) unfolding eq by (simp add: packet_inject_def irq_defs set_pkt_def)
  moreover have "net_ok ?s2 (without L (nodes (rx_waitq s))) n" using w(2) unfolding eq by simp
  moreover have "keeps s ?s2 (without L (nodes (rx_waitq s)))" using w(3) by (simp add: keeps_def set_pkt_def)
  ultimately show thesis by (rule that)
qed

lemma packet_create_ok:
  assumes ok: "net_ok s L (n + block_size_of 36)" and n: "n = 0 \<or> 16 \<le> n"
  obtains pkt m l where "packet_create frame len s =
      Some (pkt, s\<lparr>ram := m, pkts := (pkts s)(pkt := (pkts s pkt)\<lparr>pkt_data := frame, pkt_cur_data := frame,
         pkt_data_length := len, pkt_cur_data_length := len\<rparr>)\<rparr>)"
    "36 \<le> l" "net_ok (s\<lparr>ram := m\<rparr>) (insert (unat pkt, l) L) n" "\<And>k. (unat pkt, k) \<notin> L" "keeps s (s\<lparr>ram := m\<rparr>) L"
proof -
  have "request_ok 36" by (simp add: request_ok_def)
  from get_mem_net [OF _ this n, of s L] ok obtain pkt m l where "get_mem 36 s = Some (pkt, s\<lparr>ram := m\<rparr>)" "36 \<le> l"
    "net_ok (s\<lparr>ram := m\<rparr>) (insert (unat pkt, l) L) n" "\<And>k. (unat pkt, k) \<notin> L" "keeps s (s\<lparr>ram := m\<rparr>) L"
    by auto
  then show thesis by (intro that) (simp_all add: packet_create_def sizeof_packet_t_def set_pkt_def)
qed

text \<open>The life of a packet: destroying it gives back its frame and the packet itself.\<close>

lemma packet_destroy_ok:
  assumes ok: "net_ok s L n" and p: "(unat pkt, l) \<in> L" "(unat (pkt_data (pkts s pkt)), k) \<in> L"
    and ne: "pkt_data (pkts s pkt) \<noteq> pkt" and w: "pkt \<notin> nodes (all_waits s)" "pkt_data (pkts s pkt) \<notin> nodes (all_waits s)"
  obtains m where "packet_destroy pkt s = s\<lparr>ram := m\<rparr>"
    "net_ok (s\<lparr>ram := m\<rparr>) (without L {pkt, pkt_data (pkts s pkt)}) n"
    "keeps s (s\<lparr>ram := m\<rparr>) (without L {pkt, pkt_data (pkts s pkt)})"
proof -
  let ?d = "pkt_data (pkts s pkt)"
  obtain m where m: "free_mem ?d s = s\<lparr>ram := m\<rparr>" "net_ok (s\<lparr>ram := m\<rparr>) (without L {?d}) n"
    "keeps s (s\<lparr>ram := m\<rparr>) (without L {?d})"
    using free_mem_net [OF ok p(2) w(2)] .
  have p': "(unat pkt, l) \<in> without L {?d}" using without_in [OF p(1), of "{?d}"] ne by auto
  have w': "pkt \<notin> nodes (all_waits (s\<lparr>ram := m\<rparr>))" using w(1) by (simp add: all_waits_def)
  obtain m' where m': "free_mem pkt (s\<lparr>ram := m\<rparr>) = s\<lparr>ram := m\<rparr>\<lparr>ram := m'\<rparr>"
    "net_ok (s\<lparr>ram := m\<rparr>\<lparr>ram := m'\<rparr>) (without (without L {?d}) {pkt}) n"
    "keeps (s\<lparr>ram := m\<rparr>) (s\<lparr>ram := m\<rparr>\<lparr>ram := m'\<rparr>) (without (without L {?d}) {pkt})"
    using free_mem_net [OF m(2) p' w'] .
  have L: "without (without L {?d}) {pkt} = without L {pkt, ?d}"
    by (simp add: without_without insert_commute)
  have "keeps s (s\<lparr>ram := m'\<rparr>) (without L {pkt, ?d})"
    using keeps_trans [OF keeps_subset [OF m(3)] m'(3)] without_mono [of "{?d}" "{pkt, ?d}" L] unfolding L by simp
  then show thesis using that [of m'] m(1) m'(1,2) unfolding L by (simp add: packet_destroy_def)
qed

end
