(* ===== verification/Emac.thy ===== *)
theory Emac
  imports Protocol
begin

text \<open>
  The driver of the Ethernet MAC, \<open>emac.c\<close>. The MAC itself is hardware: what it has written into
  the descriptor and status arrays and into the produce index is part of the state that the
  functions read. \<open>emac_init\<close>, \<open>phy_read\<close> and \<open>phy_write\<close>, which talk to the registers, are in
  \<open>Device\<close> and \<open>Startup\<close>; the acknowledgement of the interrupt (\<open>IntClear\<close>) is not part of this state.
\<close>

unbundle bit_operations_syntax

definition DESC_LEN :: nat where
  "DESC_LEN = 12"

definition RX_FRAG_BUF_SZ :: u32 where
  "RX_FRAG_BUF_SZ = 127"

definition ETHER_ADDR_LEN :: nat where
  "ETHER_ADDR_LEN = 6"

definition mac_address :: "u8 list" where
  "mac_address = [0, 1, 2, 3, 4, 5]"

definition sizeof_ethernet_header :: u32 where
  "sizeof_ethernet_header = 14"

subsection \<open>Initialisation\<close>

text \<open>The receive buffers that \<open>emac_init\<close> allocates.\<close>

fun alloc_rx_bufs :: "nat list \<Rightarrow> 'a net_scheme \<Rightarrow> 'a net_scheme option" where
  "alloc_rx_bufs [] s = Some s"
| "alloc_rx_bufs (i # is) s =
     do {
       (p, s) \<leftarrow> get_mem RX_FRAG_BUF_SZ s;
       alloc_rx_bufs is (s\<lparr>rx_desc := (rx_desc s)[i := (p, (RX_FRAG_BUF_SZ - 1) OR 0x80000000)]\<rparr>)
     }"

subsection \<open>Reception\<close>

text \<open>Append the fragment at \<open>frag\<close> to the current frame, or start a frame with it.\<close>

definition gather_fragment :: "u32 \<Rightarrow> u32 \<Rightarrow> 'a net_scheme \<Rightarrow> 'a net_scheme option" where
  "gather_fragment frag frag_len s =
     (if current_frame s \<noteq> 0
      then do {
        (new_frame_buf, s) \<leftarrow> get_mem (current_frame_len s + frag_len) s;
        let s = s\<lparr>ram := memcpy new_frame_buf (current_frame s) (unat (current_frame_len s)) (ram s)\<rparr>;
        let s = s\<lparr>ram := memcpy (new_frame_buf + frag_len) frag (unat frag_len) (ram s)\<rparr>;
        let s = free_mem (current_frame s) s;
        let s = s\<lparr>current_frame_len := current_frame_len s + frag_len\<rparr>;
        Some (s\<lparr>current_frame := new_frame_buf\<rparr>)
      }
      else do {
        (p, s) \<leftarrow> get_mem frag_len s;
        let s = s\<lparr>current_frame := p\<rparr>;
        let s = s\<lparr>ram := memcpy (current_frame s) frag (unat frag_len) (ram s)\<rparr>;
        Some (s\<lparr>current_frame_len := frag_len\<rparr>)
      })"

text \<open>The body of the loop of \<open>irq_enet\<close>.\<close>

definition irq_enet_turn :: "'a net_scheme \<Rightarrow> 'a net_scheme option" where
  "irq_enet_turn s =
     do {
       let desc_idx = unat (rx_consume_index s);
       let frag_len = (rx_status s ! desc_idx AND 0x7FF) + 1;
       let frag = fst (rx_desc s ! desc_idx);
       let status_info = rx_status s ! desc_idx;
       s \<leftarrow> gather_fragment frag frag_len s;
       s \<leftarrow> (if bit status_info 30
             then do {
               (pkt, s) \<leftarrow> packet_create (current_frame s) (current_frame_len s) s;
               s \<leftarrow> packet_inject pkt ETHERNET s;
               Some (s\<lparr>current_frame := 0, current_frame_len := 0\<rparr>)
             }
             else Some s);
       Some (s\<lparr>rx_consume_index := of_nat ((desc_idx + 1) mod DESC_LEN)\<rparr>)
     }"

text \<open>A fragment that is handled while the MAC produces more is one turn of the same loop.\<close>

partial_function (option) irq_enet :: "'a net_scheme \<Rightarrow> 'a net_scheme option" where
  "irq_enet s =
     (if rx_consume_index s \<noteq> rx_produce_index s
      then do { s \<leftarrow> irq_enet_turn s; irq_enet s }
      else Some s)"

subsection \<open>Transmission\<close>

text \<open>The bytes of a descriptor: the control word holds their number less one in its low 11 bits.\<close>

definition desc_bytes :: "mem \<Rightarrow> u32 \<times> u32 \<Rightarrow> u8 list" where
  "desc_bytes m = (\<lambda>(packet, control). read_bytes m packet (unat (control AND 0x7FF) + 1))"

definition emac_xmit_frame :: "u32 \<Rightarrow> u32 \<Rightarrow> u32 \<Rightarrow> 'a net_scheme \<Rightarrow> 'a net_scheme" where
  "emac_xmit_frame header payload payload_len s =
     (let desc_idx = unat (tx_produce_index s) mod DESC_LEN;
          s = s\<lparr>tx_desc := (tx_desc s)[desc_idx := (header, sizeof_ethernet_header - 1)]\<rparr>;
          desc_idx' = (unat (tx_produce_index s) + 1) mod DESC_LEN;
          s = s\<lparr>tx_desc := (tx_desc s)[desc_idx' := (payload, (payload_len - 1) OR 0x40000000)]\<rparr>;
          s = s\<lparr>tx_produce_index := of_nat ((desc_idx' + 1) mod DESC_LEN)\<rparr>
      in s\<lparr>tx_log := tx_log s @ [(desc_bytes (ram s) (tx_desc s ! desc_idx),
                                  desc_bytes (ram s) (tx_desc s ! desc_idx'))]\<rparr>)"

subsection \<open>What a transmission sends\<close>

lemma control_length:
  assumes "0 < unat len" "unat len \<le> 2048"
  shows "unat (((len - 1) OR 0x40000000) AND 0x7FF) + 1 = unat (len :: u32)"
proof -
  have m: "(0x7FF :: u32) = mask 11" by (simp add: mask_eq_exp_minus_1)
  have l: "unat (len - 1) = unat len - 1" using assms(1) by (simp add: unat_sub word_le_nat_alt Suc_leI)
  have "((len - 1) OR 0x40000000) AND 0x7FF = take_bit 11 (len - 1)"
    unfolding m take_bit_eq_mask [symmetric] take_bit_or
    by (simp add: take_bit_eq_mod)
  also have "\<dots> = len - 1"
    using l assms by (simp add: word_unat_eq_iff take_bit_eq_mod unat_mod_distrib)
  finally show ?thesis using l assms(1) by simp
qed

lemma net_ok_same:
  "net_ok s L n \<Longrightarrow> ram s' = ram s \<Longrightarrow> mem_free_list s' = mem_free_list s \<Longrightarrow> runqueue s' = runqueue s \<Longrightarrow>
   waitqueue s' = waitqueue s \<Longrightarrow> deadqueue s' = deadqueue s \<Longrightarrow> procs s' = procs s \<Longrightarrow>
   current_tsk s' = current_tsk s \<Longrightarrow> all_waits s' = all_waits s \<Longrightarrow> net_ok s' L n"
  by (simp add: net_ok_def sched_inv_def queued_def waits_ok_def heap_room_def)

lemma net_ok_emac_cong [simp]:
  "net_ok (s\<lparr>tx_desc := x1\<rparr>) L n = net_ok s L n" "net_ok (s\<lparr>tx_produce_index := x2\<rparr>) L n = net_ok s L n"
  "net_ok (s\<lparr>tx_log := x3\<rparr>) L n = net_ok s L n" "net_ok (s\<lparr>rx_desc := x4\<rparr>) L n = net_ok s L n"
  "net_ok (s\<lparr>current_frame := x5\<rparr>) L n = net_ok s L n" "net_ok (s\<lparr>current_frame_len := x6\<rparr>) L n = net_ok s L n"
  "net_ok (s\<lparr>rx_consume_index := x7\<rparr>) L n = net_ok s L n" "net_ok (s\<lparr>ether_addr := x8\<rparr>) L n = net_ok s L n"
  by (simp_all add: net_ok_def sched_inv_def queued_def waits_ok_def all_waits_def heap_room_def)

lemma next_index: "n mod 12 < 12" "Suc n mod 12 < 12" "n mod 12 \<noteq> Suc n mod (12 :: nat)"
  using mod_less_divisor [of 12] by simp_all (simp add: mod_Suc)

lemma emac_xmit_frame_log:
  assumes d: "length (tx_desc s) = DESC_LEN" and len: "0 < unat len" "unat len \<le> 2048"
  shows "\<exists>d i. emac_xmit_frame header payload len s = s\<lparr>tx_desc := d, tx_produce_index := i,
      tx_log := tx_log s @ [(read_bytes (ram s) header 14, read_bytes (ram s) payload (unat len))]\<rparr>
    \<and> length d = DESC_LEN"
proof -
  define i where "i = unat (tx_produce_index s) mod DESC_LEN"
  define j where "j = (unat (tx_produce_index s) + 1) mod DESC_LEN"
  have ij: "i < DESC_LEN" "j < DESC_LEN" "i \<noteq> j"
    using next_index [of "unat (tx_produce_index s)"] by (simp_all add: i_def j_def DESC_LEN_def)
  define D where "D = (tx_desc s)[i := (header, sizeof_ethernet_header - 1), j := (payload, (len - 1) OR 0x40000000)]"
  have "desc_bytes (ram s) (D ! i) = read_bytes (ram s) header 14"
  proof -
    have "D ! i = (header, 13)" using d ij by (simp add: D_def sizeof_ethernet_header_def)
    moreover have "Suc (unat (13 AND 0x7FF :: u32)) = 14" by simp
    ultimately show ?thesis by (simp only: desc_bytes_def prod.case Suc_eq_plus1)
  qed
  moreover have "desc_bytes (ram s) (D ! j) = read_bytes (ram s) payload (unat len)"
  proof -
    have "D ! j = (payload, (len - 1) OR 0x40000000)" using d ij by (simp add: D_def)
    then show ?thesis using control_length [OF len] by (simp only: desc_bytes_def prod.case)
  qed
  moreover have "length D = DESC_LEN" using d by (simp add: D_def)
  moreover have "emac_xmit_frame header payload len s = s\<lparr>tx_desc := D,
      tx_produce_index := of_nat ((j + 1) mod DESC_LEN),
      tx_log := tx_log s @ [(desc_bytes (ram s) (D ! i), desc_bytes (ram s) (D ! j))]\<rparr>"
    by (simp add: emac_xmit_frame_def Let_def i_def j_def D_def)
  ultimately show ?thesis by auto
qed

end
