(* ===== verification/Ethernet.thy ===== *)
theory Ethernet
  imports Emac
begin

text \<open>
  \<open>ethernet.c\<close>: the queue of outgoing frames, the task that builds their headers and hands them to
  the EMAC, and the first protocol handler of received packets. A MAC address passed by pointer is
  the list of its bytes.
\<close>

unbundle bit_operations_syntax

definition ETHERTYPE_IP :: u16 where
  "ETHERTYPE_IP = 0x0800"

definition ETHERTYPE_ARP :: u16 where
  "ETHERTYPE_ARP = 0x0806"

definition OUR_IP_ADDRESS :: u32 where
  "OUR_IP_ADDRESS = 0xC0A800ab"

definition IP_GATEWAY :: u32 where
  "IP_GATEWAY = 0xC0A80001"

definition NET_MASK :: u32 where
  "NET_MASK = 0xFFFFFF00"

definition sizeof_ether_tx_q_t :: u32 where
  "sizeof_ether_tx_q_t = 24"

definition ethernet_mac_equal :: "u8 list \<Rightarrow> u8 list \<Rightarrow> bool" where
  "ethernet_mac_equal a b \<longleftrightarrow> take ETHER_ADDR_LEN a = take ETHER_ADDR_LEN b"

definition ethernet_mac_copy :: "u8 list \<Rightarrow> u8 list" where
  "ethernet_mac_copy src = take ETHER_ADDR_LEN src"

subsection \<open>Transmission\<close>

definition set_ether_obj :: "u32 \<Rightarrow> (ether_tx_q_t \<Rightarrow> ether_tx_q_t) \<Rightarrow> 'a net_scheme \<Rightarrow> 'a net_scheme" where
  "set_ether_obj p f s = s\<lparr>ether_objs := (ether_objs s)(p := f (ether_objs s p))\<rparr>"

definition ether_tx :: "u8 list \<Rightarrow> u16 \<Rightarrow> u32 \<Rightarrow> u32 \<Rightarrow> 'a net_scheme \<Rightarrow> 'a net_scheme option" where
  "ether_tx dhost ety payload len s =
     do {
       (newPacket, s) \<leftarrow> get_mem sizeof_ether_tx_q_t s;
       (payload_copy, s) \<leftarrow> get_mem len s;
       let s = s\<lparr>ram := memcpy payload_copy payload (unat len) (ram s)\<rparr>;
       let s = set_ether_obj newPacket (\<lambda>q. q\<lparr>eq_dhost := ethernet_mac_copy dhost,
         eq_ether_type := ety, eq_payload := payload_copy, eq_payload_len := ucast len\<rparr>) s;
       let (flags, s) = irq_disable s;
       let s = s\<lparr>ether_tx_queue := newPacket # ether_tx_queue s\<rparr>;
       let s = irq_enable flags s;
       wake_ether_tx s
     }"

text \<open>The loop over the six bytes of the addresses.\<close>

definition fill_ether_addrs :: "u32 \<Rightarrow> u8 list \<Rightarrow> u8 list \<Rightarrow> mem \<Rightarrow> mem" where
  "fill_ether_addrs header dhost shost m =
     fold (\<lambda>i m. m(header + of_nat i := dhost ! i, header + 6 + of_nat i := shost ! i)) [0..<ETHER_ADDR_LEN] m"

definition ether_xmit_payload :: "u8 list \<Rightarrow> u16 \<Rightarrow> u32 \<Rightarrow> u32 \<Rightarrow> 'a net_scheme \<Rightarrow> 'a net_scheme option" where
  "ether_xmit_payload dhost ety payload len s =
     do {
       (header, s) \<leftarrow> get_mem sizeof_ethernet_header s;
       let s = s\<lparr>ram := fill_ether_addrs header dhost (ether_addr s) (ram s)\<rparr>;
       let s = s\<lparr>ram := store16 (header + 12) ety (ram s)\<rparr>;
       let s = s\<lparr>ram := swap_endian16 (header + 12) (ram s)\<rparr>;
       let s = emac_xmit_frame header payload len s;
       Some (free_mem header s)
     }"

text \<open>\<open>list_pop\<close> on the queue; 0 is the NULL it gives for an empty one.\<close>

definition ether_tx_pop :: "'a net_scheme \<Rightarrow> u32 \<times> 'a net_scheme" where
  "ether_tx_pop s = (case ether_tx_queue s of [] \<Rightarrow> (0, s) | p # ps \<Rightarrow> (p, s\<lparr>ether_tx_queue := ps\<rparr>))"

text \<open>
  One turn of \<open>ether_tx_task\<close>: it ends asleep on the wait queue (\<open>False\<close>) or after one frame.
\<close>

definition ether_tx_task_turn :: "'a net_scheme \<Rightarrow> (bool \<times> 'a net_scheme) option" where
  "ether_tx_task_turn s =
     do {
       (awake, s) \<leftarrow> wait_for_volatile_condition (\<lambda>s. ether_tx_queue s \<noteq> []) ether_tx_waitq
         (\<lambda>q s. s\<lparr>ether_tx_waitq := q\<rparr>) s;
       if \<not> awake then Some (False, s)
       else do {
         let (flags, s) = irq_disable s;
         let (txd_pkt, s) = ether_tx_pop s;
         let s = irq_enable flags s;
         if txd_pkt = 0 then Some (True, s)
         else do {
           let q = ether_objs s txd_pkt;
           s \<leftarrow> ether_xmit_payload (eq_dhost q) (eq_ether_type q) (eq_payload q) (ucast (eq_payload_len q)) s;
           let s = free_mem (eq_payload (ether_objs s txd_pkt)) s;
           Some (True, free_mem txd_pkt s)
         }
       }
     }"

subsection \<open>Reception\<close>

definition ethernet_rx_pkt :: "u32 \<Rightarrow> 'a net_scheme \<Rightarrow> 'a net_scheme" where
  "ethernet_rx_pkt pkt s =
     (let header = pkt_cur_data (pkts s pkt);
          s = set_pkt pkt (\<lambda>p. p\<lparr>pkt_cur_data := pkt_cur_data p + sizeof_ethernet_header\<rparr>) s;
          s = set_pkt pkt (\<lambda>p. p\<lparr>pkt_cur_data_length := pkt_cur_data_length p - sizeof_ethernet_header\<rparr>) s;
          s = s\<lparr>ram := swap_endian16 (header + 12) (ram s)\<rparr>;
          ety = load16 (ram s) (header + 12)
      in if ety = ETHERTYPE_ARP then set_pkt pkt (\<lambda>p. p\<lparr>pkt_handler := ARP\<rparr>) s
         else if ety = ETHERTYPE_IP then set_pkt pkt (\<lambda>p. p\<lparr>pkt_handler := IPV4\<rparr>) s
         else (set_pkt pkt (\<lambda>p. p\<lparr>pkt_handler := DROP\<rparr>) s)\<lparr>no_dropped_packets := no_dropped_packets s + 1\<rparr>)"

definition ethernet_init :: "'a net_scheme \<Rightarrow> 'a net_scheme option" where
  "ethernet_init s = protocol_register ETHERNET s"

subsection \<open>Queueing a frame\<close>

text \<open>The state after \<open>ether_tx\<close>: the new element in front of the queue, the sleepers woken.\<close>

abbreviation ether_queued :: "u32 \<Rightarrow> u8 list \<Rightarrow> u16 \<Rightarrow> u32 \<Rightarrow> u32 \<Rightarrow> mem \<Rightarrow> (u32 \<Rightarrow> process_t) \<Rightarrow> 'a net_scheme \<Rightarrow> 'a net_scheme" where
  "ether_queued obj dhost type buf len m pr s \<equiv> (woken (ether_tx_waitq s) m pr s)\<lparr>
     ether_objs := (ether_objs s)(obj := (ether_objs s obj)\<lparr>eq_dhost := dhost, eq_ether_type := type,
       eq_payload := buf, eq_payload_len := ucast len\<rparr>),
     ether_tx_queue := obj # ether_tx_queue s, ether_tx_waitq := []\<rparr>"

lemma ether_tx_ok:
  assumes ok: "net_ok s L (n + block_size_of (unat len) + block_size_of 24)"
    and len: "request_ok len" and n: "n = 0 \<or> 16 \<le> n"
    and src: "live_bytes L payload (unat len)" and dh: "length dhost = 6"
  obtains obj buf lo lb m pr where
    "ether_tx dhost type payload len s = Some (ether_queued obj dhost type buf len m pr s)"
    "net_ok (ether_queued obj dhost type buf len m pr s)
       (insert (unat buf, lb) (insert (unat obj, lo) (without L (nodes (ether_tx_waitq s))))) n"
    "24 \<le> lo" "unat len \<le> lb" "read_bytes m buf (unat len) = read_bytes (ram s) payload (unat len)"
    "keeps s (s\<lparr>ram := m\<rparr>) (without L (nodes (ether_tx_waitq s)))"
    "\<And>k. (unat obj, k) \<notin> L" "\<And>k. (unat buf, k) \<notin> L" "obj \<noteq> buf"
proof -
  have sz: "request_ok 24" by (simp add: request_ok_def)
  have u24: "unat (24 :: u32) = 24" by simp
  have ok': "net_ok s L (n + block_size_of (unat len) + block_size_of (unat (24 :: u32)))"
    using ok unfolding u24 .
  obtain obj m0 buf m1 lo lb where g: "get_mem 24 s = Some (obj, s\<lparr>ram := m0\<rparr>)"
    "get_mem len (s\<lparr>ram := m0\<rparr>) = Some (buf, s\<lparr>ram := m1\<rparr>)" "24 \<le> lo" "unat len \<le> lb"
    "net_ok (s\<lparr>ram := memcpy buf payload (unat len) m1\<rparr>) (insert (unat buf, lb) (insert (unat obj, lo) L)) n"
    "read_bytes (memcpy buf payload (unat len) m1) buf (unat len) = read_bytes (ram s) payload (unat len)"
    "keeps s (s\<lparr>ram := memcpy buf payload (unat len) m1\<rparr>) L" "\<And>k. (unat obj, k) \<notin> L"
    "\<And>k. (unat buf, k) \<notin> L" "obj \<noteq> buf"
    using get_copy_net [OF ok' sz len n src] unfolding u24 by blast
  let ?m = "memcpy buf payload (unat len) m1" and ?K = "insert (unat buf, lb) (insert (unat obj, lo) L)"
    and ?N = "nodes (ether_tx_waitq s)"
  let ?o = "(ether_objs s)(obj := (ether_objs s obj)\<lparr>eq_dhost := dhost, eq_ether_type := type,
    eq_payload := buf, eq_payload_len := ucast len\<rparr>)"
  let ?s1 = "s\<lparr>ram := ?m, ether_objs := ?o, ether_tx_queue := obj # ether_tx_queue s\<rparr>"
  have ok1: "net_ok ?s1 ?K n" using g(5) by simp
  obtain m pr where w: "wake_ether_tx ?s1 = Some ((woken (ether_tx_waitq ?s1) m pr ?s1)\<lparr>ether_tx_waitq := []\<rparr>)"
    "net_ok ((woken (ether_tx_waitq ?s1) m pr ?s1)\<lparr>ether_tx_waitq := []\<rparr>) (without ?K (nodes (ether_tx_waitq ?s1))) n"
    "keeps ?s1 ((woken (ether_tx_waitq ?s1) m pr ?s1)\<lparr>ether_tx_waitq := []\<rparr>) (without ?K (nodes (ether_tx_waitq ?s1)))"
    using wake_ether_tx_ok [OF ok1] by blast
  have fr: "obj \<notin> ?N" "buf \<notin> ?N"
    using fresh_not_nodes(2) [OF ok g(8)] fresh_not_nodes(2) [OF ok g(9)] .
  have K: "without ?K ?N = insert (unat buf, lb) (insert (unat obj, lo) (without L ?N))"
    using without_insert [OF fr(2)] without_insert [OF fr(1)] by simp
  have eq: "(woken (ether_tx_waitq ?s1) m pr ?s1)\<lparr>ether_tx_waitq := []\<rparr> = ether_queued obj dhost type buf len m pr s"
    by simp
  have run: "ether_tx dhost type payload len s = Some (ether_queued obj dhost type buf len m pr s)"
    using w(1) g(1,2) dh unfolding eq
    by (simp add: ether_tx_def sizeof_ether_tx_q_t_def set_ether_obj_def irq_defs ethernet_mac_copy_def ETHER_ADDR_LEN_def)
  have "live_bytes (without ?K ?N) buf (unat len)"
  proof -
    have b: "(unat buf, lb) \<in> ?K" by simp
    have "live_bytes {(unat buf, lb)} (buf + of_nat 0) (unat len)"
      by (rule live_bytes_buf [OF net_okD(4) [OF g(5)] b]) (use g(4) in simp)
    then show ?thesis unfolding K by (auto simp: live_bytes_def)
  qed
  then have "read_bytes m buf (unat len) = read_bytes ?m buf (unat len)"
    using read_bytes_keeps [OF w(3)] by simp
  then have rd: "read_bytes m buf (unat len) = read_bytes (ram s) payload (unat len)" using g(6) by simp
  have kp: "keeps s (s\<lparr>ram := m\<rparr>) (without L ?N)"
  proof -
    have "keeps s (s\<lparr>ram := ?m\<rparr>) (without L ?N)" by (rule keeps_subset [OF g(7)]) (auto simp: without_def)
    moreover have "keeps (s\<lparr>ram := ?m\<rparr>) (s\<lparr>ram := m\<rparr>) (without ?K ?N)"
      using w(3) by (simp add: keeps_def)
    then have "keeps (s\<lparr>ram := ?m\<rparr>) (s\<lparr>ram := m\<rparr>) (without L ?N)"
      by (rule keeps_subset) (simp only: K, blast)
    ultimately show ?thesis by (rule keeps_trans)
  qed
  have "net_ok (ether_queued obj dhost type buf len m pr s) (without ?K ?N) n"
    using w(2) unfolding eq by simp
  from that [OF run this [unfolded K] g(3,4) rd kp g(8,9,10)] show thesis .
qed

subsection \<open>Sending a frame\<close>

lemma six: "length xs = 6 \<longleftrightarrow> (\<exists>a b c d e f. xs = [a, b, c, d, e, f])"
  by (auto simp: length_Suc_conv eval_nat_numeral)

lemma fill_ether_addrs_eq:
  assumes "length dh = 6" "length sa = 6"
  shows "fill_ether_addrs h dh sa m = write_bytes h (dh @ sa) m"
proof -
  obtain a b c d e f where dh: "dh = [a, b, c, d, e, f]" using assms(1) by (auto simp: six)
  obtain a' b' c' d' e' f' where sa: "sa = [a', b', c', d', e', f']" using assms(2) by (auto simp: six)
  have u: "[0..<6] = [0, 1, 2, 3, 4, 5]" by (simp add: upt_rec)
  show ?thesis
    by (simp add: fill_ether_addrs_def ETHER_ADDR_LEN_def u dh sa) (simp add: fun_upd_def fun_eq_iff)
qed

lemma ether_header_bytes:
  assumes "length dh = 6" "length sa = 6"
  shows "swap_endian16 (h + 12) (store16 (h + 12) ty (fill_ether_addrs h dh sa m)) =
    write_bytes h (dh @ sa @ be16_bytes ty) m"
proof -
  have "swap_endian16 p (store16 p ty m) = write_bytes p (be16_bytes ty) m" for p m
    by (simp add: swap_endian16_def flip: le16_swap16) (simp add: store16_def le16_def)
  then show ?thesis
    unfolding append_assoc [symmetric] write_bytes_append [of h "dh @ sa"]
    using assms by (simp add: fill_ether_addrs_eq)
qed

lemma ether_xmit_payload_ok:
  assumes ok: "net_ok s L (n + block_size_of 14)" and n: "n = 0 \<or> 16 \<le> n"
    and len: "0 < unat len" "unat len \<le> 2048" and src: "live_bytes L payload (unat len)"
    and dh: "length dhost = 6" "length (ether_addr s) = 6" and d: "length (tx_desc s) = DESC_LEN"
  shows "\<exists>m d i. ether_xmit_payload dhost ty payload len s = Some (s\<lparr>ram := m, tx_desc := d, tx_produce_index := i,
      tx_log := tx_log s @ [(dhost @ ether_addr s @ be16_bytes ty, read_bytes (ram s) payload (unat len))]\<rparr>)
    \<and> net_ok (s\<lparr>ram := m\<rparr>) L n \<and> keeps s (s\<lparr>ram := m\<rparr>) L \<and> length d = DESC_LEN"
proof -
  have r: "request_ok 14" by (simp add: request_ok_def)
  have u: "unat (14 :: u32) = 14" by simp
  obtain h m0 l where g: "get_mem 14 s = Some (h, s\<lparr>ram := m0\<rparr>)" "14 \<le> l"
    "net_ok (s\<lparr>ram := m0\<rparr>) (insert (unat h, l) L) n" "\<And>k. (unat h, k) \<notin> L" "keeps s (s\<lparr>ram := m0\<rparr>) L"
    using get_mem_net [OF _ r n, of s L] ok unfolding u by blast
  let ?hd = "dhost @ ether_addr s @ be16_bytes ty"
  let ?m1 = "write_bytes h ?hd m0"
  have w: "net_ok (s\<lparr>ram := ?m1\<rparr>) (insert (unat h, l) L) n"
    "keeps (s\<lparr>ram := m0\<rparr>) (s\<lparr>ram := ?m1\<rparr>) (insert (unat h, l) L - {(unat h, l)})"
    using write_net [OF g(3), of h l 0 ?hd] g(2) dh by simp_all
  have k1: "keeps s (s\<lparr>ram := ?m1\<rparr>) L"
    by (rule keeps_trans [OF g(5)], rule keeps_subset [OF w(2)]) (use g(4) in auto)
  have hd: "read_bytes ?m1 h 14 = ?hd" using read_write_bytes [of ?hd h m0] dh by (simp del: read_bytes_numeral)
  have pl: "read_bytes ?m1 payload (unat len) = read_bytes (ram s) payload (unat len)"
    using read_bytes_keeps [OF k1 src] by simp
  obtain d' i where x: "emac_xmit_frame h payload len (s\<lparr>ram := ?m1\<rparr>) = s\<lparr>ram := ?m1\<rparr>\<lparr>tx_desc := d', tx_produce_index := i,
      tx_log := tx_log (s\<lparr>ram := ?m1\<rparr>) @ [(read_bytes (ram (s\<lparr>ram := ?m1\<rparr>)) h 14, read_bytes (ram (s\<lparr>ram := ?m1\<rparr>)) payload (unat len))]\<rparr>"
    "length d' = DESC_LEN"
    using emac_xmit_frame_log [of "s\<lparr>ram := ?m1\<rparr>" len h payload] d len by auto
  let ?s2 = "s\<lparr>ram := ?m1, tx_desc := d', tx_produce_index := i, tx_log := tx_log s @ [(?hd, read_bytes (ram s) payload (unat len))]\<rparr>"
  have x': "emac_xmit_frame h payload len (s\<lparr>ram := ?m1\<rparr>) = ?s2"
    using x(1) by (simp add: hd pl del: read_bytes_numeral)
  have ok2: "net_ok ?s2 (insert (unat h, l) L) n" using w(1) by simp
  have nn: "h \<notin> nodes (all_waits ?s2)" using fresh_not_node [OF ok g(4)] by (simp add: all_waits_def)
  obtain m2 where f: "free_mem h ?s2 = ?s2\<lparr>ram := m2\<rparr>" "net_ok (?s2\<lparr>ram := m2\<rparr>) (without (insert (unat h, l) L) {h}) n"
    "keeps ?s2 (?s2\<lparr>ram := m2\<rparr>) (without (insert (unat h, l) L) {h})"
    using free_mem_net [OF ok2 _ nn, of l] by blast
  have L: "without (insert (unat h, l) L) {h} = L" using g(4) by (auto simp: without_def)
  have "keeps s (s\<lparr>ram := m2\<rparr>) L"
    using keeps_trans [OF k1, of "s\<lparr>ram := m2\<rparr>"] f(3) unfolding L by (simp add: keeps_def)
  moreover have "net_ok (s\<lparr>ram := m2\<rparr>) L n"
    using f(2) unfolding L by (rule net_ok_same) (simp_all add: all_waits_def)
  moreover have "ether_xmit_payload dhost ty payload len s = Some (?s2\<lparr>ram := m2\<rparr>)"
    using g(1) x' f(1) ether_header_bytes [OF dh] by (simp add: ether_xmit_payload_def sizeof_ethernet_header_def)
  moreover have "?s2\<lparr>ram := m2\<rparr> = s\<lparr>ram := m2, tx_desc := d', tx_produce_index := i,
      tx_log := tx_log s @ [(?hd, read_bytes (ram s) payload (unat len))]\<rparr>" by simp
  ultimately show ?thesis using x(2) by metis
qed

subsection \<open>One turn of the transmit task\<close>

lemma unat_ucast16: "unat (ucast (w :: u16) :: u32) = unat w"
proof -
  have "unat w < 2 ^ 16" using unsigned_less [of w] by simp
  then show ?thesis by (simp add: unsigned_ucast_eq take_bit_nat_eq_self)
qed

lemma unat_ucast_down: "unat x < 65536 \<Longrightarrow> unat (ucast (x :: u32) :: u16) = unat x"
  by (simp add: unsigned_ucast_eq take_bit_nat_eq_self)

lemma unat16: "unat (w :: u16) < 65536"
  using unsigned_less [of w] by simp

lemma wait_true:
  "C (s\<lparr>primask := True\<rparr>) \<Longrightarrow> wait_for_volatile_condition C getq putq s = Some (True, s)"
  by (simp add: wait_for_volatile_condition_def irq_defs)

lemma without_frees: "without (insert (unat a, l) (insert (unat b, k) L)) {a, b} = without L {a, b}"
  by (auto simp: without_def)

text \<open>
  The turn takes the newest element: its frame goes to the MAC, and the element and its payload
  are given back.
\<close>

lemma ether_tx_task_turn_ok:
  assumes ok: "net_ok s L (n + block_size_of 14)" and n: "n = 0 \<or> 16 \<le> n"
    and q: "ether_tx_queue s = obj # rest" "obj \<noteq> 0" "ether_objs s obj = q"
    and live: "(unat obj, lo) \<in> L" "(unat (eq_payload q), lb) \<in> L" "eq_payload q \<noteq> obj"
    and nn: "obj \<notin> nodes (all_waits s)" "eq_payload q \<notin> nodes (all_waits s)"
    and len: "0 < unat (eq_payload_len q)" "unat (eq_payload_len q) \<le> 2048" "unat (eq_payload_len q) \<le> lb"
    and dh: "length (eq_dhost q) = 6" "length (ether_addr s) = 6" and d: "length (tx_desc s) = DESC_LEN"
  shows "\<exists>m d i. ether_tx_task_turn s = Some (True, s\<lparr>ram := m, ether_tx_queue := rest, tx_desc := d, tx_produce_index := i,
      tx_log := tx_log s @ [(eq_dhost q @ ether_addr s @ be16_bytes (eq_ether_type q),
        read_bytes (ram s) (eq_payload q) (unat (eq_payload_len q)))]\<rparr>)
    \<and> net_ok (s\<lparr>ram := m\<rparr>) (without L {obj, eq_payload q}) n
    \<and> keeps s (s\<lparr>ram := m\<rparr>) (without L {obj, eq_payload q}) \<and> length d = DESC_LEN"
proof -
  let ?p = "eq_payload q" and ?len = "ucast (eq_payload_len q) :: u32"
  let ?log = "(eq_dhost q @ ether_addr s @ be16_bytes (eq_ether_type q), read_bytes (ram s) ?p (unat (eq_payload_len q)))"
  have ul: "unat ?len = unat (eq_payload_len q)" by (rule unat_ucast16)
  let ?s0 = "s\<lparr>ether_tx_queue := rest\<rparr>"
  have ok0: "net_ok ?s0 L (n + block_size_of 14)" using ok by simp
  have "live_bytes {(unat ?p, lb)} (?p + of_nat 0) (unat ?len)"
    by (rule live_bytes_buf [OF net_okD(4) [OF ok] live(2)]) (use len(3) ul in simp)
  then have src: "live_bytes L ?p (unat ?len)" using live(2) by (auto simp: live_bytes_def)
  obtain m d' i where x: "ether_xmit_payload (eq_dhost q) (eq_ether_type q) ?p ?len ?s0 =
      Some (?s0\<lparr>ram := m, tx_desc := d', tx_produce_index := i, tx_log := tx_log s @ [?log]\<rparr>)"
    "net_ok (?s0\<lparr>ram := m\<rparr>) L n" "keeps ?s0 (?s0\<lparr>ram := m\<rparr>) L" "length d' = DESC_LEN"
    using ether_xmit_payload_ok [OF ok0 n _ _ src, of "eq_dhost q" "eq_ether_type q"] len dh d ul by auto
  let ?s1 = "?s0\<lparr>ram := m, tx_desc := d', tx_produce_index := i, tx_log := tx_log s @ [?log]\<rparr>"
  have ok1: "net_ok ?s1 L n" using x(2) by simp
  have nn1: "?p \<notin> nodes (all_waits ?s1)" "obj \<notin> nodes (all_waits ?s1)" using nn by (simp_all add: all_waits_def)
  obtain m2 where f: "free_mem obj (free_mem ?p ?s1) = ?s1\<lparr>ram := m2\<rparr>" "net_ok (?s1\<lparr>ram := m2\<rparr>) (without L {obj, ?p}) n"
    "keeps ?s1 (?s1\<lparr>ram := m2\<rparr>) (without L {obj, ?p})"
    by (rule free_two_net [OF ok1 live(2,1,3) nn1])
  let ?s' = "s\<lparr>ram := m2, ether_tx_queue := rest, tx_desc := d', tx_produce_index := i, tx_log := tx_log s @ [?log]\<rparr>"
  have eq: "?s1\<lparr>ram := m2\<rparr> = ?s'" by simp
  have w: "wait_for_volatile_condition (\<lambda>s. ether_tx_queue s \<noteq> []) ether_tx_waitq (\<lambda>q s. s\<lparr>ether_tx_waitq := q\<rparr>) s = Some (True, s)"
    by (rule wait_true) (simp add: q)
  have pop: "ether_tx_pop (s\<lparr>primask := True\<rparr>) = (obj, (s\<lparr>primask := True\<rparr>)\<lparr>ether_tx_queue := rest\<rparr>)"
    by (simp add: ether_tx_pop_def q)
  have run: "ether_tx_task_turn s = Some (True, ?s')"
    using x(1) f(1) q(2,3) unfolding ether_tx_task_turn_def w eq [symmetric]
    by (simp add: irq_defs pop)
  have k: "keeps s (s\<lparr>ram := m2\<rparr>) (without L {obj, ?p})"
    using x(3) f(3) unfolding keeps_def by (auto simp: without_def)
  have "net_ok (s\<lparr>ram := m2\<rparr>) (without L {obj, ?p}) n"
    using f(2) by (rule net_ok_same) (simp_all add: all_waits_def)
  with run k x(4) show ?thesis by blast
qed

lemma live_nonzero: "net_ok s L n \<Longrightarrow> (unat p, l) \<in> L \<Longrightarrow> p \<noteq> 0"
  using heap_rep_bounds [OF net_okD(4)] by (fastforce simp: heap_base_def)

text \<open>What \<open>ether_tx\<close> queues, the next turn of the task sends.\<close>

lemma ether_roundtrip:
  assumes ok: "net_ok s L (n + block_size_of 14 + block_size_of (unat len) + block_size_of 24)"
    and n: "n = 0 \<or> 16 \<le> n" and len: "0 < unat len" "unat len \<le> 2048" and src: "live_bytes L payload (unat len)"
    and dh: "length dhost = 6" "length (ether_addr s) = 6" and d: "length (tx_desc s) = DESC_LEN"
  shows "\<exists>s1 s2. ether_tx dhost ty payload len s = Some s1 \<and> ether_tx_task_turn s1 = Some (True, s2)
    \<and> tx_log s2 = tx_log s @ [(dhost @ ether_addr s @ be16_bytes ty, read_bytes (ram s) payload (unat len))]
    \<and> ether_tx_queue s2 = ether_tx_queue s \<and> net_ok s2 (without L (nodes (ether_tx_waitq s))) n
    \<and> keeps s s2 (without L (nodes (ether_tx_waitq s)))
    \<and> (\<forall>p l. (unat p, l) \<in> L \<longrightarrow> ether_objs s2 p = ether_objs s p) \<and> ether_addr s2 = ether_addr s
    \<and> length (tx_desc s2) = DESC_LEN \<and> all_waits s2 = all_waits (s\<lparr>ether_tx_waitq := []\<rparr>)"
proof -
  let ?N = "nodes (ether_tx_waitq s)" and ?n = "n + block_size_of 14"
  have n': "?n = 0 \<or> 16 \<le> ?n" using block_size_of_facts(1) [of 14] by linarith
  have r: "request_ok len" using len by (auto simp: request_ok_def)
  obtain obj buf lo lb m pr where e:
    "ether_tx dhost ty payload len s = Some (ether_queued obj dhost ty buf len m pr s)"
    "net_ok (ether_queued obj dhost ty buf len m pr s) (insert (unat buf, lb) (insert (unat obj, lo) (without L ?N))) ?n"
    "24 \<le> lo" "unat len \<le> lb" "read_bytes m buf (unat len) = read_bytes (ram s) payload (unat len)"
    "keeps s (s\<lparr>ram := m\<rparr>) (without L ?N)"
    "\<And>k. (unat obj, k) \<notin> L" "\<And>k. (unat buf, k) \<notin> L" "obj \<noteq> buf"
    by (rule ether_tx_ok [OF ok r n' src dh(1), where type = ty]) (rule that)
  define s1 where "s1 = ether_queued obj dhost ty buf len m pr s"
  let ?K = "insert (unat buf, lb) (insert (unat obj, lo) (without L ?N))"
  have ul: "unat (ucast len :: u16) = unat len" using unat_ucast_down len(2) by simp
  have f: "ether_tx_queue s1 = obj # ether_tx_queue s" "ether_addr s1 = ether_addr s" "tx_desc s1 = tx_desc s"
    "tx_log s1 = tx_log s" "ram s1 = m" by (simp_all add: s1_def)
  define q where "q = ether_objs s1 obj"
  have q: "eq_payload q = buf" "eq_dhost q = dhost" "eq_ether_type q = ty" "unat (eq_payload_len q) = unat len"
    using ul by (simp_all add: q_def s1_def)
  have aw: "nodes (all_waits s1) \<subseteq> nodes (all_waits s)" by (auto simp: s1_def nodes_def all_waits_def)
  have nn: "obj \<notin> nodes (all_waits s1)" "eq_payload q \<notin> nodes (all_waits s1)"
    using fresh_not_node [OF ok e(7)] fresh_not_node [OF ok e(8)] aw q(1) by auto
  note ok1 = e(2) [folded s1_def]
  have "obj \<noteq> 0" by (rule live_nonzero [OF ok1, of _ lo]) simp
  note t = ether_tx_task_turn_ok [OF ok1 n f(1) this q_def [symmetric] _ _ _ nn, of lo lb, unfolded q f(2-5)]
  have K: "without ?K {obj, buf} = without L ?N"
    using e(7,8) by (auto simp: without_def)
  obtain m' d' i where t': "ether_tx_task_turn s1 = Some (True, s1\<lparr>ram := m', ether_tx_queue := ether_tx_queue s, tx_desc := d', tx_produce_index := i,
      tx_log := tx_log s @ [(dhost @ ether_addr s @ be16_bytes ty, read_bytes m buf (unat len))]\<rparr>)"
    "net_ok (s1\<lparr>ram := m'\<rparr>) (without L ?N) n" "keeps s1 (s1\<lparr>ram := m'\<rparr>) (without L ?N)" "length d' = DESC_LEN"
    using t e(4,9) len dh d unfolding K by auto
  let ?s2 = "s1\<lparr>ram := m', ether_tx_queue := ether_tx_queue s, tx_desc := d', tx_produce_index := i,
      tx_log := tx_log s @ [(dhost @ ether_addr s @ be16_bytes ty, read_bytes m buf (unat len))]\<rparr>"
  have "net_ok ?s2 (without L ?N) n"
    using t'(2) by (rule net_ok_same) (simp_all add: all_waits_def)
  moreover have "keeps s ?s2 (without L ?N)"
    using e(6) t'(3) f(5) by (simp add: keeps_def)
  moreover have "tx_log ?s2 = tx_log s @ [(dhost @ ether_addr s @ be16_bytes ty, read_bytes (ram s) payload (unat len))]"
    using e(5) by simp
  moreover have "ether_tx_queue ?s2 = ether_tx_queue s" "ether_addr ?s2 = ether_addr s" "length (tx_desc ?s2) = DESC_LEN"
    using f(2) t'(4) by simp_all
  moreover have "\<forall>p l. (unat p, l) \<in> L \<longrightarrow> ether_objs ?s2 p = ether_objs s p"
    using e(7) by (auto simp: s1_def)
  moreover have "all_waits ?s2 = all_waits (s\<lparr>ether_tx_waitq := []\<rparr>)"
    by (simp add: all_waits_def s1_def)
  ultimately show ?thesis using e(1) [folded s1_def] t'(1) by blast
qed

end
