(* ===== verification/Boot.thy ===== *)
theory Boot
  imports Ethernet
begin

text \<open>
  A concrete state of the whole system, as it is after \<open>mem_setup\<close> and the initcalls: the heap is one
  free block, the queues and tables are empty. The witnesses of the network properties start here.
\<close>

unbundle bit_operations_syntax

definition boot_net :: net where
  "boot_net = \<lparr>primask = False, ram = ram boot_machine, mem_free_list = 0x10000100,
     procs = (\<lambda>_. \<lparr>cur_stack = 0, stack_alloc = 0, state = RUNNING\<rparr>), runqueue = [], waitqueue = [],
     deadqueue = [], current_tsk = 0, idle_tsk = 0, psp = 0, callee_regs = [], pendsv = False,
     addr_process_finish = 0, addr_idle_task = 0,
     pkts = (\<lambda>_. \<lparr>pkt_data = 0, pkt_cur_data = 0, pkt_data_length = 0, pkt_cur_data_length = 0,
       pkt_handler = DROP, pkt_src_ip = 0, pkt_dst_ip = 0\<rparr>),
     pkt_rx_q = [], rx_waitq = [], protocol_head = [UDP, TCP, ARP, IPV4, ETHERNET],
     ether_objs = (\<lambda>_. \<lparr>eq_dhost = [], eq_ether_type = 0, eq_payload = 0, eq_payload_len = 0\<rparr>),
     ether_tx_queue = [], ether_tx_waitq = [], ether_addr = [0, 1, 2, 3, 4, 5], no_dropped_packets = 0,
     arp_entries = (\<lambda>_. \<lparr>ae_ether_addr = [], ae_ipaddr = 0\<rparr>), arp_table_head = [],
     arp_reqs = (\<lambda>_. \<lparr>ar_tick_count = 0, ar_TPA = 0, ar_timed_out = False, ar_finished = False, ar_answer = 0\<rparr>),
     arp_pending_requests = [], arp_waitqueue = [],
     ip4_objs = (\<lambda>_. \<lparr>iq_protocol = 0, iq_dst_ip = 0, iq_payload = 0, iq_payload_len = 0\<rparr>),
     ip4_tx_queue = [], ip4_tx_waitq = [],
     listeners = (\<lambda>_. \<lparr>ul_dst_buf = 0, ul_dst_buf_sz = 0, ul_dst_buf_ptr = 0, ul_port = 0\<rparr>),
     udp_rx_requests = [], udp_waitq = [],
     tcbs = (\<lambda>_. \<lparr>cur_seq_n = 0, cur_ack_n = 0, unacked_byte_count = 0,
       rx_buf = \<lparr>buffer = 0, head = 0, tail = 0, buf_sz = 0, free_space = 0\<rparr>, tcb_state = CLOSED, timeout = 0,
       src_port = 0, dst_port = 0, host_window_sz = 0, dst_ip = 0, decrement_timeout = False, timed_out = False,
       last_msg = 0\<rparr>),
     tcb_head = [], tcp_waitq = [],
     rx_desc = replicate 12 (0, 0), rx_status = replicate 12 0, rx_consume_index = 0, rx_produce_index = 0,
     current_frame = 0, current_frame_len = 0, tx_desc = replicate 12 (0, 0), tx_produce_index = 0, tx_log = [],
     tick_work = [TCP_TICK, ARP_TICK], timer0_irq_wakeups = 0\<rparr>"

lemma boot_net_fields [simp]:
  "ram boot_net = ram boot_machine" "mem_free_list boot_net = 0x10000100" "primask boot_net = False"
  "runqueue boot_net = []" "waitqueue boot_net = []" "deadqueue boot_net = []" "current_tsk boot_net = 0"
  "pkt_rx_q boot_net = []" "rx_waitq boot_net = []" "protocol_head boot_net = [UDP, TCP, ARP, IPV4, ETHERNET]"
  "ether_tx_queue boot_net = []" "ether_tx_waitq boot_net = []" "ether_addr boot_net = [0, 1, 2, 3, 4, 5]"
  "arp_table_head boot_net = []" "arp_pending_requests boot_net = []" "arp_waitqueue boot_net = []"
  "ip4_tx_queue boot_net = []" "ip4_tx_waitq boot_net = []" "udp_rx_requests boot_net = []"
  "udp_waitq boot_net = []" "tcb_head boot_net = []" "tcp_waitq boot_net = []" "tx_log boot_net = []"
  "tx_desc boot_net = replicate 12 (0, 0)" "all_waits boot_net = []" "queued boot_net = []"
  "current_frame boot_net = 0" "rx_consume_index boot_net = 0" "rx_produce_index boot_net = 0"
  by (simp_all add: boot_net_def all_waits_def queued_def)

lemma boot_net_ok: "net_ok boot_net {} 32768"
proof -
  have "heap_inv (ram boot_net) (mem_free_list boot_net) [(heap_size, False)] [heap_base]"
    using boot_machine_inv by (simp add: boot_machine_fields)
  then have "heap_room boot_net {} 32768"
    unfolding heap_room_def by (intro exI conjI) (auto simp: live_def has_room_def heap_size_def)
  then show ?thesis by (simp add: net_ok_def sched_inv_def waits_ok_def)
qed

text \<open>The same with one live buffer of at least \<open>r\<close> bytes, for a client's data.\<close>

lemma boot_net_buffer:
  assumes "request_ok r" "unat r \<le> 512"
  obtains p m l where "net_ok (boot_net\<lparr>ram := m\<rparr>) {(unat p, l)} 32000" "unat r \<le> l"
    "live_bytes {(unat p, l)} p (unat r)"
proof -
  have "block_size_of (unat r) \<le> 768" using assms(2) by (simp add: block_size_of_def)
  then have ok: "net_ok boot_net {} (32000 + block_size_of (unat r))"
    using net_ok_mono [OF boot_net_ok] by simp
  have n: "(32000 :: nat) = 0 \<or> 16 \<le> (32000 :: nat)" by simp
  show thesis
  proof (rule get_mem_net [OF ok assms(1) n])
    fix p :: u32 and m l
    assume l: "unat r \<le> l" and g: "net_ok (boot_net\<lparr>ram := m\<rparr>) {(unat p, l)} 32000"
    have "live_bytes {(unat p, l)} (p + of_nat 0) (unat r)"
      by (rule live_bytes_buf [OF net_okD(4) [OF g]]) (use l in auto)
    then show thesis using that [OF g l] by simp
  qed
qed

lemma boot_net_two:
  assumes "request_ok r" "unat r \<le> 512"
  obtains p q :: u32 and m l k where "net_ok (boot_net\<lparr>ram := m\<rparr>) {(unat q, k), (unat p, l)} 30000"
    "unat r \<le> l" "unat r \<le> k" "p \<noteq> q"
proof (rule boot_net_buffer [OF assms])
  fix p :: u32 and m l assume b: "net_ok (boot_net\<lparr>ram := m\<rparr>) {(unat p, l)} 32000" "unat r \<le> l"
  have "block_size_of (unat r) \<le> 768" using assms(2) by (simp add: block_size_of_def)
  then have ok: "net_ok (boot_net\<lparr>ram := m\<rparr>) {(unat p, l)} (30000 + block_size_of (unat r))"
    using net_ok_mono [OF b(1)] by simp
  have n: "(30000 :: nat) = 0 \<or> 16 \<le> (30000 :: nat)" by simp
  show thesis
  proof (rule get_mem_net [OF ok assms(1) n])
    fix q :: u32 and m' k
    assume k: "unat r \<le> k" and g: "net_ok (boot_net\<lparr>ram := m\<rparr>\<lparr>ram := m'\<rparr>) (insert (unat q, k) {(unat p, l)}) 30000"
      and fresh: "\<And>k. (unat q, k) \<notin> {(unat p, l)}"
    have "p \<noteq> q" using fresh [of l] by auto
    then show thesis using that [of m' q k p l] g b(2) k by simp
  qed
qed

text \<open>Three neighbours on the heap, of 64, 60 and 64 bytes.\<close>

lemma boot_net_three:
  obtains m where "net_ok (boot_net\<lparr>ram := m\<rparr>) {(0x2007C004, 64), (0x2007C04C, 60), (0x2007C090, 64)} 30000"
proof -
  note a = alloc_spec_def block_size_of_def size_at_def heap_base_def heap_size_def
  have "\<exists>m. heap_inv m 0x10000100 [(72, True), (32696, False)] [heap_base + 72]"
    using get_mem_step [OF boot_machine_inv, of 64] by (simp add: a boot_machine_fields) blast
  then obtain m1 where m1: "heap_inv m1 0x10000100 [(72, True), (32696, False)] [heap_base + 72]" by (elim exE)
  have "\<exists>m. heap_inv m 0x10000100 [(72, True), (68, True), (32628, False)] [heap_base + 140]"
    using get_mem_step [of "boot_machine\<lparr>ram := m1\<rparr>" "[(72, True), (32696, False)]" "[heap_base + 72]" 60] m1
    by (simp add: a boot_machine_fields) blast
  then obtain m2 where m2: "heap_inv m2 0x10000100 [(72, True), (68, True), (32628, False)] [heap_base + 140]" by (elim exE)
  have "\<exists>m. heap_inv m 0x10000100 [(72, True), (68, True), (72, True), (32556, False)] [heap_base + 212]"
    using get_mem_step [of "boot_machine\<lparr>ram := m2\<rparr>" "[(72, True), (68, True), (32628, False)]" "[heap_base + 140]" 64] m2
    by (simp add: a boot_machine_fields) blast
  then obtain m3 where m3: "heap_inv m3 0x10000100 [(72, True), (68, True), (72, True), (32556, False)] [heap_base + 212]" by (elim exE)
  have lay: "set (layout heap_base [(72, True), (68, True), (72, True), (32556, False)]) =
      {(0x2007C000, 72, True), (0x2007C048, 68, True), (0x2007C08C, 72, True), (0x2007C0D4, 32556, False)}"
    by (simp add: heap_base_def)
  have "live [(72, True), (68, True), (72, True), (32556, False)] = {(0x2007C004, 64), (0x2007C04C, 60), (0x2007C090, 64)}"
    unfolding live_def lay by auto
  moreover have "has_room 30000 [(72, True), (68, True), (72, True), (32556, False)]" by (auto simp: has_room_def)
  ultimately have "heap_room (boot_net\<lparr>ram := m3\<rparr>) {(0x2007C004, 64), (0x2007C04C, 60), (0x2007C090, 64)} 30000"
    unfolding heap_room_def using m3 by (intro exI conjI) (simp_all)
  then show thesis using that [of m3] net_okD(1) [OF boot_net_ok] by (simp add: net_ok_def) (simp add: waits_ok_def)
qed

end
