(* ===== verification/Ethernet_Properties.thy ===== *)
theory Ethernet_Properties
  imports Boot
begin

text \<open>The properties of the Ethernet layer's transmit path, and their witnesses.\<close>

unbundle bit_operations_syntax

text \<open>C19: a frame given to \<open>ether_tx\<close> is what the EMAC sends at the next turn of \<open>ether_tx_task\<close>:
  the destination, our address, the type in network order and the payload bytes as they were when
  \<open>ether_tx\<close> was called. Neither call hangs (given room in the heap for the element, the copy and the
  header); afterwards the queue is as before, every byte allocated on the way has been given back,
  and no live buffer has changed.\<close>

theorem ether_frame_transmitted:
  assumes "net_ok s L (n + block_size_of 14 + block_size_of (unat len) + block_size_of 24)"
    and "n = 0 \<or> 16 \<le> n" and "0 < unat len" "unat len \<le> 2048" and "live_bytes L payload (unat len)"
    and "length dhost = 6" "length (ether_addr s) = 6" and "length (tx_desc s) = DESC_LEN"
  shows "\<exists>s1 s2. ether_tx dhost ty payload len s = Some s1 \<and> ether_tx_task_turn s1 = Some (True, s2)
    \<and> tx_log s2 = tx_log s @ [(dhost @ ether_addr s @ be16_bytes ty, read_bytes (ram s) payload (unat len))]
    \<and> ether_tx_queue s2 = ether_tx_queue s \<and> net_ok s2 (without L (nodes (ether_tx_waitq s))) n
    \<and> keeps s s2 (without L (nodes (ether_tx_waitq s)))"
  using ether_roundtrip [OF assms] by blast

lemma boot_ready:
  "length (ether_addr (boot_net\<lparr>ram := m\<rparr>)) = 6" "length (tx_desc (boot_net\<lparr>ram := m\<rparr>)) = DESC_LEN"
  by (simp_all add: DESC_LEN_def)

lemma ether_frame_transmitted_witness:
  "\<exists>(s :: net) payload s1 s2. ether_tx [1, 2, 3, 4, 5, 6] 0x800 payload 60 s = Some s1
    \<and> ether_tx_task_turn s1 = Some (True, s2)
    \<and> tx_log s2 = [([1, 2, 3, 4, 5, 6, 0, 1, 2, 3, 4, 5, 8, 0], read_bytes (ram s) payload 60)]"
proof -
  obtain p m l where b: "net_ok (boot_net\<lparr>ram := m\<rparr>) {(unat p, l)} 32000" "live_bytes {(unat p, l)} p (unat (60 :: u32))"
    by (rule boot_net_buffer [of 60]) (simp_all add: request_ok_def)
  have "net_ok (boot_net\<lparr>ram := m\<rparr>) {(unat p, l)} (0 + block_size_of 14 + block_size_of (unat (60 :: u32)) + block_size_of 24)"
    using net_ok_mono [OF b(1)] by (simp add: block_size_of_def)
  from ether_frame_transmitted [OF this _ _ _ b(2) _ boot_ready, of "[1, 2, 3, 4, 5, 6]" "0x800"]
  show ?thesis by (fastforce simp: be16_bytes_def le16_def)
qed

text \<open>C35: the queue is filled with \<open>list_add\<close> and emptied with \<open>list_pop\<close>, so of two frames given to
  \<open>ether_tx\<close> before the task runs the second is sent first: the task reverses the order.\<close>

theorem ether_frames_reversed:
  assumes ok: "net_ok s L (n + block_size_of 14 + block_size_of 14 + block_size_of (unat len2) + block_size_of 24
      + block_size_of (unat len1) + block_size_of 24)"
    and n: "n = 0 \<or> 16 \<le> n" and len: "0 < unat len1" "unat len1 \<le> 2048" "0 < unat len2" "unat len2 \<le> 2048"
    and src: "live_bytes L p1 (unat len1)" "live_bytes (without L (nodes (ether_tx_waitq s))) p2 (unat len2)"
    and dh: "length d1 = 6" "length d2 = 6" "length (ether_addr s) = 6" and d: "length (tx_desc s) = DESC_LEN"
  shows "\<exists>s1 s2 s3 s4. ether_tx d1 ty1 p1 len1 s = Some s1 \<and> ether_tx d2 ty2 p2 len2 s1 = Some s2
    \<and> ether_tx_task_turn s2 = Some (True, s3) \<and> ether_tx_task_turn s3 = Some (True, s4)
    \<and> tx_log s4 = tx_log s @ [(d2 @ ether_addr s @ be16_bytes ty2, read_bytes (ram s) p2 (unat len2)),
        (d1 @ ether_addr s @ be16_bytes ty1, read_bytes (ram s) p1 (unat len1))]"
proof -
  let ?N = "nodes (ether_tx_waitq s)" and ?k = "n + block_size_of 14"
    and ?r = "n + block_size_of 14 + block_size_of 14 + block_size_of (unat len2) + block_size_of 24"
  have k: "?k = 0 \<or> 16 \<le> ?k" using block_size_of_facts(1) [of 14] by linarith
  have n': "?r = 0 \<or> 16 \<le> ?r" using block_size_of_facts(1) [of 14] by linarith
  have r1: "request_ok len1" using len by (auto simp: request_ok_def)
  obtain obj buf lo lb m pr where e:
    "ether_tx d1 ty1 p1 len1 s = Some (ether_queued obj d1 ty1 buf len1 m pr s)"
    "net_ok (ether_queued obj d1 ty1 buf len1 m pr s) (insert (unat buf, lb) (insert (unat obj, lo) (without L ?N))) ?r"
    "24 \<le> lo" "unat len1 \<le> lb" "read_bytes m buf (unat len1) = read_bytes (ram s) p1 (unat len1)"
    "keeps s (s\<lparr>ram := m\<rparr>) (without L ?N)"
    "\<And>k. (unat obj, k) \<notin> L" "\<And>k. (unat buf, k) \<notin> L" "obj \<noteq> buf"
    by (rule ether_tx_ok [OF ok r1 n' src(1) dh(1), where type = ty1]) (rule that)
  define s1 where "s1 = ether_queued obj d1 ty1 buf len1 m pr s"
  let ?K = "insert (unat buf, lb) (insert (unat obj, lo) (without L ?N))"
  have ul: "unat (ucast len1 :: u16) = unat len1" using unat_ucast_down len(2) by simp
  have f: "ether_tx_queue s1 = obj # ether_tx_queue s" "ether_addr s1 = ether_addr s" "tx_desc s1 = tx_desc s"
    "tx_log s1 = tx_log s" "ram s1 = m" "ether_tx_waitq s1 = []" by (simp_all add: s1_def)
  define q where "q = ether_objs s1 obj"
  have q: "eq_payload q = buf" "eq_dhost q = d1" "eq_ether_type q = ty1" "unat (eq_payload_len q) = unat len1"
    using ul by (simp_all add: q_def s1_def)
  note ok1 = e(2) [folded s1_def]
  have W: "without K (nodes []) = K" for K by (simp add: nodes_def)
  have src2: "live_bytes ?K p2 (unat len2)" by (rule live_bytes_mono [OF src(2)]) auto
  have kp: "keeps s s1 (without L ?N)" using e(6) f(5) by (simp add: keeps_def)
  obtain s2 s3 where t2: "ether_tx d2 ty2 p2 len2 s1 = Some s2 \<and> ether_tx_task_turn s2 = Some (True, s3)
    \<and> tx_log s3 = tx_log s1 @ [(d2 @ ether_addr s1 @ be16_bytes ty2, read_bytes (ram s1) p2 (unat len2))]
    \<and> ether_tx_queue s3 = ether_tx_queue s1 \<and> net_ok s3 (without ?K (nodes (ether_tx_waitq s1))) ?k
    \<and> keeps s1 s3 (without ?K (nodes (ether_tx_waitq s1)))
    \<and> (\<forall>p l. (unat p, l) \<in> ?K \<longrightarrow> ether_objs s3 p = ether_objs s1 p) \<and> ether_addr s3 = ether_addr s1
    \<and> length (tx_desc s3) = DESC_LEN \<and> all_waits s3 = all_waits (s1\<lparr>ether_tx_waitq := []\<rparr>)"
    using ether_roundtrip [OF ok1 k len(3,4) src2 dh(2), of ty2] dh(3) d f(2,3)
    by (auto simp only:)
  have g: "ether_tx d2 ty2 p2 len2 s1 = Some s2" "ether_tx_task_turn s2 = Some (True, s3)"
    "tx_log s3 = tx_log s @ [(d2 @ ether_addr s @ be16_bytes ty2, read_bytes m p2 (unat len2))]"
    "ether_tx_queue s3 = obj # ether_tx_queue s" "net_ok s3 ?K ?k" "keeps s1 s3 ?K"
    "ether_addr s3 = ether_addr s" "length (tx_desc s3) = DESC_LEN" "all_waits s3 = all_waits s1"
    using t2 unfolding f W by (simp_all add: all_waits_def f(6))
  have ob: "ether_objs s3 obj = q" using t2 unfolding q_def by blast
  have aw: "nodes (all_waits s1) \<subseteq> nodes (all_waits s)" by (auto simp: s1_def nodes_def all_waits_def)
  have nn: "obj \<notin> nodes (all_waits s3)" "eq_payload q \<notin> nodes (all_waits s3)"
    using fresh_not_node [OF ok e(7)] fresh_not_node [OF ok e(8)] aw q(1) g(9) by auto
  have "obj \<noteq> 0" by (rule live_nonzero [OF ok1, of _ lo]) simp
  note t4 = ether_tx_task_turn_ok [OF g(5) n g(4) this ob _ _ _ nn, of lo lb, unfolded q]
  obtain s4 where s4: "ether_tx_task_turn s3 = Some (True, s4)"
    "tx_log s4 = tx_log s3 @ [(d1 @ ether_addr s3 @ be16_bytes ty1, read_bytes (ram s3) buf (unat len1))]"
    using t4 e(3,4,9) len(1,2) dh(1,3) g(7,8) by fastforce
  have "live_bytes {(unat buf, lb)} (buf + of_nat 0) (unat len1)"
    by (rule live_bytes_buf [OF net_okD(4) [OF ok1]]) (use e(4) in auto)
  then have "live_bytes ?K buf (unat len1)" by (auto simp: live_bytes_def)
  then have "read_bytes (ram s3) buf (unat len1) = read_bytes (ram s) p1 (unat len1)"
    using read_bytes_keeps [OF g(6)] e(5) f(5) by simp
  moreover have "read_bytes m p2 (unat len2) = read_bytes (ram s) p2 (unat len2)"
    using read_bytes_keeps [OF kp src(2)] f(5) by simp
  ultimately show ?thesis using e(1) [folded s1_def] g(1,2,3,7) s4 by auto
qed

lemma ether_frames_reversed_witness:
  "\<exists>(s :: net) p s1 s2 s3 s4. ether_tx [1, 1, 1, 1, 1, 1] 0x800 p 40 s = Some s1
    \<and> ether_tx [2, 2, 2, 2, 2, 2] 0x800 p 50 s1 = Some s2
    \<and> ether_tx_task_turn s2 = Some (True, s3) \<and> ether_tx_task_turn s3 = Some (True, s4)
    \<and> map (take 6 \<circ> fst) (tx_log s4) = [[2, 2, 2, 2, 2, 2], [1, 1, 1, 1, 1, 1]]"
proof -
  obtain p m l where b: "net_ok (boot_net\<lparr>ram := m\<rparr>) {(unat p, l)} 32000" "live_bytes {(unat p, l)} p (unat (60 :: u32))"
    by (rule boot_net_buffer [of 60]) (simp_all add: request_ok_def)
  let ?s = "boot_net\<lparr>ram := m\<rparr>"
  have "net_ok ?s {(unat p, l)} (0 + block_size_of 14 + block_size_of 14 + block_size_of (unat (50 :: u32)) + block_size_of 24
      + block_size_of (unat (40 :: u32)) + block_size_of 24)"
    using net_ok_mono [OF b(1)] by (simp add: block_size_of_def)
  moreover have "live_bytes {(unat p, l)} p (unat (40 :: u32))"
    "live_bytes (without {(unat p, l)} (nodes (ether_tx_waitq ?s))) p (unat (50 :: u32))"
    using b(2) by (simp_all add: live_bytes_def nodes_def)
  ultimately show ?thesis
    using ether_frames_reversed [of ?s "{(unat p, l)}" 0 50 40 p p "[1, 1, 1, 1, 1, 1]" "[2, 2, 2, 2, 2, 2]" "0x800" "0x800"]
      boot_ready by fastforce
qed

end
