(* ===== verification/Tick.thy ===== *)
theory Tick
  imports Protocol
begin

text \<open>\<open>tick.c\<close>: the timer interrupt and its list of functions. \<open>tick_init\<close>, which talks
  to the registers, is in \<open>Startup\<close>; the acknowledgement of the interrupt is not part of this state.\<close>

text \<open>\<open>tick_add_work_fn\<close>; a work item that is already registered would destroy the list.\<close>

definition tick_add_work_fn :: "tick_fn \<Rightarrow> 'a net_scheme \<Rightarrow> 'a net_scheme option" where
  "tick_add_work_fn new_work s =
     do {
       let (flags, s) = irq_disable s;
       s \<leftarrow> (if new_work \<in> set (tick_work s) then None else Some (s\<lparr>tick_work := new_work # tick_work s\<rparr>));
       Some (irq_enable flags s)
     }"

text \<open>The loop over the registered functions.\<close>

fun run_ticks :: "(tick_fn \<Rightarrow> 'a net_scheme \<Rightarrow> 'a net_scheme option) \<Rightarrow> tick_fn list \<Rightarrow> 'a net_scheme \<Rightarrow> 'a net_scheme option" where
  "run_ticks call [] s = Some s"
| "run_ticks call (i # is) s = do { s \<leftarrow> call i s; run_ticks call is s }"

text \<open>\<open>irq_timer0\<close>; \<open>call\<close> runs the function of a work item.\<close>

definition irq_timer0 :: "(tick_fn \<Rightarrow> 'a net_scheme \<Rightarrow> 'a net_scheme option) \<Rightarrow> 'a net_scheme \<Rightarrow> 'a net_scheme option" where
  "irq_timer0 call s =
     do {
       let (flags, s) = irq_disable s;
       let s = s\<lparr>timer0_irq_wakeups := timer0_irq_wakeups s + 1\<rparr>;
       s \<leftarrow> run_ticks call (tick_work s) s;
       let s = irq_enable flags s;
       Some (s\<lparr>pendsv := True\<rparr>)
     }"

end
