(* ===== verification/Arp.thy ===== *)
theory Arp
  imports Ethernet Tick
begin

text \<open>
  \<open>arp.c\<close>. Resolving an address that is not in the table sends a request and puts the caller to
  sleep, so \<open>resolve_address\<close> is two definitions: the part up to the wait, and one turn of the wait
  with what follows it. The pending request lives on the caller's stack; its address is an argument.
\<close>

unbundle bit_operations_syntax

definition ARP_TIMEOUT :: int where
  "ARP_TIMEOUT = 250"

definition HTYPE_ETHERNET :: u16 where
  "HTYPE_ETHERNET = 1"

definition OPER_REQUEST :: u16 where
  "OPER_REQUEST = 1"

definition OPER_REPLY :: u16 where
  "OPER_REPLY = 2"

definition sizeof_arp_packet :: u32 where
  "sizeof_arp_packet = 28"

definition sizeof_arp_entry :: u32 where
  "sizeof_arp_entry = 20"

definition set_arp_req :: "u32 \<Rightarrow> (arp_pending_request \<Rightarrow> arp_pending_request) \<Rightarrow> 'a net_scheme \<Rightarrow> 'a net_scheme" where
  "set_arp_req p f s = s\<lparr>arp_reqs := (arp_reqs s)(p := f (arp_reqs s p))\<rparr>"

definition set_arp_entry :: "u32 \<Rightarrow> (arp_entry \<Rightarrow> arp_entry) \<Rightarrow> 'a net_scheme \<Rightarrow> 'a net_scheme" where
  "set_arp_entry p f s = s\<lparr>arp_entries := (arp_entries s)(p := f (arp_entries s p))\<rparr>"

subsection \<open>The timeout\<close>

fun arp_tick_loop :: "u32 list \<Rightarrow> 'a net_scheme \<Rightarrow> 'a net_scheme" where
  "arp_tick_loop [] s = s"
| "arp_tick_loop (i # is) s =
     (let old = ar_tick_count (arp_reqs s i);
          s = set_arp_req i (\<lambda>r. r\<lparr>ar_tick_count := old + 1\<rparr>) s;
          s = (if sint old \<ge> ARP_TIMEOUT
               then (set_arp_req i (\<lambda>r. r\<lparr>ar_finished := True, ar_timed_out := True\<rparr>) s)
                      \<lparr>arp_pending_requests := remove1 i (arp_pending_requests s)\<rparr>
               else s)
      in arp_tick_loop is s)"

definition arp_tick :: "'a net_scheme \<Rightarrow> 'a net_scheme" where
  "arp_tick s =
     (let (flags, s) = irq_disable s;
          s = arp_tick_loop (arp_pending_requests s) s
      in irq_enable flags s)"

subsection \<open>Packets\<close>

definition arp_swap_endian :: "u32 \<Rightarrow> mem \<Rightarrow> mem" where
  "arp_swap_endian packet m =
     (let m = swap_endian16 packet m;
          m = swap_endian16 (packet + 2) m;
          m = swap_endian16 (packet + 6) m;
          m = swap_endian32 (packet + 14) m
      in swap_endian32 (packet + 24) m)"

text \<open>
  The loop over the bytes of the two hardware addresses, and the assignments to the fields; the
  request and the reply differ in \<open>oper\<close>, \<open>tha\<close> and \<open>tpa\<close> only.
\<close>

definition fill_arp_addrs :: "u32 \<Rightarrow> u8 list \<Rightarrow> u8 list \<Rightarrow> mem \<Rightarrow> mem" where
  "fill_arp_addrs p sha tha m =
     fold (\<lambda>i m. m(p + 8 + of_nat i := sha ! i, p + 18 + of_nat i := tha ! i)) [0..<ETHER_ADDR_LEN] m"

definition fill_arp :: "u32 \<Rightarrow> u16 \<Rightarrow> u8 list \<Rightarrow> u8 list \<Rightarrow> u32 \<Rightarrow> mem \<Rightarrow> mem" where
  "fill_arp p oper sha tha tpa m =
     (let m = store16 p HTYPE_ETHERNET m;
          m = store16 (p + 2) ETHERTYPE_IP m;
          m = store8 (p + 4) 6 m;
          m = store8 (p + 5) 4 m;
          m = store16 (p + 6) oper m;
          m = fill_arp_addrs p sha tha m;
          m = store32 (p + 14) OUR_IP_ADDRESS m
      in store32 (p + 24) tpa m)"

subsection \<open>Resolving an address\<close>

definition arp_lookup :: "u32 \<Rightarrow> 'a net_scheme \<Rightarrow> u32 option" where
  "arp_lookup ip_address s = List.find (\<lambda>cur. ae_ipaddr (arp_entries s cur) = ip_address) (arp_table_head s)"

text \<open>
  \<open>Some cur\<close>: the entry \<open>cur\<close> was found and the function has returned its \<open>ether_addr\<close>, on this path
  without restoring the interrupt mask. \<open>None\<close>: the request is out and the caller goes on to wait.
\<close>

definition resolve_address :: "u32 \<Rightarrow> u32 \<Rightarrow> 'a net_scheme \<Rightarrow> (u32 option \<times> 'a net_scheme) option" where
  "resolve_address ip_address arp_p_req s =
     do {
       let (flags, s) = irq_disable s;
       case arp_lookup ip_address s of
         Some cur \<Rightarrow> Some (Some cur, s)
       | None \<Rightarrow> do {
           let s = irq_enable flags s;
           (arp_request, s) \<leftarrow> get_mem sizeof_arp_packet s;
           let s = s\<lparr>ram := fill_arp arp_request OPER_REQUEST (ether_addr s) (replicate ETHER_ADDR_LEN 0) ip_address (ram s)\<rparr>;
           let s = set_arp_req arp_p_req (\<lambda>_. \<lparr>ar_tick_count = 0, ar_TPA = 0, ar_timed_out = False,
             ar_finished = False, ar_answer = 0\<rparr>) s;
           let s = set_arp_req arp_p_req (\<lambda>r. r\<lparr>ar_TPA := ip_address\<rparr>) s;
           let (flags, s) = irq_disable s;
           let s = s\<lparr>arp_pending_requests := arp_p_req # arp_pending_requests s\<rparr>;
           let s = irq_enable flags s;
           let s = s\<lparr>ram := arp_swap_endian arp_request (ram s)\<rparr>;
           s \<leftarrow> ether_tx (replicate ETHER_ADDR_LEN 0xFF) ETHERTYPE_ARP arp_request sizeof_arp_packet s;
           Some (None, s)
         }
     }"

text \<open>One turn of the wait: \<open>None\<close> when the caller is asleep, else the entry of the answer, or 0.\<close>

definition resolve_address_wait :: "u32 \<Rightarrow> 'a net_scheme \<Rightarrow> (u32 option \<times> 'a net_scheme) option" where
  "resolve_address_wait arp_p_req s =
     do {
       (finished, s) \<leftarrow> wait_for_volatile_condition (\<lambda>s. ar_finished (arp_reqs s arp_p_req)) arp_waitqueue
         (\<lambda>q s. s\<lparr>arp_waitqueue := q\<rparr>) s;
       if \<not> finished then Some (None, s)
       else if ar_timed_out (arp_reqs s arp_p_req) then Some (Some 0, s)
       else Some (Some (ar_answer (arp_reqs s arp_p_req)), s)
     }"

subsection \<open>Received packets\<close>

text \<open>The loop over the pending requests: the first one for the sender's address is answered.\<close>

definition arp_fulfil :: "u32 \<Rightarrow> 'a net_scheme \<Rightarrow> 'a net_scheme option" where
  "arp_fulfil packet s =
     (case List.find (\<lambda>i. ar_TPA (arp_reqs s i) = load32 (ram s) (packet + 14)) (arp_pending_requests s) of
        None \<Rightarrow> Some s
      | Some i \<Rightarrow> do {
          (new_arp_entry, s) \<leftarrow> get_mem sizeof_arp_entry s;
          let s = set_arp_entry new_arp_entry (\<lambda>e. e\<lparr>
            ae_ether_addr := ethernet_mac_copy (read_bytes (ram s) (packet + 8) ETHER_ADDR_LEN),
            ae_ipaddr := load32 (ram s) (packet + 14)\<rparr>) s;
          let s = s\<lparr>arp_table_head := new_arp_entry # arp_table_head s\<rparr>;
          let s = set_arp_req i (\<lambda>r. r\<lparr>ar_answer := new_arp_entry, ar_finished := True\<rparr>) s;
          Some (s\<lparr>arp_pending_requests := remove1 i (arp_pending_requests s)\<rparr>)
        })"

definition arp_rx_packet :: "u32 \<Rightarrow> 'a net_scheme \<Rightarrow> 'a net_scheme option" where
  "arp_rx_packet pkt s =
     (let packet = pkt_cur_data (pkts s pkt);
          s = set_pkt pkt (\<lambda>p. p\<lparr>pkt_handler := DROP\<rparr>) s;
          s = s\<lparr>ram := arp_swap_endian packet (ram s)\<rparr>
      in if load16 (ram s) packet \<noteq> HTYPE_ETHERNET then Some s
         else if load16 (ram s) (packet + 6) = OPER_REQUEST then
           (if load32 (ram s) (packet + 24) \<noteq> OUR_IP_ADDRESS then Some s
            else do {
              (resp, s) \<leftarrow> get_mem sizeof_arp_packet s;
              let s = s\<lparr>ram := fill_arp resp OPER_REPLY (ether_addr s) (read_bytes (ram s) (packet + 8) ETHER_ADDR_LEN)
                (load32 (ram s) (packet + 14)) (ram s)\<rparr>;
              let s = s\<lparr>ram := arp_swap_endian resp (ram s)\<rparr>;
              ether_tx (read_bytes (ram s) (packet + 8) ETHER_ADDR_LEN) ETHERTYPE_ARP resp sizeof_arp_packet s
            })
         else if load16 (ram s) (packet + 6) = OPER_REPLY then
           (if \<not> ethernet_mac_equal (ether_addr s) (read_bytes (ram s) (packet + 18) ETHER_ADDR_LEN) then Some s
            else do {
              let (flags, s) = irq_disable s;
              s \<leftarrow> arp_fulfil packet s;
              s \<leftarrow> wake_arp s;
              Some (irq_enable flags s)
            })
         else Some s)"

definition arp_init :: "'a net_scheme \<Rightarrow> 'a net_scheme option" where
  "arp_init s = do { s \<leftarrow> tick_add_work_fn ARP_TICK s; protocol_register ARP s }"

end
