(* ===== verification/Ipv4.thy ===== *)
theory Ipv4
  imports Arp
begin

text \<open>
  \<open>ipv4.c\<close>: the checks on received packets, the queue of outgoing packets, and the task that builds
  their headers. Header fields are read and written where they are in the packet's buffer.
\<close>

unbundle bit_operations_syntax

definition DEFAULT_TTL :: u8 where
  "DEFAULT_TTL = 10"

definition IP_PROTO_TCP :: u8 where
  "IP_PROTO_TCP = 0x6"

definition IP_PROTO_UDP :: u8 where
  "IP_PROTO_UDP = 0x11"

definition sizeof_ip4_header :: u32 where
  "sizeof_ip4_header = 20"

definition sizeof_ip4_tx_q_t :: u32 where
  "sizeof_ip4_tx_q_t = 24"

subsection \<open>Headers\<close>

definition ip4_swap_endian :: "u32 \<Rightarrow> mem \<Rightarrow> mem" where
  "ip4_swap_endian iphdr m =
     (let m = swap_endian16 (iphdr + 2) m;
          m = swap_endian16 (iphdr + 4) m;
          m = swap_endian32 (iphdr + 12) m
      in swap_endian32 (iphdr + 16) m)"

text \<open>The sum of \<open>n\<close> halfwords, and the loop that folds the carries back.\<close>

definition sum16 :: "mem \<Rightarrow> u32 \<Rightarrow> nat \<Rightarrow> u32" where
  "sum16 m x n = fold (\<lambda>i acc. acc + ucast (load16 m (x + 2 * of_nat i))) [0..<n] 0"

function fold_carry :: "u32 \<Rightarrow> u32" where
  "fold_carry acc = (if drop_bit 16 acc \<noteq> 0 then fold_carry ((acc AND 0xFFFF) + drop_bit 16 acc) else acc)"
  by auto

lemma carry_step:
  "unat ((acc AND 0xFFFF) + drop_bit 16 (acc :: u32)) = unat acc mod 65536 + unat acc div 65536"
proof -
  have a: "unat (acc AND 0xFFFF) = unat acc mod 65536"
  proof -
    have "(0xFFFF :: u32) = mask 16" by (simp add: mask_eq_exp_minus_1)
    then have "acc AND 0xFFFF = take_bit 16 acc" by (simp add: take_bit_eq_mask)
    then show ?thesis by (simp add: take_bit_eq_mod unat_mod_distrib)
  qed
  have d: "unat (drop_bit 16 acc) = unat acc div 65536"
    by (simp add: drop_bit_eq_div unat_div_distrib)
  have "unat acc mod 65536 < 65536" by simp
  moreover have "unat acc div 65536 < 65536" using unat_bound [of acc] by (simp add: less_mult_imp_div_less)
  ultimately have "unat (acc AND 0xFFFF) + unat (drop_bit 16 acc) < 2 ^ 32" unfolding a d by simp
  then have "unat ((acc AND 0xFFFF) + drop_bit 16 acc) = unat (acc AND 0xFFFF) + unat (drop_bit 16 acc)"
    by (subst unat_add_lem [symmetric]) simp
  then show ?thesis unfolding a d .
qed

lemma drop16_zero: "drop_bit 16 (acc :: u32) = 0 \<longleftrightarrow> unat acc < 65536"
  by (simp add: word_unat_eq_iff drop_bit_eq_div unat_div_distrib div_eq_0_iff)

termination fold_carry
proof (relation "measure unat")
  fix acc :: u32 assume "drop_bit 16 acc \<noteq> 0"
  then have s: "65536 \<le> unat acc" unfolding drop16_zero by simp
  then have "1 \<le> unat acc div 65536" by (simp add: div_greater_zero_iff Suc_le_eq)
  moreover have "unat acc = unat acc mod 65536 + 65536 * (unat acc div 65536)" by simp
  ultimately have "unat acc mod 65536 + unat acc div 65536 < unat acc" by linarith
  then show "((acc AND 0xFFFF) + drop_bit 16 acc, acc) \<in> measure unat" by (simp add: carry_step)
qed simp

declare fold_carry.simps [simp del]

definition ip4_compute_checksum :: "u32 \<Rightarrow> mem \<Rightarrow> mem" where
  "ip4_compute_checksum header m =
     (let acc = sum16 m header (unat sizeof_ip4_header div 2);
          acc = fold_carry acc
      in store16 (header + 10) (ucast (NOT acc)) m)"

subsection \<open>Reception\<close>

definition ipv4_rx_packet :: "u32 \<Rightarrow> 'a net_scheme \<Rightarrow> 'a net_scheme" where
  "ipv4_rx_packet pkt s =
     (let header = pkt_cur_data (pkts s pkt);
          s = s\<lparr>ram := ip4_swap_endian header (ram s)\<rparr>;
          header_len = ucast (ram s header AND 0xF) * 4;
          s = set_pkt pkt (\<lambda>p. p\<lparr>pkt_cur_data := pkt_cur_data p + header_len\<rparr>) s;
          s = set_pkt pkt (\<lambda>p. p\<lparr>pkt_cur_data_length := pkt_cur_data_length p - header_len\<rparr>) s
      in if ram s (header + 8) = 0 then set_pkt pkt (\<lambda>p. p\<lparr>pkt_handler := DROP\<rparr>) s
         else if load32 (ram s) (header + 16) \<noteq> OUR_IP_ADDRESS then set_pkt pkt (\<lambda>p. p\<lparr>pkt_handler := DROP\<rparr>) s
         else (let s = set_pkt pkt (\<lambda>p. p\<lparr>pkt_dst_ip := load32 (ram s) (header + 16)\<rparr>) s;
                   s = set_pkt pkt (\<lambda>p. p\<lparr>pkt_src_ip := load32 (ram s) (header + 12)\<rparr>) s;
                   protocol = ram s (header + 9)
               in if protocol = IP_PROTO_TCP then set_pkt pkt (\<lambda>p. p\<lparr>pkt_handler := TCP\<rparr>) s
                  else if protocol = IP_PROTO_UDP then set_pkt pkt (\<lambda>p. p\<lparr>pkt_handler := UDP\<rparr>) s
                  else set_pkt pkt (\<lambda>p. p\<lparr>pkt_handler := DROP\<rparr>) s))"

subsection \<open>Transmission\<close>

definition set_ip4_obj :: "u32 \<Rightarrow> (ip4_tx_q_t \<Rightarrow> ip4_tx_q_t) \<Rightarrow> 'a net_scheme \<Rightarrow> 'a net_scheme" where
  "set_ip4_obj p f s = s\<lparr>ip4_objs := (ip4_objs s)(p := f (ip4_objs s p))\<rparr>"

definition ip4_xmit_packet :: "u8 \<Rightarrow> u32 \<Rightarrow> u32 \<Rightarrow> u16 \<Rightarrow> 'a net_scheme \<Rightarrow> 'a net_scheme option" where
  "ip4_xmit_packet protocol dst payload payload_len s =
     do {
       (new_packet, s) \<leftarrow> get_mem sizeof_ip4_tx_q_t s;
       (payload_copy, s) \<leftarrow> get_mem (ucast payload_len) s;
       let s = s\<lparr>ram := memcpy payload_copy payload (unat payload_len) (ram s)\<rparr>;
       let s = set_ip4_obj new_packet (\<lambda>q. q\<lparr>iq_protocol := protocol, iq_dst_ip := dst,
         iq_payload := payload_copy, iq_payload_len := payload_len\<rparr>) s;
       let (flags, s) = irq_disable s;
       let s = s\<lparr>ip4_tx_queue := new_packet # ip4_tx_queue s\<rparr>;
       let s = irq_enable flags s;
       wake_ip4_tx s
     }"

definition ip4_get_pkt_dst :: "u32 \<Rightarrow> u32" where
  "ip4_get_pkt_dst dst = (if dst AND NET_MASK = OUR_IP_ADDRESS AND NET_MASK then dst else IP_GATEWAY)"

text \<open>The header of an outgoing packet in a zeroed buffer; the two bit fields share the first byte.\<close>

definition ip4_fill_header :: "u32 \<Rightarrow> u8 \<Rightarrow> u32 \<Rightarrow> u32 \<Rightarrow> mem \<Rightarrow> mem" where
  "ip4_fill_header header protocol dst packet_buf_len m =
     (let m = store8 header ((m header AND 0x0F) OR 0x40) m;
          m = store8 header ((m header AND 0xF0) OR 0x05) m;
          m = store16 (header + 2) (ucast packet_buf_len) m;
          m = store8 (header + 8) DEFAULT_TTL m;
          m = store8 (header + 9) protocol m;
          m = store32 (header + 12) OUR_IP_ADDRESS m
      in store32 (header + 16) dst m)"

text \<open>
  \<open>ip4_do_xmit_packet\<close> after the call of \<open>resolve_address\<close>, which has returned the \<open>ether_addr\<close> of the
  entry \<open>dst_hw_addr\<close>, or NULL.
\<close>

definition ip4_do_xmit_resolved :: "u8 \<Rightarrow> u32 \<Rightarrow> u32 \<Rightarrow> u16 \<Rightarrow> u32 \<Rightarrow> 'a net_scheme \<Rightarrow> 'a net_scheme option" where
  "ip4_do_xmit_resolved protocol dst payload payload_len dst_hw_addr s =
     (if dst_hw_addr = 0 then Some s
      else do {
        let packet_buf_len = sizeof_ip4_header + ucast payload_len;
        (packet_buf, s) \<leftarrow> get_mem packet_buf_len s;
        let s = s\<lparr>ram := memset packet_buf 0 (unat packet_buf_len) (ram s)\<rparr>;
        let s = s\<lparr>ram := ip4_fill_header packet_buf protocol dst packet_buf_len (ram s)\<rparr>;
        let s = s\<lparr>ram := ip4_swap_endian packet_buf (ram s)\<rparr>;
        let s = s\<lparr>ram := ip4_compute_checksum packet_buf (ram s)\<rparr>;
        let s = s\<lparr>ram := memcpy (packet_buf + sizeof_ip4_header) payload (unat payload_len) (ram s)\<rparr>;
        s \<leftarrow> ether_tx (ae_ether_addr (arp_entries s dst_hw_addr)) ETHERTYPE_IP packet_buf packet_buf_len s;
        Some (free_mem packet_buf s)
      })"

text \<open>\<open>ip4_do_xmit_packet\<close>: \<open>False\<close> when the caller goes on to wait for the ARP reply.\<close>

definition ip4_do_xmit_packet :: "u8 \<Rightarrow> u32 \<Rightarrow> u32 \<Rightarrow> u16 \<Rightarrow> u32 \<Rightarrow> 'a net_scheme \<Rightarrow> (bool \<times> 'a net_scheme) option" where
  "ip4_do_xmit_packet protocol dst payload payload_len arp_p_req s =
     do {
       (r, s) \<leftarrow> resolve_address (ip4_get_pkt_dst dst) arp_p_req s;
       case r of
         None \<Rightarrow> Some (False, s)
       | Some dst_hw_addr \<Rightarrow> do {
           s \<leftarrow> ip4_do_xmit_resolved protocol dst payload payload_len dst_hw_addr s;
           Some (True, s)
         }
     }"

definition ip4_tx_pop :: "'a net_scheme \<Rightarrow> u32 \<times> 'a net_scheme" where
  "ip4_tx_pop s = (case ip4_tx_queue s of [] \<Rightarrow> (0, s) | p # ps \<Rightarrow> (p, s\<lparr>ip4_tx_queue := ps\<rparr>))"

definition ip4_tx_release :: "u32 \<Rightarrow> 'a net_scheme \<Rightarrow> 'a net_scheme" where
  "ip4_tx_release tx_pkt s = free_mem tx_pkt (free_mem (iq_payload (ip4_objs s tx_pkt)) s)"

text \<open>Where a turn of \<open>ip4_tx_task\<close> ends: at the top of its loop, asleep for a packet, or waiting for
  the address of the packet it holds.\<close>

datatype ip4_tx_result = Sent | Asleep | Resolving u32

definition ip4_tx_task_turn :: "u32 \<Rightarrow> 'a net_scheme \<Rightarrow> (ip4_tx_result \<times> 'a net_scheme) option" where
  "ip4_tx_task_turn arp_p_req s =
     do {
       (awake, s) \<leftarrow> wait_for_volatile_condition (\<lambda>s. ip4_tx_queue s \<noteq> []) ip4_tx_waitq
         (\<lambda>q s. s\<lparr>ip4_tx_waitq := q\<rparr>) s;
       if \<not> awake then Some (Asleep, s)
       else do {
         let (flags, s) = irq_disable s;
         let (tx_pkt, s) = ip4_tx_pop s;
         let s = irq_enable flags s;
         if tx_pkt = 0 then Some (Sent, s)
         else do {
           let q = ip4_objs s tx_pkt;
           (sent, s) \<leftarrow> ip4_do_xmit_packet (iq_protocol q) (iq_dst_ip q) (iq_payload q) (iq_payload_len q) arp_p_req s;
           if sent then Some (Sent, ip4_tx_release tx_pkt s) else Some (Resolving tx_pkt, s)
         }
       }
     }"

text \<open>The task goes on waiting for the address of \<open>tx_pkt\<close>.\<close>

definition ip4_tx_task_resume :: "u32 \<Rightarrow> u32 \<Rightarrow> 'a net_scheme \<Rightarrow> (ip4_tx_result \<times> 'a net_scheme) option" where
  "ip4_tx_task_resume arp_p_req tx_pkt s =
     do {
       (r, s) \<leftarrow> resolve_address_wait arp_p_req s;
       case r of
         None \<Rightarrow> Some (Resolving tx_pkt, s)
       | Some dst_hw_addr \<Rightarrow> do {
           let q = ip4_objs s tx_pkt;
           s \<leftarrow> ip4_do_xmit_resolved (iq_protocol q) (iq_dst_ip q) (iq_payload q) (iq_payload_len q) dst_hw_addr s;
           Some (Sent, ip4_tx_release tx_pkt s)
         }
     }"

definition ipv4_init :: "'a net_scheme \<Rightarrow> 'a net_scheme option" where
  "ipv4_init s = protocol_register IPV4 s"

end
