(* ===== verification/Checksum.thy ===== *)
theory Checksum
  imports Ipv4
begin

text \<open>
  The Internet checksum of \<open>ipv4.c\<close> and \<open>tcp.c\<close>: the carry-folding loop is the sum modulo 65535, and a
  checksum that is stored at an even offset of a run of bytes makes the run sum up to all ones.
\<close>

unbundle bit_operations_syntax

subsection \<open>The folded sum\<close>

lemma fold_carry_reference_nat:
  "unat (fold_carry acc) = (if acc = 0 then 0 else (unat acc - 1) mod 65535 + 1)"
proof (induction acc rule: fold_carry.induct)
  case (1 acc)
  let ?n = "unat acc" and ?acc' = "(acc AND 0xFFFF) + drop_bit 16 acc"
  show ?case
  proof (cases "drop_bit 16 acc = 0")
    case True
    then have lt: "?n < 65536" by (simp add: drop16_zero)
    have f: "fold_carry acc = acc" using True by (simp add: fold_carry.simps)
    show ?thesis
    proof (cases "acc = 0")
      case False
      then have "0 < ?n" by (simp add: unat_gt_0)
      then show ?thesis using lt False unfolding f by simp
    next
      case True
      then show ?thesis using f by simp
    qed
  next
    case False
    then have ge: "65536 \<le> ?n" by (simp add: drop16_zero)
    define q r where "q = ?n div 65536" and "r = ?n mod 65536"
    have n: "?n = 65536 * q + r" by (simp add: q_def r_def)
    have q: "1 \<le> q" using ge by (simp add: q_def div_greater_zero_iff Suc_le_eq)
    have a': "unat ?acc' = r + q" by (simp add: carry_step q_def r_def)
    have nz: "?acc' \<noteq> 0" using a' q by (auto simp: word_unat_eq_iff)
    have "?n - 1 = (r + q - 1) + 65535 * q" using n q by simp
    then have "(?n - 1) mod 65535 = (r + q - 1) mod 65535" by (simp only: mod_mult_self2)
    moreover have "fold_carry acc = fold_carry ?acc'" using False by (subst fold_carry.simps) simp
    moreover have "acc \<noteq> 0" using ge by auto
    ultimately show ?thesis using 1 [OF False] nz a' by simp
  qed
qed

lemma fold_carry_65535:
  assumes "unat acc mod 65535 = 0" "acc \<noteq> 0"
  shows "fold_carry acc = 0xFFFF"
proof -
  obtain k where k: "unat acc = 65535 * k" using assms(1) by auto
  have "0 < unat acc" using assms(2) by (simp add: unat_gt_0)
  with k obtain j where "k = Suc j" by (cases k) auto
  with k have "unat acc - 1 = 65534 + 65535 * j" by simp
  then have "(unat acc - 1) mod 65535 = 65534" by simp
  then show ?thesis using fold_carry_reference_nat [of acc] assms(2) by (simp add: word_unat_eq_iff)
qed

lemma fold_carry_less: "unat (fold_carry acc) < 65536"
  using mod_less_divisor [of 65535 "unat acc - 1"] by (simp add: fold_carry_reference_nat)

lemma fold_carry_mod: "unat (fold_carry acc) mod 65535 = unat acc mod 65535"
proof (cases "acc = 0")
  case True
  then show ?thesis by (simp add: fold_carry_reference_nat)
next
  case False
  then have "0 < unat acc" by (simp add: unat_gt_0)
  then have "(unat acc - 1) + 1 = unat acc" by simp
  then show ?thesis using False by (simp add: fold_carry_reference_nat) (metis mod_Suc_eq)
qed

text \<open>Up to 65536 halfwords are summed without overflow.\<close>

lemma sum16_nat:
  "n \<le> 65536 \<Longrightarrow> unat (sum16 m x n) = (\<Sum>i<n. unat (load16 m (x + 2 * of_nat i)))
    \<and> unat (sum16 m x n) \<le> n * 65535"
proof (induction n)
  case 0
  then show ?case by (simp add: sum16_def)
next
  case (Suc n)
  let ?w = "ucast (load16 m (x + 2 * of_nat n)) :: u32"
  have w: "unat ?w = unat (load16 m (x + 2 * of_nat n))" by (rule unat_ucast16)
  have "unat (load16 m (x + 2 * of_nat n)) < 2 ^ 16" using unsigned_less [of "load16 m (x + 2 * of_nat n)"] by simp
  then have wb: "unat ?w \<le> 65535" unfolding w by simp
  have s: "sum16 m x (Suc n) = sum16 m x n + ?w" by (simp add: sum16_def)
  have b: "unat (sum16 m x n) \<le> n * 65535" using Suc by simp
  have "unat (sum16 m x n) + unat ?w < 2 ^ 32" using b wb Suc.prems by simp
  then have "unat (sum16 m x (Suc n)) = unat (sum16 m x n) + unat ?w"
    unfolding s by (subst unat_add_lem [symmetric]) simp
  then show ?case using Suc b wb w by simp
qed

lemma unat_checksum: "unat (ucast (NOT (fold_carry acc)) :: u16) = 65535 - unat (fold_carry acc)"
proof -
  have "unat (NOT (fold_carry acc)) = 2 ^ 32 - 1 - unat (fold_carry acc)"
  proof -
    have "NOT (fold_carry acc) = 0xFFFFFFFF - fold_carry acc" by (simp add: not_eq_complement)
    moreover have "fold_carry acc \<le> 0xFFFFFFFF" using unat_bound [of "fold_carry acc"] by (simp add: word_le_nat_alt)
    ultimately show ?thesis by (simp add: unat_sub)
  qed
  moreover have "unat (ucast (NOT (fold_carry acc)) :: u16) = unat (NOT (fold_carry acc)) mod 65536"
    by (simp add: unsigned_ucast_eq take_bit_eq_mod)
  moreover have "(2 ^ 32 - 1 - n) mod 65536 = 65535 - n" if "n < 65536" for n :: nat
  proof -
    have "2 ^ 32 - 1 - n = (65535 - n) + 65536 * 65535" using that by simp
    then show ?thesis using that by (simp only: mod_mult_self2) simp
  qed
  ultimately show ?thesis using fold_carry_less [of acc] by simp
qed

subsection \<open>Storing a checksum\<close>

lemma load16_store16_other:
  assumes "i < 65536" "k < 65536" "i \<noteq> k"
  shows "load16 (store16 (x + 2 * of_nat k) v m) (x + 2 * of_nat i) = load16 m (x + 2 * of_nat i)"
proof -
  have o: "x + 2 * of_nat j = x + of_nat (2 * j)" "x + 2 * of_nat j + 1 = x + of_nat (2 * j + 1)" for j :: nat by simp_all
  have ne: "x + of_nat a = x + of_nat b \<longleftrightarrow> a = b" if "a < 131072" "b < 131072" for a b :: nat
    by (rule offset_eq) (use that in auto)
  have p: "2 * i \<noteq> 2 * k + 1" "2 * i + 1 \<noteq> 2 * k" by presburger+
  have d: "x + 2 * of_nat i \<noteq> x + 2 * of_nat k" "x + 2 * of_nat i + 1 \<noteq> x + 2 * of_nat k"
    "x + 2 * of_nat i \<noteq> x + 2 * of_nat k + 1" "x + 2 * of_nat i + 1 \<noteq> x + 2 * of_nat k + 1"
    unfolding o using ne [of "2 * i" "2 * k"] ne [of "2 * i + 1" "2 * k"] ne [of "2 * i" "2 * k + 1"]
      ne [of "2 * i + 1" "2 * k + 1"] assms p by (simp_all add: add.commute)
  show ?thesis by (simp only: load16_def store16_def fun_upd_apply d if_False)
qed

lemma sum16_store:
  assumes n: "n \<le> 65536" and k: "k < n" and z: "load16 m (x + 2 * of_nat k) = 0"
  shows "unat (sum16 (store16 (x + 2 * of_nat k) v m) x n) = unat v + unat (sum16 m x n)"
proof -
  let ?m = "store16 (x + 2 * of_nat k) v m"
  have "unat (sum16 ?m x n) = (\<Sum>i<n. unat (load16 ?m (x + 2 * of_nat i)))" using sum16_nat [OF n] by simp
  also have "\<dots> = unat (load16 ?m (x + 2 * of_nat k)) + (\<Sum>i \<in> {..<n} - {k}. unat (load16 ?m (x + 2 * of_nat i)))"
    using k by (intro sum.remove) simp_all
  also have "(\<Sum>i \<in> {..<n} - {k}. unat (load16 ?m (x + 2 * of_nat i))) = (\<Sum>i \<in> {..<n} - {k}. unat (load16 m (x + 2 * of_nat i)))"
    using n k by (intro sum.cong refl) (simp add: load16_store16_other)
  also have "\<dots> = (\<Sum>i<n. unat (load16 m (x + 2 * of_nat i)))"
    using k z by (simp add: sum.remove [of "{..<n}" k])
  finally show ?thesis using sum16_nat [OF n] by simp
qed

lemma checksum_store:
  assumes n: "n \<le> 65536" and k: "k < n" and z: "load16 m (x + 2 * of_nat k) = 0"
  shows "fold_carry (sum16 (store16 (x + 2 * of_nat k) (ucast (NOT (fold_carry (sum16 m x n)))) m) x n) = 0xFFFF"
proof -
  let ?S = "sum16 m x n"
  let ?T = "sum16 (store16 (x + 2 * of_nat k) (ucast (NOT (fold_carry ?S))) m) x n"
  have T: "unat ?T = 65535 - unat (fold_carry ?S) + unat ?S"
    by (simp only: sum16_store [OF n k z] unat_checksum)
  have le: "unat (fold_carry ?S) \<le> 65535" using fold_carry_less [of ?S] by simp
  show ?thesis
  proof (rule fold_carry_65535)
    have "(65535 - unat (fold_carry ?S) + unat ?S) mod 65535 = (65535 - unat (fold_carry ?S) + unat (fold_carry ?S)) mod 65535"
      using fold_carry_mod [of ?S] by (metis mod_add_right_eq)
    then show "unat ?T mod 65535 = 0" using le T by simp
    show "?T \<noteq> 0"
    proof
      assume "?T = 0"
      then have "unat ?S = 0" "unat (fold_carry ?S) = 65535" using T le by auto
      then show False using fold_carry_reference_nat [of ?S] by (simp add: unat_eq_0)
    qed
  qed
qed

text \<open>The sum reads the bytes of the run only.\<close>

lemma sum16_cong:
  assumes n: "2 * n \<le> 2 ^ 32" and eq: "read_bytes m x (2 * n) = read_bytes m' y (2 * n)"
  shows "sum16 m x n = sum16 m' y n"
proof -
  have b: "m (x + of_nat i) = m' (y + of_nat i)" if "i < 2 * n" for i
    using arg_cong [OF eq, of "\<lambda>bs. bs ! i"] that by (simp add: read_bytes_nth)
  have "load16 m (x + 2 * of_nat i) = load16 m' (y + 2 * of_nat i)" if "i < n" for i
    using b [of "2 * i"] b [of "2 * i + 1"] that by (simp add: load16_def ac_simps)
  then show ?thesis unfolding sum16_def by (intro fold_cong refl) simp
qed


subsection \<open>The sum of a run of bytes\<close>

text \<open>The ones' complement sum that a receiver computes over the bytes \<open>bs\<close>, an odd run padded with a
  zero byte.\<close>

definition inet_sum :: "u8 list \<Rightarrow> u32" where
  "inet_sum bs = fold_carry (sum16 (write_bytes 0 bs (\<lambda>_. 0)) 0 ((length bs + 1) div 2))"

lemma inet_sum_even:
  assumes "length bs = 2 * n" "2 * n \<le> 2 ^ 32" "read_bytes m x (2 * n) = bs"
  shows "inet_sum bs = fold_carry (sum16 m x n)"
proof -
  have "length bs \<le> 2 ^ 32" using assms(1,2) by simp
  from read_write_bytes [OF this, of 0 "\<lambda>_. 0"]
  have "read_bytes (write_bytes 0 bs (\<lambda>_. 0)) 0 (2 * n) = read_bytes m x (2 * n)"
    unfolding assms(1) assms(3) .
  from sum16_cong [OF assms(2) this] show ?thesis using assms(1) by (simp add: inet_sum_def)
qed

lemma inet_sum_pad:
  assumes "odd (length bs)" "length bs < 2 ^ 32"
  shows "inet_sum bs = inet_sum (bs @ [0])"
proof -
  let ?m = "write_bytes 0 bs (\<lambda>_. 0)"
  have "\<not> in_range 0 (length bs) (of_nat (length bs))" using assms(2) by (simp add: in_range_def)
  then have "?m (of_nat (length bs)) = 0" using assms(2) write_bytes_frame [of bs 0 "of_nat (length bs)"] by simp
  then have "write_bytes 0 (bs @ [0]) (\<lambda>_. 0) = ?m"
    by (simp add: write_bytes_append fun_upd_idem)
  then show ?thesis using assms(1) by (simp add: inet_sum_def)
qed


text \<open>A run of bytes with a zero checksum field at an even offset, and the same with the checksum.\<close>

lemma store16_in_run:
  assumes bs: "read_bytes m x (length bs) = bs" "bs = xs @ le16 v @ ys" "length bs \<le> 2 ^ 32"
  shows "store16 (x + of_nat (length xs)) w m = write_bytes x (xs @ le16 w @ ys) m"
proof -
  obtain a b where w: "w = of_le16 a b" by (metis of_le16_le16)
  let ?k = "length xs"
  have m: "m = write_bytes x bs m" using write_bytes_read [OF bs(3), of x m] bs(1) by simp
  have "store16 (x + of_nat ?k) w (write_bytes x bs m) =
      (write_bytes x bs m)(x + of_nat ?k := a, x + of_nat (Suc ?k) := b)"
    by (simp add: w store16_le ac_simps)
  also have "\<dots> = write_bytes x (bs[?k := a, Suc ?k := b]) m"
  proof -
    have "(write_bytes x bs m)(x + of_nat ?k := a) = write_bytes x (bs[?k := a]) m"
      by (rule write_bytes_upd) (use bs(2,3) in simp_all)
    moreover have "(write_bytes x (bs[?k := a]) m)(x + of_nat (Suc ?k) := b) = write_bytes x (bs[?k := a, Suc ?k := b]) m"
      by (rule write_bytes_upd) (use bs(2,3) in simp_all)
    ultimately show ?thesis by (simp only:)
  qed
  also have "bs[?k := a, Suc ?k := b] = xs @ le16 w @ ys"
    by (simp add: bs(2) w) (simp add: le16_def list_update_append)
  finally show ?thesis using m by simp
qed

lemma inet_sum_checksum:
  assumes bs: "read_bytes m x (2 * n) = xs @ le16 0 @ ys" and n: "n \<le> 65536" and k: "length xs = 2 * k"
  shows "inet_sum (xs @ le16 (ucast (NOT (fold_carry (sum16 m x n)))) @ ys) = 0xFFFF"
proof -
  let ?c = "ucast (NOT (fold_carry (sum16 m x n))) :: u16" and ?p = "x + of_nat (length xs)"
  have l: "2 * n = 2 * k + 2 + length ys" using arg_cong [OF bs, of length] k by simp
  have l': "length (xs @ le16 0 @ ys) = 2 * n" using k l by simp
  have eq: "store16 ?p v m = write_bytes x (xs @ le16 v @ ys) m" for v
    by (rule store16_in_run [OF _ refl]) (use bs l' n in simp_all)
  have z: "store16 ?p 0 m = m" using write_bytes_read [of "2 * n" x m] bs n unfolding eq by simp
  have "load16 (store16 ?p 0 m) ?p = 0" by simp
  then have "load16 m ?p = 0" by (simp only: z)
  then have z': "load16 m (x + 2 * of_nat k) = 0" by (simp add: k)
  have "read_bytes (store16 ?p ?c m) x (2 * n) = xs @ le16 ?c @ ys"
    using read_write_bytes [of "xs @ le16 ?c @ ys" x m] l k n unfolding eq by simp
  moreover have "length (xs @ le16 ?c @ ys) = 2 * n" using l k by simp
  ultimately have "inet_sum (xs @ le16 ?c @ ys) = fold_carry (sum16 (store16 ?p ?c m) x n)"
    using inet_sum_even [of "xs @ le16 ?c @ ys" n] n by simp
  also have "\<dots> = 0xFFFF" using checksum_store [OF n _ z'] l k by simp
  finally show ?thesis .
qed


lemma write_bytes_twice:
  assumes "length bs = length cs" "length cs \<le> 2 ^ 32"
  shows "write_bytes p cs (write_bytes p bs m) = write_bytes p cs m"
  by (rule write_bytes_eqI) (use assms read_write_bytes [of cs p "write_bytes p bs m"] in \<open>simp_all add: write_bytes_frame\<close>)

end
