(* ===== verification/Ipv4_Properties.thy ===== *)
theory Ipv4_Properties
  imports Checksum Boot
begin

text \<open>
  The checksum of the IP header, the checks on received packets, and the packets that the transmit
  path builds.
\<close>

unbundle bit_operations_syntax

subsection \<open>The checksum\<close>

text \<open>C21: the loop that adds the carries back ends for every sum and computes the sum modulo
  65535, with 65535 instead of 0 for a sum that is not 0: the ones' complement sum in 16 bits.\<close>

theorem fold_carry_reference:
  "unat (fold_carry acc) = (if acc = 0 then 0 else (unat acc - 1) mod 65535 + 1)"
  by (rule fold_carry_reference_nat)

text \<open>The checksum of a header, whose checksum field is its sixth halfword.\<close>

lemma checksum_verifies:
  assumes "load16 m (h + 10) = 0"
  shows "fold_carry (sum16 (ip4_compute_checksum h m) h 10) = 0xFFFF"
  using checksum_store [of 10 5 m h] assms
  by (simp add: ip4_compute_checksum_def sizeof_ip4_header_def)

text \<open>C22: the header checksum that \<open>ip4_compute_checksum\<close> stores is the one a receiver accepts: when
  the checksum field was 0 before, the ones' complement sum of the whole header is \<open>0xFFFF\<close>
  afterwards. Only the two bytes of the field change.\<close>

theorem ip4_checksum_verifies:
  assumes "load16 m (h + 10) = 0"
  shows "fold_carry (sum16 (ip4_compute_checksum h m) h 10) = 0xFFFF
    \<and> (\<forall>x. x \<noteq> h + 10 \<and> x \<noteq> h + 11 \<longrightarrow> ip4_compute_checksum h m x = m x)"
proof
  show "\<forall>x. x \<noteq> h + 10 \<and> x \<noteq> h + 11 \<longrightarrow> ip4_compute_checksum h m x = m x"
    by (simp add: ip4_compute_checksum_def store16_def Let_def add.commute)
qed (rule checksum_verifies [OF assms])

lemma ip4_checksum_verifies_witness:
  "fold_carry (sum16 (ip4_compute_checksum 0x100 (write_bytes 0x100
     [0x45, 0, 0, 40, 0, 0, 0, 0, 10, 6, 0, 0, 192, 168, 0, 171, 192, 168, 0, 1] (\<lambda>_. 0))) 0x100 10) = 0xFFFF"
  using ip4_checksum_verifies [of "write_bytes 0x100
     [0x45, 0, 0, 40, 0, 0, 0, 0, 10, 6, 0, 0, 192, 168, 0, 171, 192, 168, 0, 1] (\<lambda>_. 0)" "0x100"]
  by (simp add: load16_def)

subsection \<open>Received packets\<close>

lemma ip4_swap_endian_fields:
  "load32 (ip4_swap_endian h m) (h + 16) = be32 m (h + 16)" "load32 (ip4_swap_endian h m) (h + 12) = be32 m (h + 12)"
  "ip4_swap_endian h m h = m h" "ip4_swap_endian h m (h + 8) = m (h + 8)" "ip4_swap_endian h m (h + 9) = m (h + 9)"
  by (simp_all add: ip4_swap_endian_def bytes_simps)

text \<open>The protocol that a packet with this header is for; \<open>DROP\<close> when it is not accepted.\<close>

definition ip4_accepts :: "mem \<Rightarrow> u32 \<Rightarrow> protocol_type" where
  "ip4_accepts m h =
     (if m (h + 8) = 0 \<or> be32 m (h + 16) \<noteq> 0xC0A800AB then DROP
      else if m (h + 9) = 6 then TCP else if m (h + 9) = 17 then UDP else DROP)"

text \<open>C31: \<open>ipv4_rx_packet\<close> decides on the packet by the TTL, the destination address in network order
  and the protocol field, and passes on what follows the header words that the IHL field counts. An
  accepted packet carries the sender's address. No other packet and no byte outside the four swapped
  fields changes. The checksum and the lengths take no part in it: a length smaller than the header
  wraps around.\<close>

theorem ipv4_rx_decision:
  "let h = pkt_cur_data (pkts s pkt); p = pkts s pkt; p' = pkts (ipv4_rx_packet pkt s) pkt;
     len = ucast (ram s h AND 0xF) * 4 in
    pkt_handler p' = ip4_accepts (ram s) h
    \<and> pkt_cur_data p' = pkt_cur_data p + len \<and> pkt_cur_data_length p' = pkt_cur_data_length p - len
    \<and> (pkt_handler p' \<noteq> DROP \<longrightarrow> pkt_src_ip p' = be32 (ram s) (h + 12))
    \<and> (\<forall>q. q \<noteq> pkt \<longrightarrow> pkts (ipv4_rx_packet pkt s) q = pkts s q)
    \<and> ram (ipv4_rx_packet pkt s) = ip4_swap_endian h (ram s)"
  by (simp add: ipv4_rx_packet_def Let_def set_pkt_def ip4_swap_endian_fields ip4_accepts_def
      OUR_IP_ADDRESS_def IP_PROTO_TCP_def IP_PROTO_UDP_def)

text \<open>A UDP packet from 192.168.0.1 to us, 28 bytes long.\<close>

definition example_ip4 :: net where
  "example_ip4 = boot_net\<lparr>ram := write_bytes 0x200
     [0x45, 0, 0, 28, 0, 0, 0, 0, 10, 17, 0, 0, 192, 168, 0, 1, 192, 168, 0, 171] (ram boot_net),
     pkts := (\<lambda>_. \<lparr>pkt_data = 0x200, pkt_cur_data = 0x200, pkt_data_length = 28, pkt_cur_data_length = 28,
       pkt_handler = IPV4, pkt_src_ip = 0, pkt_dst_ip = 0\<rparr>)\<rparr>"

lemma ipv4_rx_decision_witness:
  "pkt_handler (pkts (ipv4_rx_packet 0x10 example_ip4) 0x10) = UDP
    \<and> pkt_src_ip (pkts (ipv4_rx_packet 0x10 example_ip4) 0x10) = 0xC0A80001
    \<and> pkt_cur_data (pkts (ipv4_rx_packet 0x10 example_ip4) 0x10) = 0x214
    \<and> pkt_cur_data_length (pkts (ipv4_rx_packet 0x10 example_ip4) 0x10) = 8"
proof -
  have "ip4_accepts (ram example_ip4) 0x200 = UDP" "be32 (ram example_ip4) 0x20C = 0xC0A80001"
    "ram example_ip4 0x200 = 0x45"
    by (simp_all add: example_ip4_def ip4_accepts_def be32_def push_bit_eq_mult)
  then show ?thesis
    using ipv4_rx_decision [of example_ip4 "0x10"] by (simp add: Let_def) (simp add: example_ip4_def)
qed

end
