(* ===== verification/Udp.thy ===== *)
theory Udp
  imports Ipv4
begin

text \<open>
  \<open>udp.c\<close>. \<open>udp_rx\<close> sleeps until its buffer is full, so it is three definitions: up to the wait, one
  turn of the wait, and the end. The listener lives on the caller's stack; its address is an argument.
\<close>

unbundle bit_operations_syntax

definition EINUSE :: int where
  "EINUSE = 1"

definition sizeof_udp_header :: u32 where
  "sizeof_udp_header = 8"

definition udp_swap_endian :: "u32 \<Rightarrow> mem \<Rightarrow> mem" where
  "udp_swap_endian header m = swap_endian16 (header + 4) (swap_endian16 (header + 2) m)"

definition set_listener :: "u32 \<Rightarrow> (udp_listener \<Rightarrow> udp_listener) \<Rightarrow> 'a net_scheme \<Rightarrow> 'a net_scheme" where
  "set_listener p f s = s\<lparr>listeners := (listeners s)(p := f (listeners s p))\<rparr>"

subsection \<open>Receiving\<close>

text \<open>\<open>Some r\<close>: the function has returned \<open>r\<close>; \<open>None\<close>: the listener is registered and the caller
  waits. On the error path the interrupt mask is not restored.\<close>

definition udp_rx :: "u32 \<Rightarrow> u16 \<Rightarrow> u32 \<Rightarrow> u16 \<Rightarrow> 'a net_scheme \<Rightarrow> int option \<times> 'a net_scheme" where
  "udp_rx newListener port dst_buf dst_buf_sz s =
     (let (flags, s) = irq_disable s
      in if \<exists>i \<in> set (udp_rx_requests s). ul_port (listeners s i) = port then (Some (- EINUSE), s)
         else (let s = set_listener newListener (\<lambda>l. l\<lparr>ul_port := port, ul_dst_buf := dst_buf,
                     ul_dst_buf_sz := dst_buf_sz, ul_dst_buf_ptr := 0\<rparr>) s;
                   s = s\<lparr>udp_rx_requests := newListener # udp_rx_requests s\<rparr>
               in (None, irq_enable flags s)))"

definition udp_rx_wait :: "u32 \<Rightarrow> 'a net_scheme \<Rightarrow> (int option \<times> 'a net_scheme) option" where
  "udp_rx_wait newListener s =
     do {
       (full, s) \<leftarrow> wait_for_volatile_condition
         (\<lambda>s. ul_dst_buf_ptr (listeners s newListener) = ul_dst_buf_sz (listeners s newListener)) udp_waitq
         (\<lambda>q s. s\<lparr>udp_waitq := q\<rparr>) s;
       if \<not> full then Some (None, s)
       else do {
         let (flags, s) = irq_disable s;
         s \<leftarrow> (if newListener \<in> set (udp_rx_requests s)
               then Some (s\<lparr>udp_rx_requests := remove1 newListener (udp_rx_requests s)\<rparr>) else None);
         let s = irq_enable flags s;
         Some (Some (uint (ul_dst_buf_ptr (listeners s newListener))), s)
       }
     }"

text \<open>The payload for one listener on the packet's port: as much as its buffer still takes.\<close>

definition udp_deliver :: "u32 \<Rightarrow> u32 \<Rightarrow> u32 \<Rightarrow> 'a net_scheme \<Rightarrow> 'a net_scheme option" where
  "udp_deliver i udp_payload udp_payload_sz s =
     (let user_buf_sz = ucast (ul_dst_buf_sz (listeners s i)) - ucast (ul_dst_buf_ptr (listeners s i));
          no_bytes_to_copy = user_buf_sz;
          no_bytes_to_copy = (if udp_payload_sz < no_bytes_to_copy then udp_payload_sz else no_bytes_to_copy);
          s = s\<lparr>ram := memcpy (ul_dst_buf (listeners s i) + ucast (ul_dst_buf_ptr (listeners s i))) udp_payload
                 (unat no_bytes_to_copy) (ram s)\<rparr>;
          s = set_listener i (\<lambda>l. l\<lparr>ul_dst_buf_ptr := ul_dst_buf_ptr l + ucast no_bytes_to_copy\<rparr>) s
      in wake_udp s)"

fun udp_deliver_all :: "u32 list \<Rightarrow> u16 \<Rightarrow> u32 \<Rightarrow> u32 \<Rightarrow> 'a net_scheme \<Rightarrow> 'a net_scheme option" where
  "udp_deliver_all [] dport udp_payload udp_payload_sz s = Some s"
| "udp_deliver_all (i # is) dport udp_payload udp_payload_sz s =
     do {
       s \<leftarrow> (if ul_port (listeners s i) = dport then udp_deliver i udp_payload udp_payload_sz s else Some s);
       udp_deliver_all is dport udp_payload udp_payload_sz s
     }"

definition udp_rx_packet :: "u32 \<Rightarrow> 'a net_scheme \<Rightarrow> 'a net_scheme option" where
  "udp_rx_packet pkt s =
     do {
       let header = pkt_cur_data (pkts s pkt);
       let s = set_pkt pkt (\<lambda>p. p\<lparr>pkt_cur_data := pkt_cur_data p + sizeof_udp_header\<rparr>) s;
       let s = set_pkt pkt (\<lambda>p. p\<lparr>pkt_cur_data_length := pkt_cur_data_length p - sizeof_udp_header\<rparr>) s;
       let udp_payload = pkt_cur_data (pkts s pkt);
       let udp_payload_sz = pkt_cur_data_length (pkts s pkt);
       let s = s\<lparr>ram := udp_swap_endian header (ram s)\<rparr>;
       let s = set_pkt pkt (\<lambda>p. p\<lparr>pkt_handler := DROP\<rparr>) s;
       let (flags, s) = irq_disable s;
       s \<leftarrow> udp_deliver_all (udp_rx_requests s) (load16 (ram s) (header + 2)) udp_payload udp_payload_sz s;
       Some (irq_enable flags s)
     }"

subsection \<open>Sending\<close>

definition udp_fill_header :: "u32 \<Rightarrow> u16 \<Rightarrow> u32 \<Rightarrow> mem \<Rightarrow> mem" where
  "udp_fill_header header dport packet_buf_len m =
     (let m = store16 header 0 m;
          m = store16 (header + 2) dport m;
          m = store16 (header + 4) (ucast packet_buf_len) m
      in store16 (header + 6) 0 m)"

definition udp_xmit_packet :: "u16 \<Rightarrow> u32 \<Rightarrow> u32 \<Rightarrow> u32 \<Rightarrow> 'a net_scheme \<Rightarrow> 'a net_scheme option" where
  "udp_xmit_packet dport dst payload payload_len s =
     do {
       let packet_buf_len = sizeof_udp_header + payload_len;
       (packet_buf, s) \<leftarrow> get_mem packet_buf_len s;
       let s = s\<lparr>ram := udp_fill_header packet_buf dport packet_buf_len (ram s)\<rparr>;
       let s = s\<lparr>ram := udp_swap_endian packet_buf (ram s)\<rparr>;
       let s = s\<lparr>ram := memcpy (packet_buf + sizeof_udp_header) payload (unat payload_len) (ram s)\<rparr>;
       s \<leftarrow> ip4_xmit_packet IP_PROTO_UDP dst packet_buf (ucast packet_buf_len) s;
       Some (free_mem packet_buf s)
     }"

definition udp_init :: "'a net_scheme \<Rightarrow> 'a net_scheme option" where
  "udp_init s = protocol_register UDP s"

end
