(* ===== verification/Udp_Properties.thy ===== *)
theory Udp_Properties
  imports Udp Boot
begin

text \<open>What a received UDP packet does to the listeners, and the error path of \<open>udp_rx\<close>.\<close>

unbundle bit_operations_syntax

lemma udp_deliver_all_append:
  "udp_deliver_all (xs @ ys) d p sz s =
     do { s \<leftarrow> udp_deliver_all xs d p sz s; udp_deliver_all ys d p sz s }"
  by (induction xs d p sz s rule: udp_deliver_all.induct) (auto split: bind_splits)

lemma udp_deliver_all_other:
  "\<forall>i \<in> set is. ul_port (listeners s i) \<noteq> d \<Longrightarrow> udp_deliver_all is d p sz s = Some s"
  by (induction "is") auto

lemma udp_swap_endian_eq:
  "udp_swap_endian h m = write_bytes (h + 2) [m (h + 3), m (h + 2), m (h + 5), m (h + 4)] m"
  by (simp add: udp_swap_endian_def bytes_simps fun_upd_def fun_eq_iff add.assoc)

lemma udp_swap_dst: "load16 (udp_swap_endian h m) (h + 2) = be16 m (h + 2)"
  by (simp add: udp_swap_endian_def bytes_simps)

text \<open>The number of bytes a listener still takes of a payload.\<close>

definition udp_take :: "udp_listener \<Rightarrow> nat \<Rightarrow> nat" where
  "udp_take l sz = min sz (unat (ul_dst_buf_sz l) - unat (ul_dst_buf_ptr l))"

text \<open>One listener whose buffer \<open>B\<close> is live gets the payload.\<close>

lemma udp_deliver_ok:
  assumes ok: "net_ok s L n" and l: "listeners s i = l"
    and ptr: "ul_dst_buf_ptr l \<le> ul_dst_buf_sz l" and B: "(unat (ul_dst_buf l), lb) \<in> L" "unat (ul_dst_buf_sz l) \<le> lb"
    and nB: "ul_dst_buf l \<notin> nodes (udp_waitq s)"
  shows "\<exists>m pr. udp_deliver i p sz s = Some ((woken (udp_waitq s) m pr s)\<lparr>
        listeners := (listeners s)(i := l\<lparr>ul_dst_buf_ptr := ul_dst_buf_ptr l + of_nat (udp_take l (unat sz))\<rparr>), udp_waitq := []\<rparr>)
    \<and> net_ok ((woken (udp_waitq s) m pr s)\<lparr>udp_waitq := []\<rparr>) (without L (nodes (udp_waitq s))) n
    \<and> read_bytes m (ul_dst_buf l + ucast (ul_dst_buf_ptr l)) (udp_take l (unat sz)) = read_bytes (ram s) p (udp_take l (unat sz))
    \<and> keeps s (s\<lparr>ram := m\<rparr>) (without L (insert (ul_dst_buf l) (nodes (udp_waitq s))))"
proof -
  let ?B = "ul_dst_buf l" and ?c = "udp_take l (unat sz)" and ?N = "nodes (udp_waitq s)"
  have p16: "unat (ul_dst_buf_ptr l) \<le> unat (ul_dst_buf_sz l)" using ptr by (simp add: word_le_nat_alt)
  let ?r = "ucast (ul_dst_buf_sz l) - ucast (ul_dst_buf_ptr l) :: u32"
  have r: "unat ?r = unat (ul_dst_buf_sz l) - unat (ul_dst_buf_ptr l)"
    using p16 by (simp add: unat_sub word_le_nat_alt unat_ucast16)
  have c: "unat (if sz < ?r then sz else ?r) = ?c" by (simp add: udp_take_def r word_less_nat_alt)
  have cb: "?c < 65536" using r unat16 [of "ul_dst_buf_sz l"] by (simp add: udp_take_def)
  have uc: "ucast (if sz < ?r then sz else ?r) = (of_nat ?c :: u16)"
    unfolding c [symmetric] by (simp add: word_unat_eq_iff unsigned_ucast_eq unsigned_of_nat del: of_nat_unat)
  define m1 where "m1 = memcpy (?B + ucast (ul_dst_buf_ptr l)) p ?c (ram s)"
  have off: "?B + of_nat (unat (ul_dst_buf_ptr l)) = ?B + ucast (ul_dst_buf_ptr l)" by simp
  have fit: "unat (ul_dst_buf_ptr l) + length (read_bytes (ram s) p ?c) \<le> lb"
    using p16 B(2) by (simp add: udp_take_def)
  have w: "net_ok (s\<lparr>ram := m1\<rparr>) L n" "keeps s (s\<lparr>ram := m1\<rparr>) (L - {(unat ?B, lb)})"
    using write_net [OF ok B(1) fit] unfolding off by (simp_all add: m1_def memcpy_def)
  let ?s1 = "(s\<lparr>ram := m1\<rparr>)\<lparr>listeners := (listeners s)(i := l\<lparr>ul_dst_buf_ptr := ul_dst_buf_ptr l + of_nat ?c\<rparr>)\<rparr>"
  have ok1: "net_ok ?s1 L n" using w(1) by simp
  obtain m pr where k: "wake_udp ?s1 = Some ((woken (udp_waitq ?s1) m pr ?s1)\<lparr>udp_waitq := []\<rparr>)"
    "net_ok ((woken (udp_waitq ?s1) m pr ?s1)\<lparr>udp_waitq := []\<rparr>) (without L (nodes (udp_waitq ?s1))) n"
    "keeps ?s1 ((woken (udp_waitq ?s1) m pr ?s1)\<lparr>udp_waitq := []\<rparr>) (without L (nodes (udp_waitq ?s1)))"
    using wake_udp_ok [OF ok1] by blast
  have run: "udp_deliver i p sz s = wake_udp ?s1"
    unfolding udp_deliver_def Let_def c uc l by (simp add: set_listener_def m1_def l)
  have eq: "(woken (udp_waitq ?s1) m pr ?s1)\<lparr>udp_waitq := []\<rparr> = (woken (udp_waitq s) m pr s)\<lparr>
        listeners := (listeners s)(i := l\<lparr>ul_dst_buf_ptr := ul_dst_buf_ptr l + of_nat ?c\<rparr>), udp_waitq := []\<rparr>"
    by simp
  have km: "keeps (s\<lparr>ram := m1\<rparr>) (s\<lparr>ram := m\<rparr>) (without L ?N)" using k(3) by (simp add: keeps_def)
  have Bw: "(unat ?B, lb) \<in> without L ?N" by (rule without_in [OF B(1) nB])
  have "live_bytes {(unat ?B, lb)} (?B + of_nat (unat (ul_dst_buf_ptr l))) ?c"
    by (rule live_bytes_buf [OF net_okD(4) [OF ok] B(1)]) (use fit in simp)
  then have "live_bytes (without L ?N) (?B + ucast (ul_dst_buf_ptr l)) ?c"
    unfolding off using Bw by (auto simp: live_bytes_def)
  then have "read_bytes m (?B + ucast (ul_dst_buf_ptr l)) ?c = read_bytes m1 (?B + ucast (ul_dst_buf_ptr l)) ?c"
    using read_bytes_keeps [OF km] by simp
  moreover have "read_bytes m1 (?B + ucast (ul_dst_buf_ptr l)) ?c = read_bytes (ram s) p ?c"
    using read_write_bytes [of "read_bytes (ram s) p ?c" "?B + ucast (ul_dst_buf_ptr l)" "ram s"] cb
    by (simp add: m1_def memcpy_def)
  moreover have "keeps s (s\<lparr>ram := m\<rparr>) (without L (insert ?B ?N))"
  proof -
    have "keeps s (s\<lparr>ram := m1\<rparr>) (without L (insert ?B ?N))"
      by (rule keeps_subset [OF w(2)]) (auto simp: without_def)
    moreover have "keeps (s\<lparr>ram := m1\<rparr>) (s\<lparr>ram := m\<rparr>) (without L (insert ?B ?N))"
      by (rule keeps_subset [OF km]) (auto simp: without_def)
    ultimately show ?thesis by (rule keeps_trans)
  qed
  moreover have "net_ok ((woken (udp_waitq s) m pr s)\<lparr>udp_waitq := []\<rparr>) (without L ?N) n"
    using k(2) by (simp, elim net_ok_same) (simp_all add: all_waits_def)
  ultimately show ?thesis using run k(1) unfolding eq by auto
qed

text \<open>The packet \<open>pkt\<close> is a UDP header and its payload, at offset \<open>k\<close> of the live frame \<open>F\<close>.\<close>

definition udp_packet :: "'a net_scheme \<Rightarrow> ledger \<Rightarrow> u32 \<Rightarrow> u32 \<Rightarrow> nat \<Rightarrow> nat \<Rightarrow> bool" where
  "udp_packet s L pkt F k lf \<longleftrightarrow> (unat F, lf) \<in> L \<and> pkt_cur_data (pkts s pkt) = F + of_nat k
     \<and> 8 \<le> unat (pkt_cur_data_length (pkts s pkt)) \<and> k + unat (pkt_cur_data_length (pkts s pkt)) \<le> lf"

lemma read_after_swap:
  assumes "n \<le> 2 ^ 31"
  shows "read_bytes (udp_swap_endian h m) (h + 8) n = read_bytes m (h + 8) n"
proof (rule read_bytes_cong)
  fix i assume i: "i < n"
  let ?x = "h + 8 + of_nat i" and ?bs = "[m (h + 3), m (h + 2), m (h + 5), m (h + 4)]"
  have "?x - (h + 2) = of_nat (6 + i)" by simp
  moreover have "unat (of_nat (6 + i) :: u32) = 6 + i" by (rule unat_of_nat_u32) (use i assms in simp)
  ultimately have "\<not> in_range (h + 2) (length ?bs) ?x" by (simp add: in_range_def)
  moreover have "length ?bs \<le> 2 ^ 32" by simp
  ultimately show "udp_swap_endian h m ?x = m ?x" unfolding udp_swap_endian_eq by (rule write_bytes_frame [rotated])
qed

text \<open>The state after a UDP packet has been delivered to its one listener.\<close>

lemma udp_rx_packet_ok:
  assumes ok: "net_ok s L n" and pkt: "udp_packet s L pkt F k lf" and l: "listeners s i = l"
    and i: "i \<in> set (udp_rx_requests s)" "distinct (udp_rx_requests s)"
    and port: "ul_port l = be16 (ram s) (pkt_cur_data (pkts s pkt) + 2)"
    and only: "\<forall>j \<in> set (udp_rx_requests s). j \<noteq> i \<longrightarrow> ul_port (listeners s j) \<noteq> ul_port l"
    and ptr: "ul_dst_buf_ptr l \<le> ul_dst_buf_sz l"
    and B: "(unat (ul_dst_buf l), lb) \<in> L" "unat (ul_dst_buf_sz l) \<le> lb" "ul_dst_buf l \<notin> nodes (udp_waitq s)"
    and c: "c = udp_take l (unat (pkt_cur_data_length (pkts s pkt)) - 8)"
    and P: "P = (pkts s pkt)\<lparr>pkt_cur_data := pkt_cur_data (pkts s pkt) + 8,
      pkt_cur_data_length := pkt_cur_data_length (pkts s pkt) - 8, pkt_handler := DROP\<rparr>"
  shows "\<exists>m pr s'. s' = (woken (udp_waitq s) m pr s)\<lparr>pkts := (pkts s)(pkt := P),
      listeners := (listeners s)(i := l\<lparr>ul_dst_buf_ptr := ul_dst_buf_ptr l + of_nat c\<rparr>), udp_waitq := []\<rparr>
    \<and> udp_rx_packet pkt s = Some s' \<and> net_ok s' (without L (nodes (udp_waitq s))) n
    \<and> read_bytes m (ul_dst_buf l + ucast (ul_dst_buf_ptr l)) c = read_bytes (ram s) (pkt_cur_data (pkts s pkt) + 8) c
    \<and> keeps s s' (without L ({F, ul_dst_buf l} \<union> nodes (udp_waitq s)))"
proof -
  let ?N = "nodes (udp_waitq s)" and ?h = "pkt_cur_data (pkts s pkt)" and ?len = "pkt_cur_data_length (pkts s pkt)"
  let ?B = "ul_dst_buf l"
  have F: "(unat F, lf) \<in> L" "?h = F + of_nat k" "8 \<le> unat ?len" "k + unat ?len \<le> lf"
    using pkt by (auto simp: udp_packet_def)
  define sz where "sz = ?len - 8"
  have usz: "unat sz = unat ?len - 8" using F(3) by (simp add: sz_def unat_sub word_le_nat_alt)
  define m1 where "m1 = udp_swap_endian ?h (ram s)"
  let ?bs = "[ram s (?h + 3), ram s (?h + 2), ram s (?h + 5), ram s (?h + 4)]"
  have off: "F + of_nat (k + 2) = ?h + 2" using F(2) by simp
  have "k + 2 + length ?bs \<le> lf" using F(3,4) by simp
  from write_net [OF ok F(1) this] have w: "net_ok (s\<lparr>ram := m1\<rparr>) L n" "keeps s (s\<lparr>ram := m1\<rparr>) (L - {(unat F, lf)})"
    unfolding off by (simp_all add: m1_def udp_swap_endian_eq del: write_bytes.simps)
  define s1 where "s1 = s\<lparr>ram := m1, pkts := (pkts s)(pkt := P), primask := True\<rparr>"
  have ok1: "net_ok s1 L n" using w(1) unfolding s1_def by (rule net_ok_same) (simp_all add: all_waits_def)
  have f1: "listeners s1 = listeners s" "udp_waitq s1 = udp_waitq s" "ram s1 = m1" "udp_rx_requests s1 = udp_rx_requests s"
    by (simp_all add: s1_def)
  have l1: "listeners s1 i = l" using l f1(1) by simp
  from udp_deliver_ok [OF ok1 l1 ptr B(1,2), of "?h + 8" sz] B(3) obtain m pr where
    d: "udp_deliver i (?h + 8) sz s1 = Some ((woken (udp_waitq s) m pr s1)\<lparr>
        listeners := (listeners s)(i := l\<lparr>ul_dst_buf_ptr := ul_dst_buf_ptr l + of_nat (udp_take l (unat sz))\<rparr>), udp_waitq := []\<rparr>)"
    "net_ok ((woken (udp_waitq s) m pr s1)\<lparr>udp_waitq := []\<rparr>) (without L ?N) n"
    "read_bytes m (?B + ucast (ul_dst_buf_ptr l)) (udp_take l (unat sz)) = read_bytes m1 (?h + 8) (udp_take l (unat sz))"
    "keeps s1 (s1\<lparr>ram := m\<rparr>) (without L (insert ?B ?N))"
    unfolding f1 by auto
  let ?c = "udp_take l (unat sz)"
  define s2 where "s2 = (woken (udp_waitq s) m pr s1)\<lparr>
        listeners := (listeners s)(i := l\<lparr>ul_dst_buf_ptr := ul_dst_buf_ptr l + of_nat ?c\<rparr>), udp_waitq := []\<rparr>"
  note d1 = d(1) [folded s2_def]
  obtain xs ys where xy: "udp_rx_requests s = xs @ i # ys" using i(1) by (meson split_list)
  have ne: "i \<notin> set xs" "i \<notin> set ys" using i(2) unfolding xy by auto
  have "udp_deliver_all xs (ul_port l) (?h + 8) sz s1 = Some s1"
    by (rule udp_deliver_all_other) (use only ne(1) xy f1(1) in auto)
  moreover have "udp_deliver_all ys (ul_port l) (?h + 8) sz s2 = Some s2"
    by (rule udp_deliver_all_other) (use only ne(2) xy in \<open>auto simp: s2_def\<close>)
  ultimately have all: "udp_deliver_all (udp_rx_requests s) (ul_port l) (?h + 8) sz s1 = Some s2"
    unfolding xy udp_deliver_all_append using d1 l1 by simp
  let ?s' = "s2\<lparr>primask := primask s\<rparr>"
  have run: "udp_rx_packet pkt s = Some ?s'"
  proof -
    have "load16 m1 (?h + 2) = ul_port l" unfolding m1_def udp_swap_dst port ..
    then show ?thesis
      using all unfolding udp_rx_packet_def Let_def s1_def P m1_def sz_def sizeof_udp_header_def
      by (simp add: set_pkt_def irq_defs)
  qed
  have c': "c = ?c" by (simp add: usz c)
  have "?c \<le> 2 ^ 31" using unat16 [of "ul_dst_buf_sz l"] by (simp add: udp_take_def)
  then have rd: "read_bytes m1 (?h + 8) ?c = read_bytes (ram s) (?h + 8) ?c"
    unfolding m1_def by (rule read_after_swap)
  have K: "keeps s ?s' (without L ({F, ?B} \<union> ?N))"
  proof -
    have "keeps s s1 (without L ({F, ?B} \<union> ?N))"
      by (rule keeps_subset [of _ _ "L - {(unat F, lf)}"])
        (use w(2) in \<open>auto simp: keeps_def without_def s1_def\<close>)
    moreover have "keeps s1 ?s' (without L ({F, ?B} \<union> ?N))"
      by (rule keeps_subset [of _ _ "without L (insert ?B ?N)"])
        (use d(4) in \<open>auto simp: keeps_def without_def s2_def\<close>)
    ultimately show ?thesis by (rule keeps_trans)
  qed
  have ok': "net_ok ?s' (without L ?N) n"
    using d(2) by (rule net_ok_same) (simp_all add: all_waits_def s2_def)
  have eq: "?s' = (woken (udp_waitq s) m pr s)\<lparr>pkts := (pkts s)(pkt := P),
      listeners := (listeners s)(i := l\<lparr>ul_dst_buf_ptr := ul_dst_buf_ptr l + of_nat c\<rparr>), udp_waitq := []\<rparr>"
    by (simp add: s2_def s1_def c')
  show ?thesis
    by (rule exI [of _ m], rule exI [of _ pr], rule exI [of _ ?s'], intro conjI eq run ok' K) (use d(3) rd c' in simp)
qed

text \<open>The fill pointer neither wraps around nor leaves the buffer.\<close>

lemma udp_fill:
  assumes "ul_dst_buf_ptr l \<le> ul_dst_buf_sz l"
  shows "unat (ul_dst_buf_ptr l + of_nat (udp_take l sz)) = unat (ul_dst_buf_ptr l) + udp_take l sz"
    and "ul_dst_buf_ptr l + of_nat (udp_take l sz) \<le> ul_dst_buf_sz l"
proof -
  have p: "unat (ul_dst_buf_ptr l) + udp_take l sz \<le> unat (ul_dst_buf_sz l)"
    using assms by (simp add: udp_take_def word_le_nat_alt)
  then have "unat (ul_dst_buf_ptr l) + udp_take l sz < 2 ^ 16" using unat16 [of "ul_dst_buf_sz l"] by simp
  then show f: "unat (ul_dst_buf_ptr l + of_nat (udp_take l sz)) = unat (ul_dst_buf_ptr l) + udp_take l sz"
    by (subst unat_add_lem [THEN iffD1]) (simp_all add: unsigned_of_nat take_bit_nat_eq_self)
  show "ul_dst_buf_ptr l + of_nat (udp_take l sz) \<le> ul_dst_buf_sz l" using p f by (simp add: word_le_nat_alt)
qed

subsection \<open>All listeners of a port\<close>

definition udp_filled :: "udp_listener \<Rightarrow> nat \<Rightarrow> udp_listener" where
  "udp_filled l sz = l\<lparr>ul_dst_buf_ptr := ul_dst_buf_ptr l + of_nat (udp_take l sz)\<rparr>"

text \<open>The buffer of a listener is live, as large as the listener says, filled up to somewhere in it, and none of \<open>A\<close>.\<close>

definition udp_buffer_ok :: "ledger \<Rightarrow> u32 set \<Rightarrow> udp_listener \<Rightarrow> bool" where
  "udp_buffer_ok L A l \<longleftrightarrow> ul_dst_buf_ptr l \<le> ul_dst_buf_sz l \<and> ul_dst_buf l \<notin> A
     \<and> (\<exists>lb. (unat (ul_dst_buf l), lb) \<in> L \<and> unat (ul_dst_buf_sz l) \<le> lb)"

definition udp_listeners_on :: "u16 \<Rightarrow> u32 list \<Rightarrow> 'a net_scheme \<Rightarrow> u32 set" where
  "udp_listeners_on d is s = {i \<in> set is. ul_port (listeners s i) = d}"

abbreviation udp_buffers :: "'a net_scheme \<Rightarrow> u32 set \<Rightarrow> u32 set" where
  "udp_buffers s M \<equiv> (\<lambda>i. ul_dst_buf (listeners s i)) ` M"

text \<open>The bytes of the payload and of what a listener has got, as live bytes.\<close>

lemma udp_got_live:
  assumes "heap_rep s L" "udp_buffer_ok L A l"
  obtains lb where "(unat (ul_dst_buf l), lb) \<in> L"
    "live_bytes {(unat (ul_dst_buf l), lb)} (ul_dst_buf l + ucast (ul_dst_buf_ptr l)) (udp_take l sz)"
proof -
  obtain lb where lb: "(unat (ul_dst_buf l), lb) \<in> L" "unat (ul_dst_buf_sz l) \<le> lb" "ul_dst_buf_ptr l \<le> ul_dst_buf_sz l"
    using assms(2) by (auto simp: udp_buffer_ok_def)
  have "unat (ul_dst_buf_ptr l) + udp_take l sz \<le> lb" using lb(2,3) by (simp add: udp_take_def word_le_nat_alt)
  from live_bytes_buf [OF assms(1) lb(1) this] have "live_bytes {(unat (ul_dst_buf l), lb)} (ul_dst_buf l + ucast (ul_dst_buf_ptr l)) (udp_take l sz)"
    by simp
  with lb(1) show thesis by (rule that)
qed

definition udp_delivered :: "'a net_scheme \<Rightarrow> ledger \<Rightarrow> u32 set \<Rightarrow> u32 \<Rightarrow> nat \<Rightarrow> 'a net_scheme \<Rightarrow> nat \<Rightarrow> bool" where
  "udp_delivered s L M p sz s' n \<longleftrightarrow> (let W = (if M = {} then [] else udp_waitq s) in
     net_ok s' (without L (nodes W)) n
     \<and> listeners s' = (\<lambda>i. if i \<in> M then udp_filled (listeners s i) sz else listeners s i)
     \<and> (\<forall>i \<in> M. let l = listeners s i; c = udp_take l sz in
          read_bytes (ram s') (ul_dst_buf l + ucast (ul_dst_buf_ptr l)) c = read_bytes (ram s) p c)
     \<and> keeps s s' (without L (udp_buffers s M \<union> nodes W)) \<and> pkts s' = pkts s \<and> primask s' = primask s
     \<and> udp_waitq s' = (if M = {} then udp_waitq s else []) \<and> runqueue s' = rev (map snd W) @ runqueue s)"

lemma udp_deliver_all_ok:
  assumes "net_ok s L n" "distinct is" "M = udp_listeners_on d is s"
    and "\<forall>i \<in> M. udp_buffer_ok L (insert F (nodes (udp_waitq s))) (listeners s i)" "inj_on (\<lambda>i. ul_dst_buf (listeners s i)) M"
    and "(unat F, lf) \<in> L" "F \<notin> nodes (udp_waitq s)" "p = F + of_nat k" "k + unat sz \<le> lf"
  shows "\<exists>s'. udp_deliver_all is d p sz s = Some s' \<and> udp_delivered s L M p (unat sz) s' n"
  using assms
proof (induction "is" arbitrary: s L M)
  case Nil
  then show ?case by (simp add: udp_delivered_def udp_listeners_on_def Let_def nodes_def)
next
  case (Cons i "is")
  let ?l = "listeners s i" and ?N = "nodes (udp_waitq s)"
  have i: "i \<notin> set is" "distinct is" using Cons.prems(2) by simp_all
  show ?case
  proof (cases "ul_port ?l = d")
    case False
    then have "M = udp_listeners_on d is s" using Cons.prems(3) by (auto simp: udp_listeners_on_def)
    from Cons.IH [OF Cons.prems(1) i(2) this Cons.prems(4-9)] show ?thesis using False by simp
  next
    case True
    let ?B = "ul_dst_buf ?l" and ?c = "udp_take ?l (unat sz)" and ?L = "without L ?N"
    define R where "R = udp_listeners_on d is s"
    have M: "M = insert i R" "i \<notin> R" using True i(1) Cons.prems(3) by (auto simp: udp_listeners_on_def R_def)
    have b: "udp_buffer_ok L (insert F ?N) ?l" using Cons.prems(4) M(1) by simp
    then have nB: "?B \<notin> ?N" "?B \<noteq> F" and ptr: "ul_dst_buf_ptr ?l \<le> ul_dst_buf_sz ?l" by (auto simp: udp_buffer_ok_def)
    obtain lb where B: "(unat ?B, lb) \<in> L" "unat (ul_dst_buf_sz ?l) \<le> lb" using b by (auto simp: udp_buffer_ok_def)
    obtain m pr where d: "udp_deliver i p sz s = Some ((woken (udp_waitq s) m pr s)\<lparr>
          listeners := (listeners s)(i := ?l\<lparr>ul_dst_buf_ptr := ul_dst_buf_ptr ?l + of_nat ?c\<rparr>), udp_waitq := []\<rparr>)"
      "net_ok ((woken (udp_waitq s) m pr s)\<lparr>udp_waitq := []\<rparr>) ?L n"
      "read_bytes m (?B + ucast (ul_dst_buf_ptr ?l)) ?c = read_bytes (ram s) p ?c"
      "keeps s (s\<lparr>ram := m\<rparr>) (without L (insert ?B ?N))"
      using udp_deliver_ok [OF Cons.prems(1) refl ptr B nB(1)] by blast
    define s1 where "s1 = (woken (udp_waitq s) m pr s)\<lparr>
          listeners := (listeners s)(i := ?l\<lparr>ul_dst_buf_ptr := ul_dst_buf_ptr ?l + of_nat ?c\<rparr>), udp_waitq := []\<rparr>"
    have ok1: "net_ok s1 ?L n" using d(2) by (rule net_ok_same) (simp_all add: s1_def all_waits_def)
    have f1: "udp_waitq s1 = []" "ram s1 = m" "pkts s1 = pkts s" "primask s1 = primask s"
      "runqueue s1 = rev (map snd (udp_waitq s)) @ runqueue s" "listeners s1 i = udp_filled ?l (unat sz)"
      by (simp_all add: s1_def udp_filled_def)
    have l1: "listeners s1 j = listeners s j" if "j \<noteq> i" for j using that by (simp add: s1_def)
    have R1: "R = udp_listeners_on d is s1" using i(1) by (auto simp: R_def udp_listeners_on_def s1_def)
    have lR: "listeners s1 j = listeners s j" if "j \<in> R" for j by (rule l1) (use that M(2) in auto)
    have okR: "\<forall>j \<in> R. udp_buffer_ok ?L (insert F (nodes (udp_waitq s1))) (listeners s1 j)"
    proof
      fix j assume j: "j \<in> R"
      then have "udp_buffer_ok L (insert F ?N) (listeners s j)" using Cons.prems(4) M(1) by simp
      then show "udp_buffer_ok ?L (insert F (nodes (udp_waitq s1))) (listeners s1 j)"
        unfolding lR [OF j] udp_buffer_ok_def using without_in [of "ul_dst_buf (listeners s j)" _ L ?N]
        by (auto simp: f1(1) nodes_def)
    qed
    have injM: "inj_on (\<lambda>j. ul_dst_buf (listeners s j)) M" by (rule Cons.prems(5))
    have injR: "inj_on (\<lambda>j. ul_dst_buf (listeners s1 j)) R"
      using injM lR by (auto simp: inj_on_def M(1))
    have F1: "(unat F, lf) \<in> ?L" "F \<notin> nodes (udp_waitq s1)" using without_in [OF Cons.prems(6,7)] by (simp_all add: f1(1) nodes_def)
    from Cons.IH [OF ok1 i(2) R1 okR injR F1 Cons.prems(8,9)] obtain s2 where
      s2: "udp_deliver_all is d p sz s1 = Some s2" "udp_delivered s1 ?L R p (unat sz) s2 n" by blast
    have W: "nodes (if R = {} then [] else udp_waitq s1) = {}" "rev (map snd (if R = {} then [] else udp_waitq s1)) = []"
      by (simp_all add: f1(1) nodes_def)
    have bufR: "udp_buffers s1 R = udp_buffers s R" by (rule image_cong [OF refl]) (simp add: lR)
    have r: "net_ok s2 ?L n" "listeners s2 = (\<lambda>j. if j \<in> R then udp_filled (listeners s1 j) (unat sz) else listeners s1 j)"
      "\<And>j. j \<in> R \<Longrightarrow> read_bytes (ram s2) (ul_dst_buf (listeners s j) + ucast (ul_dst_buf_ptr (listeners s j))) (udp_take (listeners s j) (unat sz))
        = read_bytes m p (udp_take (listeners s j) (unat sz))"
      "keeps s1 s2 (without ?L (udp_buffers s R))" "pkts s2 = pkts s" "primask s2 = primask s" "udp_waitq s2 = []"
      "runqueue s2 = rev (map snd (udp_waitq s)) @ runqueue s"
      using s2(2) W lR unfolding udp_delivered_def Let_def bufR f1 by (auto simp: Let_def)
    have K1: "keeps s s1 (without L (insert ?B ?N))" using d(4) by (simp add: keeps_def f1(2))
    have old: "?B \<notin> udp_buffers s R" using injM M(2) by (auto simp: M(1) inj_on_def)
    obtain lb' where lb': "(unat ?B, lb') \<in> L" "live_bytes {(unat ?B, lb')} (?B + ucast (ul_dst_buf_ptr ?l)) ?c"
      by (rule udp_got_live [OF net_okD(4) [OF Cons.prems(1)] b])
    have "(unat ?B, lb') \<in> without ?L (udp_buffers s R)"
      using without_in [OF lb'(1), of "?N \<union> udp_buffers s R"] nB(1) old by (simp add: without_without)
    then have "live_bytes (without ?L (udp_buffers s R)) (?B + ucast (ul_dst_buf_ptr ?l)) ?c"
      using lb'(2) by (auto simp: live_bytes_def)
    then have got: "read_bytes (ram s2) (?B + ucast (ul_dst_buf_ptr ?l)) ?c = read_bytes (ram s) p ?c"
      using read_bytes_keeps [OF r(4)] d(3) f1(2) by simp
    have src: "read_bytes m p (udp_take (listeners s j) (unat sz)) = read_bytes (ram s) p (udp_take (listeners s j) (unat sz))" for j
    proof -
      have "k + udp_take (listeners s j) (unat sz) \<le> lf" using Cons.prems(9) by (simp add: udp_take_def)
      from live_bytes_buf [OF net_okD(4) [OF Cons.prems(1)] Cons.prems(6) this]
      have "live_bytes {(unat F, lf)} p (udp_take (listeners s j) (unat sz))" by (simp add: Cons.prems(8))
      moreover have "(unat F, lf) \<in> without L (insert ?B ?N)"
        using without_in [OF Cons.prems(6), of "insert ?B ?N"] Cons.prems(7) nB(2) by simp
      ultimately have "live_bytes (without L (insert ?B ?N)) p (udp_take (listeners s j) (unat sz))" by (auto simp: live_bytes_def)
      then show ?thesis using read_bytes_keeps [OF K1] f1(2) by simp
    qed
    have kp: "keeps s s2 (without L (udp_buffers s M \<union> ?N))"
    proof -
      have "keeps s s1 (without L (udp_buffers s M \<union> ?N))"
        by (rule keeps_subset [OF K1]) (auto simp: without_def M(1))
      moreover have "keeps s1 s2 (without L (udp_buffers s M \<union> ?N))"
        by (rule keeps_subset [OF r(4)]) (auto simp: without_def M(1))
      ultimately show ?thesis by (rule keeps_trans)
    qed
    have ls: "listeners s2 = (\<lambda>j. if j \<in> M then udp_filled (listeners s j) (unat sz) else listeners s j)"
      unfolding r(2) using M f1(6) l1 lR by (auto simp: fun_eq_iff)
    have "udp_deliver_all (i # is) d p sz s = Some s2" using True d(1) s2(1) by (simp add: s1_def)
    moreover have "udp_delivered s L M p (unat sz) s2 n"
      unfolding udp_delivered_def using r(1,5-8) ls kp got r(3) src M(1) by (auto simp: Let_def)
    ultimately show ?thesis by blast
  qed
qed

text \<open>C24: a UDP packet is delivered to all listeners on its port, to each as much of the payload as its
  buffer still has room for and never more, behind what is there: the fill pointer grows by that number and stays
  within the buffer. No other listener changes. When there was one, all sleepers on UDP are woken. The packet is
  done with, and no live buffer changes but those of the listeners and the frame, whose header is
  swapped in place. The buffers of the listeners are supposed to be allocations of their own. (\<open>udp_rx\<close> refuses a second
  listener on a port, the delivery loop of the code goes over all of them.)\<close>

theorem udp_delivery_bounded:
  assumes ok: "net_ok s L n" and pkt: "udp_packet s L pkt F k lf" and dist: "distinct (udp_rx_requests s)"
    and M: "M = udp_listeners_on (be16 (ram s) (pkt_cur_data (pkts s pkt) + 2)) (udp_rx_requests s) s"
    and sz: "sz = unat (pkt_cur_data_length (pkts s pkt)) - 8" and W: "W = (if M = {} then [] else udp_waitq s)"
    and bufs: "\<forall>i \<in> M. udp_buffer_ok L (insert F (nodes (udp_waitq s))) (listeners s i)"
      "inj_on (\<lambda>i. ul_dst_buf (listeners s i)) M" and F: "F \<notin> nodes (udp_waitq s)"
  shows "\<exists>s'. udp_rx_packet pkt s = Some s' \<and> pkt_handler (pkts s' pkt) = DROP \<and> primask s' = primask s
    \<and> (\<forall>i \<in> M. let l = listeners s i; l' = listeners s' i; c = udp_take l sz in
         read_bytes (ram s') (ul_dst_buf l + ucast (ul_dst_buf_ptr l)) c = read_bytes (ram s) (pkt_cur_data (pkts s pkt) + 8) c
         \<and> unat (ul_dst_buf_ptr l') = unat (ul_dst_buf_ptr l) + c \<and> ul_dst_buf_ptr l' \<le> ul_dst_buf_sz l)
    \<and> (\<forall>i. i \<notin> M \<longrightarrow> listeners s' i = listeners s i)
    \<and> udp_waitq s' = (if M = {} then udp_waitq s else []) \<and> runqueue s' = rev (map snd W) @ runqueue s
    \<and> net_ok s' (without L (nodes W)) n \<and> keeps s s' (without L ({F} \<union> udp_buffers s M \<union> nodes W))"
proof -
  let ?h = "pkt_cur_data (pkts s pkt)" and ?len = "pkt_cur_data_length (pkts s pkt)" and ?d = "be16 (ram s) (pkt_cur_data (pkts s pkt) + 2)"
  have p: "(unat F, lf) \<in> L" "?h = F + of_nat k" "8 \<le> unat ?len" "k + unat ?len \<le> lf" using pkt by (auto simp: udp_packet_def)
  have usz: "unat (?len - 8) = sz" using p(3) by (simp add: sz unat_sub word_le_nat_alt)
  let ?m = "udp_swap_endian ?h (ram s)"
  let ?bs = "[ram s (?h + 3), ram s (?h + 2), ram s (?h + 5), ram s (?h + 4)]"
  have off: "F + of_nat (k + 2) = ?h + 2" "?h + 8 = F + of_nat (k + 8)" using p(2) by simp_all
  have "k + 2 + length ?bs \<le> lf" using p(3,4) by simp
  from write_net [OF ok p(1) this] have w: "net_ok (s\<lparr>ram := ?m\<rparr>) L n" "keeps s (s\<lparr>ram := ?m\<rparr>) (L - {(unat F, lf)})"
    unfolding off(1) by (simp_all add: udp_swap_endian_eq del: write_bytes.simps)
  define s1 where "s1 = s\<lparr>ram := ?m, pkts := (pkts s)(pkt := (pkts s pkt)\<lparr>pkt_cur_data := ?h + 8,
      pkt_cur_data_length := ?len - 8, pkt_handler := DROP\<rparr>), primask := True\<rparr>"
  have ok1: "net_ok s1 L n" using w(1) unfolding s1_def by (rule net_ok_same) (simp_all add: all_waits_def)
  have f1: "listeners s1 = listeners s" "udp_waitq s1 = udp_waitq s" "ram s1 = ?m" "runqueue s1 = runqueue s"
    "pkt_handler (pkts s1 pkt) = DROP" by (simp_all add: s1_def)
  have M1: "M = udp_listeners_on ?d (udp_rx_requests s) s1" by (simp add: M udp_listeners_on_def f1(1))
  have fit: "k + 8 + unat (?len - 8) \<le> lf" using p(3,4) by (simp add: usz sz)
  obtain s2 where s2: "udp_deliver_all (udp_rx_requests s) ?d (?h + 8) (?len - 8) s1 = Some s2"
    "udp_delivered s1 L M (?h + 8) sz s2 n"
    using udp_deliver_all_ok [OF ok1 dist M1, unfolded f1, OF bufs p(1) F off(2) fit] unfolding usz by blast
  let ?s' = "s2\<lparr>primask := primask s\<rparr>"
  have run: "udp_rx_packet pkt s = Some ?s'"
    using s2(1) unfolding udp_rx_packet_def Let_def s1_def sizeof_udp_header_def
    by (simp add: set_pkt_def irq_defs udp_swap_dst)
  have r: "net_ok s2 (without L (nodes W)) n" "listeners s2 = (\<lambda>i. if i \<in> M then udp_filled (listeners s i) sz else listeners s i)"
    "\<And>i. i \<in> M \<Longrightarrow> read_bytes (ram s2) (ul_dst_buf (listeners s i) + ucast (ul_dst_buf_ptr (listeners s i))) (udp_take (listeners s i) sz)
        = read_bytes ?m (?h + 8) (udp_take (listeners s i) sz)"
    "keeps s1 s2 (without L (udp_buffers s M \<union> nodes W))" "pkts s2 = pkts s1"
    "udp_waitq s2 = (if M = {} then udp_waitq s else [])" "runqueue s2 = rev (map snd W) @ runqueue s"
    using s2(2) unfolding udp_delivered_def Let_def f1 W by auto
  have rd: "read_bytes ?m (?h + 8) (udp_take l sz) = read_bytes (ram s) (?h + 8) (udp_take l sz)" for l
    by (rule read_after_swap) (use unat16 [of "ul_dst_buf_sz l"] in \<open>simp add: udp_take_def\<close>)
  have each: "unat (ul_dst_buf_ptr (listeners s2 i)) = unat (ul_dst_buf_ptr (listeners s i)) + udp_take (listeners s i) sz"
    "ul_dst_buf_ptr (listeners s2 i) \<le> ul_dst_buf_sz (listeners s i)" if i: "i \<in> M" for i
    using udp_fill [of "listeners s i" sz] bufs(1) i by (simp_all add: r(2) udp_filled_def udp_buffer_ok_def)
  have "keeps s s1 (without L ({F} \<union> udp_buffers s M \<union> nodes W))"
    by (rule keeps_subset [of _ _ "L - {(unat F, lf)}"]) (use w(2) in \<open>auto simp: keeps_def without_def s1_def\<close>)
  moreover have "keeps s1 s2 (without L ({F} \<union> udp_buffers s M \<union> nodes W))"
    by (rule keeps_subset [OF r(4)]) (auto simp: without_def)
  ultimately have kp: "keeps s ?s' (without L ({F} \<union> udp_buffers s M \<union> nodes W))"
    using keeps_trans by (simp add: keeps_def)
  have ok': "net_ok ?s' (without L (nodes W)) n" using r(1) by simp
  show ?thesis
    using r(2,3,5-7) each rd f1(5) by (intro exI [of _ ?s'] conjI run ok' kp) (auto simp: Let_def)
qed

lemma udp_delivery_bounded_witness:
  "\<exists>(s :: net) s'. udp_rx_packet 0x10 s = Some s' \<and> udp_rx_requests s = [0x300, 0x320] \<and> ul_port (listeners s 0x300) = ul_port (listeners s 0x320)
    \<and> unat (ul_dst_buf_ptr (listeners s' 0x300)) = 12 \<and> unat (ul_dst_buf_ptr (listeners s' 0x320)) = 32 \<and> pkt_handler (pkts s' 0x10) = DROP"
proof (rule boot_net_three)
  fix m
  let ?L = "{(0x2007C004, 64), (0x2007C04C, 60), (0x2007C090, 64)} :: ledger" and ?p = "0x2007C04C :: u32"
  assume b: "net_ok (boot_net\<lparr>ram := m\<rparr>) ?L 30000"
  let ?l = "\<lparr>ul_dst_buf = 0x2007C004, ul_dst_buf_sz = 12, ul_dst_buf_ptr = 4, ul_port = be16 m (?p + 2)\<rparr>"
  let ?k = "\<lparr>ul_dst_buf = 0x2007C090, ul_dst_buf_sz = 64, ul_dst_buf_ptr = 0, ul_port = be16 m (?p + 2)\<rparr>"
  let ?M = "{0x300, 0x320} :: u32 set"
  let ?s = "(boot_net\<lparr>ram := m\<rparr>)\<lparr>listeners := (\<lambda>i. if i = 0x300 then ?l else ?k), udp_rx_requests := [0x300, 0x320], pkts := (\<lambda>_. \<lparr>pkt_data = ?p,
      pkt_cur_data = ?p, pkt_data_length = 40, pkt_cur_data_length = 40, pkt_handler = UDP, pkt_src_ip = 0, pkt_dst_ip = 0\<rparr>)\<rparr>"
  have ok: "net_ok ?s ?L 30000" using b by (rule net_ok_same) (simp_all add: all_waits_def)
  have u: "udp_packet ?s ?L 0x10 ?p 0 60" by (simp add: udp_packet_def)
  have M: "?M = udp_listeners_on (be16 (ram ?s) (pkt_cur_data (pkts ?s 0x10) + 2)) (udp_rx_requests ?s) ?s"
    by (auto simp: udp_listeners_on_def)
  have c: "distinct (udp_rx_requests ?s)" "?p \<notin> nodes (udp_waitq ?s)" "inj_on (\<lambda>i. ul_dst_buf (listeners ?s i)) ?M"
    "\<forall>i \<in> ?M. udp_buffer_ok ?L (insert ?p (nodes (udp_waitq ?s))) (listeners ?s i)"
    by (simp_all add: nodes_def udp_buffer_ok_def)
  obtain s' where "udp_rx_packet 0x10 ?s = Some s'" "pkt_handler (pkts s' 0x10) = DROP"
    "unat (ul_dst_buf_ptr (listeners s' 0x300)) = unat (ul_dst_buf_ptr ?l) + udp_take ?l (40 - 8)"
    "unat (ul_dst_buf_ptr (listeners s' 0x320)) = unat (ul_dst_buf_ptr ?k) + udp_take ?k (40 - 8)"
    using udp_delivery_bounded [OF ok u c(1) M refl refl c(4,3,2)] by (auto simp: Let_def)
  then show ?thesis by (intro exI [of _ ?s] exI [of _ s']) (simp add: udp_take_def)
qed

text \<open>A second listener on a port is refused with \<open>-EINUSE\<close> before anything is registered, but
  that path returns with interrupts masked whatever the mask was before; on the other path the mask
  is restored and the listener is registered with an empty buffer.\<close>

theorem udp_rx_in_use:
  "udp_rx l port buf sz s =
     (if port \<in> ul_port ` listeners s ` set (udp_rx_requests s) then (Some (- 1), s\<lparr>primask := True\<rparr>)
      else (None, s\<lparr>listeners := (listeners s)(l := (listeners s l)\<lparr>ul_port := port, ul_dst_buf := buf,
                ul_dst_buf_sz := sz, ul_dst_buf_ptr := 0\<rparr>), udp_rx_requests := l # udp_rx_requests s\<rparr>))"
proof -
  have "(\<exists>i \<in> set (udp_rx_requests s). ul_port (listeners s i) = port) \<longleftrightarrow> port \<in> ul_port ` listeners s ` set (udp_rx_requests s)"
    by auto
  then show ?thesis by (simp add: udp_rx_def irq_defs EINUSE_def set_listener_def)
qed

end
