(* ===== verification/Arp_Properties.thy ===== *)
theory Arp_Properties
  imports Arp Boot
begin

text \<open>The packets that ARP builds, the answers it gives and takes, and its timeout.\<close>

unbundle bit_operations_syntax

subsection \<open>Packets\<close>


lemma fill_arp_addrs_eq:
  assumes "length sha = 6" "length tha = 6"
  shows "fill_arp_addrs p sha tha m = write_bytes (p + 8) sha (write_bytes (p + 18) tha m)"
proof -
  obtain a b c d e f where sha: "sha = [a, b, c, d, e, f]" using assms(1) by (auto simp: six)
  obtain a' b' c' d' e' f' where tha: "tha = [a', b', c', d', e', f']" using assms(2) by (auto simp: six)
  have u: "[0..<6] = [0, 1, 2, 3, 4, 5]" by (simp add: upt_rec)
  show ?thesis
    by (simp add: fill_arp_addrs_def ETHER_ADDR_LEN_def u sha tha add.assoc) (simp add: fun_upd_def fun_eq_iff)
qed


subsection \<open>The timeout\<close>

definition tick_req :: "arp_pending_request \<Rightarrow> arp_pending_request" where
  "tick_req r = (let r' = r\<lparr>ar_tick_count := ar_tick_count r + 1\<rparr>
     in if ARP_TIMEOUT \<le> sint (ar_tick_count r) then r'\<lparr>ar_finished := True, ar_timed_out := True\<rparr> else r')"

definition expires :: "arp_pending_request \<Rightarrow> bool" where
  "expires r \<longleftrightarrow> ARP_TIMEOUT \<le> sint (ar_tick_count r)"

definition tick_reqs :: "u32 list \<Rightarrow> (u32 \<Rightarrow> arp_pending_request) \<Rightarrow> u32 \<Rightarrow> arp_pending_request" where
  "tick_reqs is R = (\<lambda>i. if i \<in> set is then tick_req (R i) else R i)"

lemma tick_reqs_Cons: "i \<notin> set is \<Longrightarrow> tick_reqs is (R(i := tick_req (R i))) = tick_reqs (i # is) R"
  by (auto simp: tick_reqs_def fun_eq_iff)

lemma tick_reqs_Nil [simp]: "tick_reqs [] R = R"
  by (simp add: tick_reqs_def)

definition unexpired :: "u32 list \<Rightarrow> (u32 \<Rightarrow> arp_pending_request) \<Rightarrow> u32 list \<Rightarrow> u32 list" where
  "unexpired is R ps = filter (\<lambda>i. i \<in> set is \<longrightarrow> \<not> expires (R i)) ps"

lemma unexpired_Cons:
  assumes "i \<notin> set is" "distinct ps"
  shows "unexpired is (R(i := r)) (if expires (R i) then remove1 i ps else ps) = unexpired (i # is) R ps"
proof (cases "expires (R i)")
  case True
  then show ?thesis using assms
    by (auto simp: unexpired_def distinct_remove1_removeAll removeAll_filter_not_eq intro: filter_cong)
next
  case False
  then show ?thesis using assms(1) by (auto simp: unexpired_def intro: filter_cong)
qed

lemma arp_tick_loop_eq:
  "distinct is \<Longrightarrow> distinct (arp_pending_requests s) \<Longrightarrow> arp_tick_loop is s =
     s\<lparr>arp_reqs := tick_reqs is (arp_reqs s),
       arp_pending_requests := unexpired is (arp_reqs s) (arp_pending_requests s)\<rparr>"
proof (induction "is" arbitrary: s)
  case Nil
  then show ?case by (simp add: unexpired_def)
next
  case (Cons i "is")
  let ?P = "if expires (arp_reqs s i) then remove1 i (arp_pending_requests s) else arp_pending_requests s"
  let ?s' = "s\<lparr>arp_reqs := (arp_reqs s)(i := tick_req (arp_reqs s i)), arp_pending_requests := ?P\<rparr>"
  have step: "arp_tick_loop (i # is) s = arp_tick_loop is ?s'"
    by (simp add: Let_def set_arp_req_def tick_req_def expires_def)
  have d: "distinct is" "i \<notin> set is" "distinct ?P" using Cons.prems by auto
  show ?case
    using Cons.IH [of ?s'] d Cons.prems(2) unfolding step
    by (simp add: tick_reqs_Cons unexpired_Cons del: fun_upd_apply)
qed

lemma arp_tick_eq:
  assumes "distinct (arp_pending_requests s)"
  shows "arp_tick s = s\<lparr>arp_reqs := tick_reqs (arp_pending_requests s) (arp_reqs s),
     arp_pending_requests := filter (\<lambda>i. \<not> expires (arp_reqs s i)) (arp_pending_requests s)\<rparr>"
proof -
  have "unexpired (arp_pending_requests s) (arp_reqs s) (arp_pending_requests s) =
      filter (\<lambda>i. \<not> expires (arp_reqs s i)) (arp_pending_requests s)" by (auto simp: unexpired_def intro: filter_cong)
  then show ?thesis using assms by (simp add: arp_tick_def irq_defs arp_tick_loop_eq)
qed

lemma arp_ticks:
  assumes "distinct (arp_pending_requests s)" "i \<in> set (arp_pending_requests s)"
    and "ar_tick_count (arp_reqs s i) = 0" "\<not> ar_finished (arp_reqs s i)" and k: "k \<le> 250"
  shows "\<exists>R P. (arp_tick ^^ k) s = s\<lparr>arp_reqs := R, arp_pending_requests := P\<rparr> \<and> distinct P \<and> i \<in> set P
    \<and> ar_tick_count (R i) = of_nat k \<and> \<not> ar_finished (R i)"
  using k
proof (induction k)
  case 0
  show ?case by (intro exI [of _ "arp_reqs s"] exI [of _ "arp_pending_requests s"]) (use assms in simp)
next
  case (Suc k)
  then obtain R P where IH: "(arp_tick ^^ k) s = s\<lparr>arp_reqs := R, arp_pending_requests := P\<rparr>" "distinct P" "i \<in> set P"
    "ar_tick_count (R i) = of_nat k" "\<not> ar_finished (R i)" by auto
  have "sint (of_nat k :: u32) = int k"
    using Suc.prems by (simp add: signed_of_nat signed_take_bit_int_eq_self)
  then have ne: "\<not> expires (R i)" using Suc.prems IH(4) by (simp add: expires_def ARP_TIMEOUT_def)
  then have t: "tick_req (R i) = (R i)\<lparr>ar_tick_count := of_nat k + 1\<rparr>"
    using IH(4) by (simp add: tick_req_def expires_def)
  have "(arp_tick ^^ Suc k) s = arp_tick (s\<lparr>arp_reqs := R, arp_pending_requests := P\<rparr>)" by (simp add: IH(1))
  then show ?case
    using IH(2,3,5) ne t
    by (intro exI [of _ "tick_reqs P R"] exI [of _ "filter (\<lambda>i. \<not> expires (R i)) P"])
      (simp add: arp_tick_eq tick_reqs_def add.commute)
qed

text \<open>C36: an ARP request that is not answered expires at the 251st tick and not before: it is marked
  finished and timed out and taken off the list. But nobody is woken: the wait queue of ARP and the
  scheduler's queues are what they were, so the process that waits for the address (and with it the
  whole IP transmit task) sleeps on until some later ARP reply wakes it.\<close>

theorem arp_timeout_never_wakes:
  assumes "distinct (arp_pending_requests s)" "i \<in> set (arp_pending_requests s)"
    and "ar_tick_count (arp_reqs s i) = 0" "\<not> ar_finished (arp_reqs s i)"
  shows "let s' = (arp_tick ^^ 251) s in
      ar_finished (arp_reqs s' i) \<and> ar_timed_out (arp_reqs s' i) \<and> i \<notin> set (arp_pending_requests s')
      \<and> arp_waitqueue s' = arp_waitqueue s \<and> waitqueue s' = waitqueue s \<and> runqueue s' = runqueue s
      \<and> (\<forall>k \<le> 250. \<not> ar_finished (arp_reqs ((arp_tick ^^ k) s) i))"
proof -
  obtain R P where r: "(arp_tick ^^ 250) s = s\<lparr>arp_reqs := R, arp_pending_requests := P\<rparr>" "distinct P" "i \<in> set P"
    "ar_tick_count (R i) = 250" "\<not> ar_finished (R i)" using arp_ticks [OF assms, of 250] by auto
  have ex: "expires (R i)" using r(4) by (simp add: expires_def ARP_TIMEOUT_def)
  have "(arp_tick ^^ 251) s = arp_tick ((arp_tick ^^ 250) s)" by (simp add: numeral_eq_Suc)
  then have "(arp_tick ^^ 251) s = s\<lparr>arp_reqs := tick_reqs P R,
      arp_pending_requests := filter (\<lambda>i. \<not> expires (R i)) P\<rparr>"
    unfolding r(1) using r(2) by (simp add: arp_tick_eq)
  moreover have "\<forall>k \<le> 250. \<not> ar_finished (arp_reqs ((arp_tick ^^ k) s) i)"
    using arp_ticks [OF assms] by fastforce
  ultimately show ?thesis
    using ex r(3) by (simp add: Let_def tick_reqs_def tick_req_def expires_def)
qed

lemma arp_timeout_never_wakes_witness:
  "let s' = (arp_tick ^^ 251) (boot_net\<lparr>arp_pending_requests := [0x500], arp_waitqueue := [(0x600, 0x700)], waitqueue := [0x700]\<rparr>) in
    ar_timed_out (arp_reqs s' 0x500) \<and> arp_waitqueue s' = [(0x600, 0x700)] \<and> waitqueue s' = [0x700] \<and> runqueue s' = []"
  using arp_timeout_never_wakes [of "boot_net\<lparr>arp_pending_requests := [0x500], arp_waitqueue := [(0x600, 0x700)], waitqueue := [0x700]\<rparr>" "0x500"]
  by (simp add: Let_def) (simp add: boot_net_def)

subsection \<open>Received packets\<close>

lemma arp_swap_bytes:
  obtains bs where "length bs = 28" "arp_swap_endian h m = write_bytes h bs m"
proof -
  let ?bs = "[m (h + 1), m h, m (h + 3), m (h + 2), m (h + 4), m (h + 5), m (h + 7), m (h + 6), m (h + 8), m (h + 9), m (h + 10),
     m (h + 11), m (h + 12), m (h + 13), m (h + 17), m (h + 16), m (h + 15), m (h + 14), m (h + 18), m (h + 19), m (h + 20),
     m (h + 21), m (h + 22), m (h + 23), m (h + 27), m (h + 26), m (h + 25), m (h + 24)]"
  have "arp_swap_endian h (write_bytes h (read_bytes m h 28) m) = write_bytes h ?bs m"
    by (simp add: arp_swap_endian_def patch_simps add.assoc del: write_bytes.simps)
  moreover have "write_bytes h (read_bytes m h 28) m = m" by (rule write_bytes_read) simp
  ultimately have eq: "arp_swap_endian h m = write_bytes h ?bs m" by (simp only:)
  show thesis by (rule that [OF _ eq]) simp
qed

lemma arp_swap_fields:
  "load16 (arp_swap_endian h m) h = be16 m h" "load16 (arp_swap_endian h m) (h + 6) = be16 m (h + 6)"
  "load32 (arp_swap_endian h m) (h + 14) = be32 m (h + 14)" "load32 (arp_swap_endian h m) (h + 24) = be32 m (h + 24)"
  "read_bytes (arp_swap_endian h m) (h + 8) 6 = read_bytes m (h + 8) 6"
  "read_bytes (arp_swap_endian h m) (h + 18) 6 = read_bytes m (h + 18) 6"
  by (simp_all add: arp_swap_endian_def bytes_simps add.assoc)

text \<open>The packet \<open>pkt\<close> is an ARP packet at offset \<open>k\<close> of the live frame \<open>F\<close>.\<close>

definition arp_in_frame :: "'a net_scheme \<Rightarrow> ledger \<Rightarrow> u32 \<Rightarrow> u32 \<Rightarrow> nat \<Rightarrow> nat \<Rightarrow> bool" where
  "arp_in_frame s L pkt F k lf \<longleftrightarrow> (unat F, lf) \<in> L \<and> pkt_cur_data (pkts s pkt) = F + of_nat k \<and> k + 28 \<le> lf"

text \<open>The state in which the switch on the operation runs.\<close>

abbreviation arp_swapped :: "u32 \<Rightarrow> 'a net_scheme \<Rightarrow> 'a net_scheme" where
  "arp_swapped pkt s \<equiv> s\<lparr>pkts := (pkts s)(pkt := (pkts s pkt)\<lparr>pkt_handler := DROP\<rparr>),
     ram := arp_swap_endian (pkt_cur_data (pkts s pkt)) (ram s)\<rparr>"

lemma arp_swapped_ok:
  assumes ok: "net_ok s L n" and p: "arp_in_frame s L pkt F k lf"
  shows "net_ok (arp_swapped pkt s) L n" "keeps s (arp_swapped pkt s) (L - {(unat F, lf)})"
proof -
  let ?h = "pkt_cur_data (pkts s pkt)"
  obtain bs where bs: "length bs = 28" "arp_swap_endian ?h (ram s) = write_bytes ?h bs (ram s)" by (rule arp_swap_bytes)
  have F: "(unat F, lf) \<in> L" "F + of_nat k = ?h" "k + length bs \<le> lf" using p bs(1) by (auto simp: arp_in_frame_def)
  note w = write_net [OF ok F(1,3), unfolded F(2)]
  show "net_ok (arp_swapped pkt s) L n"
    using w(1) by (rule net_ok_same) (simp_all add: bs(2) all_waits_def)
  show "keeps s (arp_swapped pkt s) (L - {(unat F, lf)})" using w(2) by (simp add: bs(2) keeps_def)
qed

lemma frame_bytes_kept:
  assumes ok: "heap_rep s L" and F: "(unat F, lf) \<in> L" "F + of_nat k = h" "k + 28 \<le> lf" and kp: "keeps s s' L"
  shows "read_bytes (ram s') (h + 8) 6 = read_bytes (ram s) (h + 8) 6"
    "load32 (ram s') (h + 14) = load32 (ram s) (h + 14)"
proof -
  have "live_bytes {(unat F, lf)} (F + of_nat (k + 8)) 6" "live_bytes {(unat F, lf)} (F + of_nat (k + 14)) 4"
    by (rule live_bytes_buf [OF ok F(1)]; use F(3) in simp)+
  then have l: "live_bytes L (h + 8) 6" "live_bytes L (h + 14) 4"
    using F(1,2) by (auto simp: live_bytes_def add.assoc intro!: bexI [of _ "(unat F, lf)"])
  show "read_bytes (ram s') (h + 8) 6 = read_bytes (ram s) (h + 8) 6" by (rule read_bytes_keeps [OF kp l(1)])
  show "load32 (ram s') (h + 14) = load32 (ram s) (h + 14)"
    using read_bytes_keeps [OF kp l(2)] by (simp add: load32_le add.assoc)
qed



lemma arp_entry_filled: "r\<lparr>ae_ether_addr := a, ae_ipaddr := b\<rparr> = \<lparr>ae_ether_addr = a, ae_ipaddr = b\<rparr>"
  by (cases r) simp

text \<open>C16: an ARP reply to us for an address that a process waits for resolves it: the sender's
  hardware address is entered for its IP address, the first request for that address is finished with
  this entry and leaves the list of pending requests, and every process that waits on ARP is
  runnable. When the requester runs again its wait ends with the entry, and so does a new lookup. No
  live buffer but the frame changes, and only the memory of the entry is taken.\<close>

theorem arp_reply_resolves:
  assumes ok: "net_ok s L (n + block_size_of 20)" and n: "n = 0 \<or> 16 \<le> n"
    and p: "arp_in_frame s L pkt F k' lf" and h: "h = pkt_cur_data (pkts s pkt)"
    and rep: "be16 (ram s) h = 1" "be16 (ram s) (h + 6) = 2" "read_bytes (ram s) (h + 18) 6 = ether_addr s"
    and i: "List.find (\<lambda>i. ar_TPA (arp_reqs s i) = be32 (ram s) (h + 14)) (arp_pending_requests s) = Some i"
    and fresh: "distinct (arp_pending_requests s)" "\<not> ar_timed_out (arp_reqs s i)"
  shows "\<exists>s' e le. arp_rx_packet pkt s = Some s' \<and> pkt_handler (pkts s' pkt) = DROP
    \<and> arp_table_head s' = e # arp_table_head s
    \<and> arp_entries s' e = \<lparr>ae_ether_addr = read_bytes (ram s) (h + 8) 6, ae_ipaddr = be32 (ram s) (h + 14)\<rparr>
    \<and> i \<notin> set (arp_pending_requests s') \<and> arp_waitqueue s' = []
    \<and> runqueue s' = rev (map snd (arp_waitqueue s)) @ runqueue s
    \<and> resolve_address_wait i s' = Some (Some e, s') \<and> arp_lookup (be32 (ram s) (h + 14)) s' = Some e
    \<and> net_ok s' (insert (unat e, le) (without L (nodes (arp_waitqueue s)))) n
    \<and> keeps s s' (without L (insert F (nodes (arp_waitqueue s))))"
proof -
  define s0 where "s0 = arp_swapped pkt s"
  let ?mac = "read_bytes (ram s) (h + 8) 6" and ?ip = "be32 (ram s) (h + 14)" and ?N = "nodes (arp_waitqueue s)"
  have u: "unat (20 :: u32) = 20" by simp
  have r20: "request_ok 20" by (simp add: request_ok_def)
  have ok0: "net_ok s0 L (n + block_size_of (unat (20 :: u32)))" "keeps s s0 (L - {(unat F, lf)})"
    using arp_swapped_ok [OF ok p] unfolding u s0_def by blast+
  have f0: "ram s0 = arp_swap_endian h (ram s)" "arp_waitqueue s0 = arp_waitqueue s" "arp_reqs s0 = arp_reqs s"
    "arp_pending_requests s0 = arp_pending_requests s" "arp_table_head s0 = arp_table_head s" "ether_addr s0 = ether_addr s"
    "pkts s0 pkt = (pkts s pkt)\<lparr>pkt_handler := DROP\<rparr>" "runqueue s0 = runqueue s"
    by (simp_all add: s0_def h)
  have F: "(unat F, lf) \<in> L" "F + of_nat k' = h" "k' + 28 \<le> lf" using p h by (auto simp: arp_in_frame_def)
  define s1 where "s1 = s0\<lparr>primask := True\<rparr>"
  have ok1: "net_ok s1 L (n + block_size_of (unat (20 :: u32)))" using ok0(1) by (simp add: s1_def)
  show ?thesis
  proof (rule get_mem_net [OF ok1 r20 n])
    fix e m le
    assume g: "get_mem 20 s1 = Some (e, s1\<lparr>ram := m\<rparr>)" "net_ok (s1\<lparr>ram := m\<rparr>) (insert (unat e, le) L) n"
      "\<And>k. (unat e, k) \<notin> L" "keeps s1 (s1\<lparr>ram := m\<rparr>) L"
    note b0 = frame_bytes_kept [OF net_okD(4) [OF ok1] F g(4)]
    have b: "read_bytes m (h + 8) 6 = ?mac" "load32 m (h + 14) = ?ip"
      using b0 f0(1) by (simp_all add: s1_def arp_swap_fields del: read_bytes_numeral)
    define s2 where "s2 = s1\<lparr>ram := m, arp_entries := (arp_entries s1)(e := \<lparr>ae_ether_addr = ?mac, ae_ipaddr = ?ip\<rparr>),
      arp_table_head := e # arp_table_head s1, arp_reqs := (arp_reqs s1)(i := (arp_reqs s1 i)\<lparr>ar_answer := e, ar_finished := True\<rparr>),
      arp_pending_requests := remove1 i (arp_pending_requests s1)\<rparr>"
    have ful: "arp_fulfil h s1 = Some s2"
      using g(1) i b f0(1,3,4)
      by (simp add: arp_fulfil_def s1_def s2_def arp_swap_fields sizeof_arp_entry_def set_arp_entry_def set_arp_req_def
          ethernet_mac_copy_def ETHER_ADDR_LEN_def arp_entry_filled del: read_bytes_numeral)
    have f2: "arp_waitqueue s2 = arp_waitqueue s" "runqueue s2 = runqueue s" "arp_table_head s2 = e # arp_table_head s"
      "arp_entries s2 e = \<lparr>ae_ether_addr = ?mac, ae_ipaddr = ?ip\<rparr>" "ar_answer (arp_reqs s2 i) = e" "ar_finished (arp_reqs s2 i)"
      "ar_timed_out (arp_reqs s2 i) = ar_timed_out (arp_reqs s i)" "pkt_handler (pkts s2 pkt) = DROP"
      "arp_pending_requests s2 = remove1 i (arp_pending_requests s)"
      using f0 by (simp_all add: s2_def s1_def)
    have ok2: "net_ok s2 (insert (unat e, le) L) n"
      using g(2) by (rule net_ok_same) (simp_all add: s2_def all_waits_def)
    obtain m' pr where w: "wake_arp s2 = Some ((woken (arp_waitqueue s) m' pr s2)\<lparr>arp_waitqueue := []\<rparr>)"
      "net_ok ((woken (arp_waitqueue s) m' pr s2)\<lparr>arp_waitqueue := []\<rparr>) (without (insert (unat e, le) L) ?N) n"
      "keeps s2 ((woken (arp_waitqueue s) m' pr s2)\<lparr>arp_waitqueue := []\<rparr>) (without (insert (unat e, le) L) ?N)"
      using wake_arp_ok [OF ok2] unfolding f2(1) by blast
    have en: "e \<notin> ?N" by (rule fresh_not_nodes(3) [OF ok g(3)])
    let ?s' = "(woken (arp_waitqueue s) m' pr s2)\<lparr>arp_waitqueue := [], primask := primask s\<rparr>"
    have run: "arp_rx_packet pkt s = Some ?s'"
      using rep ful w(1) f0(1,6)
      by (simp add: arp_rx_packet_def Let_def set_pkt_def arp_swap_fields HTYPE_ETHERNET_def OPER_REQUEST_def OPER_REPLY_def
          ETHER_ADDR_LEN_def irq_defs ethernet_mac_equal_def s1_def s0_def h del: read_bytes_numeral)
    have ok': "net_ok ?s' (insert (unat e, le) (without L ?N)) n"
      using w(2) unfolding without_insert [OF en] by (rule net_ok_same) (simp_all add: all_waits_def)
    have kp: "keeps s ?s' (without L (insert F ?N))"
    proof -
      have "keeps s s0 (without L (insert F ?N))" by (rule keeps_subset [OF ok0(2)]) (auto simp: without_def)
      moreover have "keeps s0 s2 (without L (insert F ?N))"
        by (rule keeps_subset [of _ _ L]) (use g(4) in \<open>auto simp: keeps_def s1_def s2_def without_def\<close>)
      moreover have "keeps s2 ?s' (without L (insert F ?N))"
        by (rule keeps_subset [of _ _ "without (insert (unat e, le) L) ?N"]) (use w(3) in \<open>auto simp: keeps_def without_def\<close>)
      ultimately show ?thesis by (blast intro: keeps_trans)
    qed
    have wt: "resolve_address_wait i ?s' = Some (Some e, ?s')"
      unfolding resolve_address_wait_def using f2(5,6,7) fresh(2) by (simp add: wait_true)
    have nx: "i \<notin> set (arp_pending_requests ?s')" using f2(9) fresh(1) by simp
    show ?thesis
      by (rule exI [of _ ?s'], rule exI [of _ e], rule exI [of _ le], intro conjI run ok' kp wt nx)
        (use f2 in \<open>simp_all add: arp_lookup_def\<close>)
  qed
qed


lemma arp_reply_resolves_witness:
  "\<exists>(s :: net) s' e. arp_pending_requests s = [0x500] \<and> arp_rx_packet 0x10 s = Some s' \<and> 0x500 \<notin> set (arp_pending_requests s')
    \<and> resolve_address_wait 0x500 s' = Some (Some e, s') \<and> arp_entries s' e = \<lparr>ae_ether_addr = [1, 9, 9, 9, 9, 9], ae_ipaddr = 0xC0A80001\<rparr>"
proof (rule boot_net_buffer [of 64])
  fix p :: u32 and m l
  assume b: "net_ok (boot_net\<lparr>ram := m\<rparr>) {(unat p, l)} 32000" "unat (64 :: u32) \<le> l"
  let ?bs = "[0, 1, 8, 0, 6, 4, 0, 2, 1, 9, 9, 9, 9, 9, 192, 168, 0, 1] @ ether_addr boot_net @ [192, 168, 0, 171] :: u8 list"
  let ?m = "write_bytes p ?bs m"
  let ?s = "(boot_net\<lparr>ram := ?m\<rparr>)\<lparr>arp_pending_requests := [0x500],
      arp_reqs := (arp_reqs boot_net)(0x500 := (arp_reqs boot_net 0x500)\<lparr>ar_TPA := 0xC0A80001, ar_timed_out := False\<rparr>),
      pkts := (\<lambda>_. \<lparr>pkt_data = p, pkt_cur_data = p,
      pkt_data_length = 28, pkt_cur_data_length = 28, pkt_handler = ARP, pkt_src_ip = 0, pkt_dst_ip = 0\<rparr>)\<rparr>"
  have bl: "length (ether_addr boot_net) = 6" by (simp add: boot_net_def)
  have "net_ok (boot_net\<lparr>ram := ?m\<rparr>) {(unat p, l)} 32000"
    using write_net(1) [OF b(1), of p l 0 ?bs] b(2) bl by simp
  then have ok0: "net_ok ?s {(unat p, l)} 32000" by (rule net_ok_same) (simp_all add: all_waits_def)
  have ok: "net_ok ?s {(unat p, l)} (0 + block_size_of 20)"
    using net_ok_mono [OF ok0] by (simp add: block_size_of_def)
  have p: "arp_in_frame ?s {(unat p, l)} 0x10 p 0 l" using b(2) by (simp add: arp_in_frame_def)
  have f: "be16 ?m p = 1" "be16 ?m (p + 6) = 2" "be32 ?m (p + 14) = 0xC0A80001"
    "read_bytes ?m (p + 18) 6 = ether_addr boot_net" "read_bytes ?m (p + 8) 6 = [1, 9, 9, 9, 9, 9]"
    by (simp_all add: boot_net_def patch_simps of_le16_def of_le32_def push_bit_eq_mult add.assoc del: write_bytes.simps)
  have g: "be16 (ram ?s) p = 1" "be16 (ram ?s) (p + 6) = 2" "read_bytes (ram ?s) (p + 18) 6 = ether_addr ?s"
    "List.find (\<lambda>i. ar_TPA (arp_reqs ?s i) = be32 (ram ?s) (p + 14)) (arp_pending_requests ?s) = Some 0x500"
    "distinct (arp_pending_requests ?s)" "\<not> ar_timed_out (arp_reqs ?s 0x500)"
    using f by (simp_all del: write_bytes.simps read_bytes_numeral)
  have h: "p = pkt_cur_data (pkts ?s 0x10)" by simp
  obtain s' e where r: "arp_rx_packet 0x10 ?s = Some s'" "0x500 \<notin> set (arp_pending_requests s')"
    "resolve_address_wait 0x500 s' = Some (Some e, s')"
    "arp_entries s' e = \<lparr>ae_ether_addr = read_bytes (ram ?s) (p + 8) 6, ae_ipaddr = be32 (ram ?s) (p + 14)\<rparr>"
    using arp_reply_resolves [OF ok _ p h g] by force
  show ?thesis
    by (rule exI [of _ ?s], rule exI [of _ s'], rule exI [of _ e]) (use r f in \<open>simp del: write_bytes.simps read_bytes_numeral\<close>)
qed (simp_all add: request_ok_def)

end
