(* ===== verification/Ipv4_Tx.thy ===== *)
theory Ipv4_Tx
  imports Checksum Boot
begin

text \<open>The transmit path of IPv4: what \<open>ip4_xmit_packet\<close> queues, and the packet that the task builds.\<close>

unbundle bit_operations_syntax

subsection \<open>The header on the wire\<close>

definition ip4_wire :: "u8 \<Rightarrow> u32 \<Rightarrow> u16 \<Rightarrow> u16 \<Rightarrow> u8 list" where
  "ip4_wire proto dst tlen cks = [0x45, 0] @ be16_bytes tlen @ [0, 0, 0, 0, 10, proto] @ le16 cks
     @ be32_bytes OUR_IP_ADDRESS @ be32_bytes dst"

lemma length_ip4_wire [simp]: "length (ip4_wire proto dst tlen cks) = 20"
  by (simp add: ip4_wire_def)

lemma ip4_header_zeroed:
  assumes z: "read_bytes M h 20 = replicate 20 0"
  shows "ip4_swap_endian h (ip4_fill_header h proto dst tlen M) = write_bytes h (ip4_wire proto dst (ucast tlen) 0) M"
proof -
  obtain o1 o2 where op: "(ucast tlen :: u16) = of_le16 o1 o2" by (metis of_le16_le16)
  obtain t1 t2 t3 t4 where tp: "dst = of_le32 t1 t2 t3 t4" by (metis of_le32_le32)
  obtain i1 i2 i3 i4 where ip: "OUR_IP_ADDRESS = of_le32 i1 i2 i3 i4" by (metis of_le32_le32)
  have r: "replicate 20 (0 :: u8) = [0, 0, 0, 0, 0, 0, 0, 0, 0, 0, 0, 0, 0, 0, 0, 0, 0, 0, 0, 0]"
    by (simp add: numeral_eq_Suc)
  have z16: "le16 0 = [0, 0]" by (simp add: le16_def)
  have M: "M = write_bytes h (replicate 20 0) M" using write_bytes_read [of 20 h M] by (simp add: z del: read_bytes_numeral write_bytes.simps)
  have "ip4_swap_endian h (ip4_fill_header h proto dst tlen (write_bytes h (replicate 20 0) M)) =
      write_bytes h (ip4_wire proto dst (ucast tlen) 0) M"
    unfolding ip4_wire_def be16_bytes_def be32_bytes_def ip4_fill_header_def Let_def op tp ip DEFAULT_TTL_def
      store16_le store32_le store8_def le16_of_le16 le32_of_le32 ip4_swap_endian_def
    by (simp add: patch_simps r z16 add.assoc del: write_bytes.simps)
  then show ?thesis using M by simp
qed


lemma ip4_checksum_wire:
  assumes z: "read_bytes M h 20 = replicate 20 0"
  obtains c where
    "ip4_compute_checksum h (ip4_swap_endian h (ip4_fill_header h proto dst tlen M)) = write_bytes h (ip4_wire proto dst (ucast tlen) c) M"
    "inet_sum (ip4_wire proto dst (ucast tlen) c) = 0xFFFF"
proof -
  let ?xs = "[0x45, 0] @ be16_bytes (ucast tlen) @ [0, 0, 0, 0, 10, proto]" and ?ys = "be32_bytes OUR_IP_ADDRESS @ be32_bytes dst"
  let ?w = "ip4_wire proto dst (ucast tlen)" and ?m = "write_bytes h (ip4_wire proto dst (ucast tlen) 0) M"
  have w: "?w v = ?xs @ le16 v @ ?ys" for v by (simp add: ip4_wire_def)
  define c where "c = (ucast (NOT (fold_carry (sum16 ?m h 10))) :: u16)"
  have rd: "read_bytes ?m h (2 * 10) = ?w 0" using read_write_bytes [of "?w 0" h M] by (simp del: read_bytes_numeral)
  have "store16 (h + of_nat (length ?xs)) c ?m = write_bytes h (?w c) ?m"
    unfolding w [of c] by (rule store16_in_run [of ?m h "?w 0"]) (use rd w in \<open>simp_all del: read_bytes_numeral\<close>)
  moreover have "of_nat (length ?xs) = (10 :: u32)" by simp
  ultimately have "store16 (h + 10) c ?m = write_bytes h (?w c) ?m" by (simp only:)
  also have "\<dots> = write_bytes h (?w c) M" by (rule write_bytes_twice) simp_all
  finally have "ip4_compute_checksum h ?m = write_bytes h (?w c) M"
    unfolding c_def by (simp add: ip4_compute_checksum_def sizeof_ip4_header_def Let_def)
  moreover have "inet_sum (?w c) = 0xFFFF"
    unfolding w c_def by (rule inet_sum_checksum) (use rd w in \<open>simp_all del: read_bytes_numeral\<close>)
  ultimately show thesis using that ip4_header_zeroed [OF z] by simp
qed

subsection \<open>Filling and releasing a temporary buffer\<close>

text \<open>A fresh buffer is written in steps; no buffer that was live before changes.\<close>

lemma write_fresh:
  assumes ok: "net_ok (s\<lparr>ram := m\<rparr>) (insert (unat b, l) L) n" and fresh: "\<And>k. (unat b, k) \<notin> L"
    and k: "k + length bs \<le> l"
  shows "net_ok (s\<lparr>ram := write_bytes (b + of_nat k) bs m\<rparr>) (insert (unat b, l) L) n"
    "keeps (s\<lparr>ram := m\<rparr>) (s\<lparr>ram := write_bytes (b + of_nat k) bs m\<rparr>) L"
  using write_net [OF ok _ k] fresh by (auto intro: keeps_subset)

lemma without_fresh: "(\<And>k. (unat p, k) \<notin> L) \<Longrightarrow> without (insert (unat p, l) L) {p} = L"
  by (auto simp: without_def)

text \<open>The frame of the packet: header and payload in a fresh buffer.\<close>

lemma ip4_frame_built:
  assumes ok: "net_ok (s\<lparr>ram := m0\<rparr>) (insert (unat b, l) L) n" and fresh: "\<And>k. (unat b, k) \<notin> L"
    and l: "20 + unat (len :: u16) \<le> l" and src: "live_bytes L payload (unat len)"
  obtains c m where
    "memcpy (b + 20) payload (unat len) (ip4_compute_checksum b (ip4_swap_endian b (ip4_fill_header b proto dst tlen
       (memset b 0 (20 + unat len) m0)))) = m"
    "net_ok (s\<lparr>ram := m\<rparr>) (insert (unat b, l) L) n" "keeps (s\<lparr>ram := m0\<rparr>) (s\<lparr>ram := m\<rparr>) L"
    "read_bytes m b (20 + unat len) = ip4_wire proto dst (ucast tlen) c @ read_bytes m0 payload (unat len)"
    "inet_sum (ip4_wire proto dst (ucast tlen) c) = 0xFFFF"
proof -
  let ?m1 = "memset b 0 (20 + unat len) m0"
  have w1: "net_ok (s\<lparr>ram := ?m1\<rparr>) (insert (unat b, l) L) n" "keeps (s\<lparr>ram := m0\<rparr>) (s\<lparr>ram := ?m1\<rparr>) L"
    using write_fresh [OF ok fresh, of 0 "replicate (20 + unat len) 0"] l by (simp_all add: memset_def)
  have "read_bytes ?m1 b (20 + unat len) = replicate (20 + unat len) 0"
    using read_write_bytes [of "replicate (20 + unat len) 0" b m0] unat16 [of len] by (simp add: memset_def)
  then have z: "read_bytes ?m1 b 20 = replicate 20 0"
    using arg_cong [of _ _ "take 20", OF read_bytes_append [of ?m1 b 20 "unat len"]] by (simp del: read_bytes_numeral)
  show thesis
  proof (rule ip4_checksum_wire [OF z, of proto dst tlen])
    fix c
    let ?w = "ip4_wire proto dst (ucast tlen) c" and ?bs = "read_bytes m0 payload (unat len)"
    let ?m2 = "write_bytes b ?w ?m1" and ?m3 = "write_bytes (b + 20) ?bs (write_bytes b ?w ?m1)"
    assume c: "ip4_compute_checksum b (ip4_swap_endian b (ip4_fill_header b proto dst tlen ?m1)) = ?m2" "inet_sum ?w = 0xFFFF"
    have w2: "net_ok (s\<lparr>ram := ?m2\<rparr>) (insert (unat b, l) L) n" "keeps (s\<lparr>ram := ?m1\<rparr>) (s\<lparr>ram := ?m2\<rparr>) L"
      using write_fresh [OF w1(1) fresh, of 0 ?w] l by simp_all
    have w3: "net_ok (s\<lparr>ram := ?m3\<rparr>) (insert (unat b, l) L) n" "keeps (s\<lparr>ram := ?m2\<rparr>) (s\<lparr>ram := ?m3\<rparr>) L"
      using write_fresh [OF w2(1) fresh, of 20 ?bs] l by simp_all
    have k2: "keeps (s\<lparr>ram := m0\<rparr>) (s\<lparr>ram := ?m2\<rparr>) L" by (rule keeps_trans [OF w1(2) w2(2)])
    have pl: "read_bytes ?m2 payload (unat len) = ?bs" using read_bytes_keeps [OF k2 src] by simp
    have "?m3 = write_bytes b (?w @ ?bs) ?m1" by (simp add: write_bytes_append)
    then have rd: "read_bytes ?m3 b (20 + unat len) = ?w @ ?bs"
      using read_write_bytes [of "?w @ ?bs" b ?m1] unat16 [of len] by (simp add: add.commute)
    show thesis
      by (rule that [of ?m3 c]) (use c w3(1) keeps_trans [OF k2 w3(2)] rd pl in \<open>simp_all add: memcpy_def\<close>)
  qed
qed


subsection \<open>A packet whose hardware address is known\<close>

definition ip4_demand :: "nat \<Rightarrow> nat" where
  "ip4_demand len = block_size_of (20 + len) + block_size_of 24 + block_size_of (20 + len)"

lemma live_bytes_insert: "live_bytes L p n \<Longrightarrow> live_bytes (insert b L) p n"
  by (auto simp: live_bytes_def)

lemma ip4_do_xmit_resolved_ok:
  assumes ok: "net_ok s L (n + ip4_demand (unat len))" and n: "n = 0 \<or> 16 \<le> n"
    and src: "live_bytes L payload (unat len)" and hw: "hw \<noteq> 0" "length (ae_ether_addr (arp_entries s hw)) = 6"
  obtains c obj buf lo lb m pr where
    "ip4_do_xmit_resolved proto dst payload len hw s =
       Some (ether_queued obj (ae_ether_addr (arp_entries s hw)) ETHERTYPE_IP buf (20 + ucast len) m pr s)"
    "net_ok (ether_queued obj (ae_ether_addr (arp_entries s hw)) ETHERTYPE_IP buf (20 + ucast len) m pr s)
       (insert (unat buf, lb) (insert (unat obj, lo) (without L (nodes (ether_tx_waitq s))))) n"
    "24 \<le> lo" "20 + unat len \<le> lb"
    "read_bytes m buf (20 + unat len) = ip4_wire proto dst (20 + len) c @ read_bytes (ram s) payload (unat len)"
    "inet_sum (ip4_wire proto dst (20 + len) c) = 0xFFFF"
    "keeps s (s\<lparr>ram := m\<rparr>) (without L (nodes (ether_tx_waitq s)))"
    "\<And>k. (unat obj, k) \<notin> L" "\<And>k. (unat buf, k) \<notin> L" "obj \<noteq> buf"
proof -
  let ?r = "20 + ucast len :: u32" and ?N = "nodes (ether_tx_waitq s)" and ?d = "ae_ether_addr (arp_entries s hw)"
  have ur: "unat ?r = 20 + unat len"
    using unat16 [of len] by (subst unat_add_lem [THEN iffD1]) (simp_all add: unat_ucast16)
  have r: "request_ok ?r" using unat16 [of len] by (simp add: request_ok_def unat_eq_0 [symmetric] ur)
  let ?n = "n + block_size_of (unat ?r) + block_size_of 24"
  have n': "?n = 0 \<or> 16 \<le> ?n" using block_size_of_facts(1) [of 24] by linarith
  have ok0: "net_ok s L (?n + block_size_of (unat ?r))" using ok unfolding ur ip4_demand_def by (simp add: ac_simps)
  show thesis
  proof (rule get_mem_net [OF ok0 r n'])
    fix b m0 l
    assume g: "get_mem ?r s = Some (b, s\<lparr>ram := m0\<rparr>)" "unat ?r \<le> l" "net_ok (s\<lparr>ram := m0\<rparr>) (insert (unat b, l) L) ?n"
      "\<And>k. (unat b, k) \<notin> L" "keeps s (s\<lparr>ram := m0\<rparr>) L"
    have pl: "read_bytes m0 payload (unat len) = read_bytes (ram s) payload (unat len)"
      using read_bytes_keeps [OF g(5) src] by simp
    show thesis
    proof (rule ip4_frame_built [OF g(3,4) g(2) [unfolded ur] src, of proto dst ?r], unfold pl)
      fix c m
      assume f: "memcpy (b + 20) payload (unat len) (ip4_compute_checksum b (ip4_swap_endian b (ip4_fill_header b proto dst ?r
          (memset b 0 (20 + unat len) m0)))) = m"
        "net_ok (s\<lparr>ram := m\<rparr>) (insert (unat b, l) L) ?n" "keeps (s\<lparr>ram := m0\<rparr>) (s\<lparr>ram := m\<rparr>) L"
        "read_bytes m b (20 + unat len) = ip4_wire proto dst (ucast ?r) c @ read_bytes (ram s) payload (unat len)"
        "inet_sum (ip4_wire proto dst (ucast ?r) c) = 0xFFFF"
      have uc: "ucast ?r = 20 + len"
        by (simp only: word_unat_eq_iff unsigned_ucast_eq take_bit_eq_mod ur) (simp add: unat_word_ariths)
      let ?s1 = "s\<lparr>ram := m\<rparr>"
      have b: "b \<notin> ?N" "b \<notin> nodes (all_waits s)" using fresh_not_nodes(2) [OF ok g(4)] fresh_not_node [OF ok g(4)] by auto
      have src1: "live_bytes (insert (unat b, l) L) b (unat ?r)"
        using live_bytes_buf [OF net_okD(4) [OF f(2)], of b l 0] g(2) by (auto simp: live_bytes_def)
      have len: "length (ae_ether_addr (arp_entries ?s1 hw)) = 6" using hw(2) by simp
      show thesis
      proof (rule ether_tx_ok [OF f(2) r n src1 hw(2), where type = ETHERTYPE_IP])
        fix obj buf lo lb and m1 pr
        let ?E = "\<lambda>m. ether_queued obj ?d ETHERTYPE_IP buf ?r m pr s"
        let ?K = "insert (unat buf, lb) (insert (unat obj, lo) (without L ?N))"
        assume e: "ether_tx ?d ETHERTYPE_IP b ?r ?s1 = Some (ether_queued obj ?d ETHERTYPE_IP buf ?r m1 pr ?s1)"
          "net_ok (ether_queued obj ?d ETHERTYPE_IP buf ?r m1 pr ?s1)
            (insert (unat buf, lb) (insert (unat obj, lo) (without (insert (unat b, l) L) (nodes (ether_tx_waitq ?s1))))) n"
          "24 \<le> lo" "unat ?r \<le> lb" "read_bytes m1 buf (unat ?r) = read_bytes (ram ?s1) b (unat ?r)"
          "keeps ?s1 (?s1\<lparr>ram := m1\<rparr>) (without (insert (unat b, l) L) (nodes (ether_tx_waitq ?s1)))"
          "\<And>k. (unat obj, k) \<notin> insert (unat b, l) L" "\<And>k. (unat buf, k) \<notin> insert (unat b, l) L" "obj \<noteq> buf"
        have fr: "\<And>k. (unat obj, k) \<notin> L" "\<And>k. (unat buf, k) \<notin> L" "b \<noteq> obj" "b \<noteq> buf" using e(7,8) by auto
        have okE: "net_ok (?E m1) (insert (unat b, l) ?K) n"
          using e(2) unfolding without_insert [OF b(1)] by (simp add: insert_commute without_insert [OF b(1)])
        have nb: "b \<notin> nodes (all_waits (?E m1))" using b(2) by (auto simp: nodes_def all_waits_def)
        have bK: "\<And>k. (unat b, k) \<notin> ?K" using g(4) fr(3,4) by (auto simp: without_def word_unat_eq_iff)
        show thesis
        proof (rule free_mem_net [OF okE _ nb, of l], unfold without_fresh [OF bK])
          fix m2
          assume x: "free_mem b (?E m1) = ?E m1\<lparr>ram := m2\<rparr>" "net_ok (?E m1\<lparr>ram := m2\<rparr>) ?K n"
            "keeps (?E m1) (?E m1\<lparr>ram := m2\<rparr>) ?K"
          have run: "ip4_do_xmit_resolved proto dst payload len hw s = Some (?E m2)"
            using g(1) f(1) e(1) x(1) hw(1) by (simp add: ip4_do_xmit_resolved_def sizeof_ip4_header_def Let_def ur)
          have ok2: "net_ok (?E m2) ?K n" using x(2) by (rule net_ok_same) (simp_all add: all_waits_def)
          have "live_bytes ?K buf (20 + unat len)"
            using live_bytes_buf [OF net_okD(4) [OF ok2], of buf lb 0] e(4) ur by (auto simp: live_bytes_def)
          then have rd: "read_bytes m2 buf (20 + unat len) = ip4_wire proto dst (20 + len) c @ read_bytes (ram s) payload (unat len)"
            using read_bytes_keeps [OF x(3)] e(5) f(4) by (simp add: ur uc)
          have kp: "keeps s (s\<lparr>ram := m2\<rparr>) (without L ?N)"
            using g(5) f(3) e(6) x(3) unfolding keeps_def by (fastforce simp: without_insert [OF b(1)] dest: in_without)
          show thesis
            by (rule that [OF run ok2 e(3) e(4) [unfolded ur] rd _ kp fr(1,2) e(9)]) (use f(5) uc in simp)
        qed simp
      qed
    qed
  qed
qed


subsection \<open>One turn of the transmit task\<close>

text \<open>
  The hardware address of the next hop is in the table: the turn takes the newest packet, queues the
  frame, and gives the element and its payload back. It leaves interrupts masked, because
  \<open>resolve_address\<close> does not restore the mask when it finds the address.
\<close>

lemma ip4_tx_task_turn_ok:
  assumes ok: "net_ok s L (n + ip4_demand (unat (iq_payload_len q)))" and n: "n = 0 \<or> 16 \<le> n"
    and q: "ip4_tx_queue s = pk # rest" "pk \<noteq> 0" "ip4_objs s pk = q"
    and live: "(unat (iq_payload q), lp) \<in> L" "(unat pk, lo) \<in> L" "iq_payload q \<noteq> pk" "unat (iq_payload_len q) \<le> lp"
    and nn: "iq_payload q \<notin> nodes (all_waits s)" "pk \<notin> nodes (all_waits s)"
    and hw: "arp_lookup (ip4_get_pkt_dst (iq_dst_ip q)) s = Some hw" "hw \<noteq> 0" "length (ae_ether_addr (arp_entries s hw)) = 6"
  obtains c obj buf lo lb m pr s' where
    "ip4_tx_task_turn req s = Some (Sent, s')"
    "s' = (ether_queued obj (ae_ether_addr (arp_entries s hw)) ETHERTYPE_IP buf (20 + ucast (iq_payload_len q)) m pr s)
       \<lparr>ip4_tx_queue := rest, primask := True\<rparr>"
    "net_ok s' ({(unat buf, lb), (unat obj, lo)} \<union> without L ({pk, iq_payload q} \<union> nodes (ether_tx_waitq s))) n"
    "24 \<le> lo" "20 + unat (iq_payload_len q) \<le> lb"
    "read_bytes m buf (20 + unat (iq_payload_len q)) = ip4_wire (iq_protocol q) (iq_dst_ip q) (20 + iq_payload_len q) c
       @ read_bytes (ram s) (iq_payload q) (unat (iq_payload_len q))"
    "inet_sum (ip4_wire (iq_protocol q) (iq_dst_ip q) (20 + iq_payload_len q) c) = 0xFFFF"
    "keeps s s' (without L ({pk, iq_payload q} \<union> nodes (ether_tx_waitq s)))"
    "\<And>k. (unat obj, k) \<notin> L" "\<And>k. (unat buf, k) \<notin> L" "obj \<noteq> buf"
proof -
  let ?p = "iq_payload q" and ?len = "iq_payload_len q" and ?N = "nodes (ether_tx_waitq s)"
    and ?d = "ae_ether_addr (arp_entries s hw)"
  define s0 where "s0 = s\<lparr>ip4_tx_queue := rest, primask := True\<rparr>"
  have f0: "arp_entries s0 = arp_entries s" "ether_tx_waitq s0 = ether_tx_waitq s" "ram s0 = ram s" "ip4_objs s0 = ip4_objs s"
    "all_waits s0 = all_waits s" by (simp_all add: s0_def all_waits_def)
  have ok0: "net_ok s0 L (n + ip4_demand (unat ?len))" using ok by (simp add: s0_def)
  have src: "live_bytes L ?p (unat ?len)"
    using live_bytes_buf [OF net_okD(4) [OF ok] live(1), of 0] live(1,4) by (auto simp: live_bytes_def)
  have hw0: "length (ae_ether_addr (arp_entries s0 hw)) = 6" using hw(3) f0 by simp
  have start: "ip4_tx_task_turn req s = do {
      s \<leftarrow> ip4_do_xmit_resolved (iq_protocol q) (iq_dst_ip q) ?p ?len hw s0;
      Some (Sent, ip4_tx_release pk s) }"
  proof -
    have w: "wait_for_volatile_condition (\<lambda>s. ip4_tx_queue s \<noteq> []) ip4_tx_waitq (\<lambda>q s. s\<lparr>ip4_tx_waitq := q\<rparr>) s = Some (True, s)"
      by (rule wait_true) (simp add: q)
    have pop: "ip4_tx_pop (s\<lparr>primask := True\<rparr>) = (pk, (s\<lparr>primask := True\<rparr>)\<lparr>ip4_tx_queue := rest\<rparr>)"
      by (simp add: ip4_tx_pop_def q)
    show ?thesis
      unfolding ip4_tx_task_turn_def w
      using q(2,3) hw(1) by (simp add: irq_defs pop ip4_do_xmit_packet_def resolve_address_def arp_lookup_def s0_def bind_assoc)
  qed
  show thesis
  proof (rule ip4_do_xmit_resolved_ok [OF ok0 n src hw(2) hw0, of "iq_protocol q" "iq_dst_ip q"])
    fix c obj buf lo' lb m pr
    let ?E = "ether_queued obj (ae_ether_addr (arp_entries s0 hw)) ETHERTYPE_IP buf (20 + ucast ?len) m pr s0"
    let ?w = "ip4_wire (iq_protocol q) (iq_dst_ip q) (20 + ?len) c" and ?NN = "nodes (ether_tx_waitq s0)"
    let ?K = "insert (unat buf, lb) (insert (unat obj, lo') (without L ?N))"
    assume e: "ip4_do_xmit_resolved (iq_protocol q) (iq_dst_ip q) ?p ?len hw s0 = Some ?E"
      "net_ok ?E (insert (unat buf, lb) (insert (unat obj, lo') (without L ?NN))) n" "24 \<le> lo'" "20 + unat ?len \<le> lb"
      "read_bytes m buf (20 + unat ?len) = ?w @ read_bytes (ram s0) ?p (unat ?len)" "inet_sum ?w = 0xFFFF"
      "keeps s0 (s0\<lparr>ram := m\<rparr>) (without L ?NN)" "\<And>k. (unat obj, k) \<notin> L" "\<And>k. (unat buf, k) \<notin> L" "obj \<noteq> buf"
    have aw: "nodes (all_waits ?E) \<subseteq> nodes (all_waits s)" by (auto simp: nodes_def all_waits_def s0_def)
    have nn': "?p \<notin> nodes (all_waits ?E)" "pk \<notin> nodes (all_waits ?E)" using nn aw by auto
    have N: "?p \<notin> ?N" "pk \<notin> ?N" using nn by (auto simp: nodes_def all_waits_def)
    have live': "(unat ?p, lp) \<in> ?K" "(unat pk, lo) \<in> ?K" using without_in [OF live(1) N(1)] without_in [OF live(2) N(2)] by auto
    have io: "iq_payload (ip4_objs ?E pk) = ?p" using q(3) by (simp add: s0_def)
    have okE: "net_ok ?E ?K n" using e(2) by (simp only: f0)
    show thesis
    proof (rule free_two_net [OF okE live' live(3) nn'])
      fix m2
      let ?s' = "(ether_queued obj ?d ETHERTYPE_IP buf (20 + ucast ?len) m2 pr s)\<lparr>ip4_tx_queue := rest, primask := True\<rparr>"
      assume x: "free_mem pk (free_mem ?p ?E) = ?E\<lparr>ram := m2\<rparr>" "net_ok (?E\<lparr>ram := m2\<rparr>) (without ?K {pk, ?p}) n"
        "keeps ?E (?E\<lparr>ram := m2\<rparr>) (without ?K {pk, ?p})"
      have run: "ip4_tx_task_turn req s = Some (Sent, ?s')"
        unfolding start e(1) using x(1) io by (simp add: ip4_tx_release_def s0_def)
      have fr: "buf \<notin> {pk, ?p}" "obj \<notin> {pk, ?p}" using e(8,9) live(1,2) by auto
      have K: "without ?K {pk, ?p} = {(unat buf, lb), (unat obj, lo')} \<union> without L ({pk, ?p} \<union> ?N)"
        unfolding without_insert [OF fr(1)] without_insert [OF fr(2)] by (simp add: without_without Un_commute)
      have ok2: "net_ok ?s' ({(unat buf, lb), (unat obj, lo')} \<union> without L ({pk, ?p} \<union> ?N)) n"
        using x(2) unfolding K by (rule net_ok_same) (simp_all add: all_waits_def s0_def)
      have "live_bytes (without ?K {pk, ?p}) buf (20 + unat ?len)"
        unfolding K using live_bytes_buf [OF net_okD(4) [OF ok2], of buf lb 0] e(4) by (auto simp: live_bytes_def)
      then have rd: "read_bytes m2 buf (20 + unat ?len) = ?w @ read_bytes (ram s) ?p (unat ?len)"
        using read_bytes_keeps [OF x(3)] e(5) f0(3) by simp
      have kp: "keeps s ?s' (without L ({pk, ?p} \<union> ?N))"
        using e(7) x(3) unfolding keeps_def K f0 by (auto simp: without_def)
      show thesis by (rule that [OF run refl ok2 e(3,4) rd e(6) kp e(8,9,10)])
    qed
  qed
qed


subsection \<open>Queueing a packet\<close>

abbreviation ip4_queued :: "u32 \<Rightarrow> u8 \<Rightarrow> u32 \<Rightarrow> u32 \<Rightarrow> u16 \<Rightarrow> mem \<Rightarrow> (u32 \<Rightarrow> process_t) \<Rightarrow> 'a net_scheme \<Rightarrow> 'a net_scheme" where
  "ip4_queued obj proto dst buf len m pr s \<equiv> (woken (ip4_tx_waitq s) m pr s)\<lparr>
     ip4_objs := (ip4_objs s)(obj := (ip4_objs s obj)\<lparr>iq_protocol := proto, iq_dst_ip := dst,
       iq_payload := buf, iq_payload_len := len\<rparr>),
     ip4_tx_queue := obj # ip4_tx_queue s, ip4_tx_waitq := []\<rparr>"

lemma ip4_xmit_packet_ok:
  assumes ok: "net_ok s L (n + block_size_of (unat len) + block_size_of 24)"
    and len: "len \<noteq> 0" and n: "n = 0 \<or> 16 \<le> n" and src: "live_bytes L payload (unat len)"
  obtains obj buf lo lb m pr where
    "ip4_xmit_packet proto dst payload len s = Some (ip4_queued obj proto dst buf len m pr s)"
    "net_ok (ip4_queued obj proto dst buf len m pr s)
       (insert (unat buf, lb) (insert (unat obj, lo) (without L (nodes (ip4_tx_waitq s))))) n"
    "24 \<le> lo" "unat len \<le> lb" "read_bytes m buf (unat len) = read_bytes (ram s) payload (unat len)"
    "keeps s (s\<lparr>ram := m\<rparr>) (without L (nodes (ip4_tx_waitq s)))"
    "\<And>k. (unat obj, k) \<notin> L" "\<And>k. (unat buf, k) \<notin> L" "obj \<noteq> buf"
proof -
  have sz: "request_ok 24" by (simp add: request_ok_def)
  have u24: "unat (24 :: u32) = 24" by simp
  have ul: "unat (ucast len :: u32) = unat len" by (rule unat_ucast16)
  have rl: "request_ok (ucast len)" using len unat16 [of len] by (simp add: request_ok_def ul unat_eq_0 [symmetric])
  have ok': "net_ok s L (n + block_size_of (unat (ucast len :: u32)) + block_size_of (unat (24 :: u32)))"
    using ok unfolding u24 ul .
  obtain obj m0 buf m1 lo lb where g: "get_mem 24 s = Some (obj, s\<lparr>ram := m0\<rparr>)"
    "get_mem (ucast len) (s\<lparr>ram := m0\<rparr>) = Some (buf, s\<lparr>ram := m1\<rparr>)" "24 \<le> lo" "unat len \<le> lb"
    "net_ok (s\<lparr>ram := memcpy buf payload (unat len) m1\<rparr>) (insert (unat buf, lb) (insert (unat obj, lo) L)) n"
    "read_bytes (memcpy buf payload (unat len) m1) buf (unat len) = read_bytes (ram s) payload (unat len)"
    "keeps s (s\<lparr>ram := memcpy buf payload (unat len) m1\<rparr>) L" "\<And>k. (unat obj, k) \<notin> L"
    "\<And>k. (unat buf, k) \<notin> L" "obj \<noteq> buf"
    using get_copy_net [OF ok' sz rl n src [folded ul]] unfolding u24 ul by blast
  let ?m = "memcpy buf payload (unat len) m1" and ?K = "insert (unat buf, lb) (insert (unat obj, lo) L)"
    and ?N = "nodes (ip4_tx_waitq s)"
  let ?o = "(ip4_objs s)(obj := (ip4_objs s obj)\<lparr>iq_protocol := proto, iq_dst_ip := dst, iq_payload := buf, iq_payload_len := len\<rparr>)"
  let ?s1 = "s\<lparr>ram := ?m, ip4_objs := ?o, ip4_tx_queue := obj # ip4_tx_queue s\<rparr>"
  have ok1: "net_ok ?s1 ?K n" using g(5) by simp
  obtain m pr where w: "wake_ip4_tx ?s1 = Some ((woken (ip4_tx_waitq ?s1) m pr ?s1)\<lparr>ip4_tx_waitq := []\<rparr>)"
    "net_ok ((woken (ip4_tx_waitq ?s1) m pr ?s1)\<lparr>ip4_tx_waitq := []\<rparr>) (without ?K (nodes (ip4_tx_waitq ?s1))) n"
    "keeps ?s1 ((woken (ip4_tx_waitq ?s1) m pr ?s1)\<lparr>ip4_tx_waitq := []\<rparr>) (without ?K (nodes (ip4_tx_waitq ?s1)))"
    using wake_ip4_tx_ok [OF ok1] by blast
  have fr: "obj \<notin> ?N" "buf \<notin> ?N"
    using fresh_not_nodes(4) [OF ok g(8)] fresh_not_nodes(4) [OF ok g(9)] .
  have K: "without ?K ?N = insert (unat buf, lb) (insert (unat obj, lo) (without L ?N))"
    using without_insert [OF fr(2)] without_insert [OF fr(1)] by simp
  have eq: "(woken (ip4_tx_waitq ?s1) m pr ?s1)\<lparr>ip4_tx_waitq := []\<rparr> = ip4_queued obj proto dst buf len m pr s"
    by simp
  have run: "ip4_xmit_packet proto dst payload len s = Some (ip4_queued obj proto dst buf len m pr s)"
    using w(1) g(1,2) unfolding eq
    by (simp add: ip4_xmit_packet_def sizeof_ip4_tx_q_t_def set_ip4_obj_def irq_defs)
  have ok2: "net_ok (ip4_queued obj proto dst buf len m pr s) (insert (unat buf, lb) (insert (unat obj, lo) (without L ?N))) n"
    using w(2) unfolding eq by (simp add: K)
  have "live_bytes (without ?K ?N) buf (unat len)"
    using live_bytes_buf [OF net_okD(4) [OF g(5)], of buf lb 0] g(4) unfolding K by (auto simp: live_bytes_def)
  then have rd: "read_bytes m buf (unat len) = read_bytes (ram s) payload (unat len)"
    using read_bytes_keeps [OF w(3)] g(6) by simp
  have kp: "keeps s (s\<lparr>ram := m\<rparr>) (without L ?N)"
    using g(7) w(3) unfolding keeps_def by (fastforce simp: K dest: in_without)
  from that [OF run ok2 g(3,4) rd kp g(8,9,10)] show thesis .
qed


subsection \<open>From the queue of packets to the wire\<close>

text \<open>The state holds a queued packet, whose next hop is in the table.\<close>

definition ip4_ready :: "'a net_scheme \<Rightarrow> ledger \<Rightarrow> u32 \<Rightarrow> u32 list \<Rightarrow> u8 list \<Rightarrow> bool" where
  "ip4_ready s L pk rest dhost \<longleftrightarrow> (let q = ip4_objs s pk; p = iq_payload q in
     ip4_tx_queue s = pk # rest \<and> p \<noteq> pk \<and> 0 < unat (iq_payload_len q) \<and> 20 + unat (iq_payload_len q) \<le> 2048
     \<and> (\<exists>lo. (unat pk, lo) \<in> L) \<and> (\<exists>lp. (unat p, lp) \<in> L \<and> unat (iq_payload_len q) \<le> lp)
     \<and> p \<notin> nodes (all_waits s) \<and> pk \<notin> nodes (all_waits s)
     \<and> (\<exists>hw. arp_lookup (ip4_get_pkt_dst (iq_dst_ip q)) s = Some hw \<and> hw \<noteq> 0 \<and> ae_ether_addr (arp_entries s hw) = dhost)
     \<and> length dhost = 6 \<and> length (ether_addr s) = 6 \<and> length (tx_desc s) = DESC_LEN)"

lemma ip4_send_queued:
  assumes ok: "net_ok s L (n + block_size_of 14 + ip4_demand (unat (iq_payload_len (ip4_objs s pk))))" and n: "n = 0 \<or> 16 \<le> n"
    and r: "ip4_ready s L pk rest dhost" and q: "q = ip4_objs s pk"
  shows "\<exists>s1 s2 c. ip4_tx_task_turn req s = Some (Sent, s1) \<and> ether_tx_task_turn s1 = Some (True, s2)
    \<and> tx_log s2 = tx_log s @ [(dhost @ ether_addr s @ be16_bytes ETHERTYPE_IP,
         ip4_wire (iq_protocol q) (iq_dst_ip q) (20 + iq_payload_len q) c
           @ read_bytes (ram s) (iq_payload q) (unat (iq_payload_len q)))]
    \<and> inet_sum (ip4_wire (iq_protocol q) (iq_dst_ip q) (20 + iq_payload_len q) c) = 0xFFFF
    \<and> ip4_tx_queue s2 = rest \<and> ether_tx_queue s2 = ether_tx_queue s \<and> primask s2
    \<and> net_ok s2 (without L ({pk, iq_payload q} \<union> nodes (ether_tx_waitq s))) n
    \<and> keeps s s2 (without L ({pk, iq_payload q} \<union> nodes (ether_tx_waitq s)))"
proof -
  let ?n = "n + block_size_of 14" and ?p = "iq_payload q" and ?len = "iq_payload_len q"
  let ?A = "{pk, ?p} \<union> nodes (ether_tx_waitq s)"
  have n': "?n = 0 \<or> 16 \<le> ?n" using block_size_of_facts(1) [of 14] by linarith
  obtain lo lp hw where r': "ip4_tx_queue s = pk # rest" "?p \<noteq> pk" "0 < unat ?len" "20 + unat ?len \<le> 2048"
    "(unat pk, lo) \<in> L" "(unat ?p, lp) \<in> L" "unat ?len \<le> lp" "?p \<notin> nodes (all_waits s)" "pk \<notin> nodes (all_waits s)"
    "arp_lookup (ip4_get_pkt_dst (iq_dst_ip q)) s = Some hw" "hw \<noteq> 0" "ae_ether_addr (arp_entries s hw) = dhost"
    "length dhost = 6" "length (ether_addr s) = 6" "length (tx_desc s) = DESC_LEN"
    using r q by (auto simp: ip4_ready_def Let_def)
  have pk: "pk \<noteq> 0" by (rule live_nonzero [OF ok r'(5)])
  have dh: "length (ae_ether_addr (arp_entries s hw)) = 6" using r'(12,13) by simp
  show ?thesis
  proof (rule ip4_tx_task_turn_ok [OF ok [folded q] n' r'(1) pk q [symmetric] r'(6,5,2,7,8,9,10,11) dh, of req])
    fix c and obj buf :: u32 and lo' lb m pr and s1 :: "'a net_scheme"
    let ?w = "ip4_wire (iq_protocol q) (iq_dst_ip q) (20 + ?len) c" and ?r = "20 + ucast ?len :: u32"
    let ?K = "{(unat buf, lb), (unat obj, lo')} \<union> without L ?A"
    assume e: "ip4_tx_task_turn req s = Some (Sent, s1)"
      "s1 = (ether_queued obj (ae_ether_addr (arp_entries s hw)) ETHERTYPE_IP buf ?r m pr s)\<lparr>ip4_tx_queue := rest, primask := True\<rparr>"
      "net_ok s1 ?K ?n" "24 \<le> lo'" "20 + unat ?len \<le> lb"
      "read_bytes m buf (20 + unat ?len) = ?w @ read_bytes (ram s) ?p (unat ?len)" "inet_sum ?w = 0xFFFF"
      "keeps s s1 (without L ?A)" "\<And>k. (unat obj, k) \<notin> L" "\<And>k. (unat buf, k) \<notin> L" "obj \<noteq> buf"
    have ul: "unat (ucast ?r :: u16) = 20 + unat ?len"
      using r'(4) unat_ucast_down [of ?r] by (simp add: unat_word_ariths unat_ucast16)
    have f: "ether_tx_queue s1 = obj # ether_tx_queue s" "ether_addr s1 = ether_addr s" "tx_desc s1 = tx_desc s"
      "tx_log s1 = tx_log s" "ram s1 = m" "primask s1" "ip4_tx_queue s1 = rest" by (simp_all add: e(2))
    define qo where "qo = ether_objs s1 obj"
    have qo: "eq_payload qo = buf" "eq_dhost qo = dhost" "eq_ether_type qo = ETHERTYPE_IP" "unat (eq_payload_len qo) = 20 + unat ?len"
      using ul r'(12) by (simp_all add: qo_def e(2))
    have aw: "nodes (all_waits s1) \<subseteq> nodes (all_waits s)" by (auto simp: e(2) nodes_def all_waits_def)
    have nn: "obj \<notin> nodes (all_waits s1)" "eq_payload qo \<notin> nodes (all_waits s1)"
      using fresh_not_node [OF ok e(9)] fresh_not_node [OF ok e(10)] aw qo(1) by auto
    have "obj \<noteq> 0" by (rule live_nonzero [OF e(3), of _ lo']) simp
    note t = ether_tx_task_turn_ok [OF e(3) n f(1) this qo_def [symmetric] _ _ _ nn, of lo' lb, unfolded qo f(2-5)]
    have K: "without ?K {obj, buf} = without L ?A" using e(9,10) by (auto simp: without_def)
    obtain m' d' i where t': "ether_tx_task_turn s1 = Some (True, s1\<lparr>ram := m', ether_tx_queue := ether_tx_queue s, tx_desc := d', tx_produce_index := i,
        tx_log := tx_log s @ [(dhost @ ether_addr s @ be16_bytes ETHERTYPE_IP, read_bytes m buf (20 + unat ?len))]\<rparr>)"
      "net_ok (s1\<lparr>ram := m'\<rparr>) (without L ?A) n" "keeps s1 (s1\<lparr>ram := m'\<rparr>) (without L ?A)"
      using t e(5,11) r'(4,13,14,15) unfolding K by (auto simp: Un_commute)
    let ?s2 = "s1\<lparr>ram := m', ether_tx_queue := ether_tx_queue s, tx_desc := d', tx_produce_index := i,
        tx_log := tx_log s @ [(dhost @ ether_addr s @ be16_bytes ETHERTYPE_IP, read_bytes m buf (20 + unat ?len))]\<rparr>"
    have "net_ok ?s2 (without L ?A) n" using t'(2) by (rule net_ok_same) (simp_all add: all_waits_def)
    moreover have "keeps s ?s2 (without L ?A)" using e(8) t'(3) by (simp add: keeps_def)
    ultimately show ?thesis
      by (intro exI [of _ s1] exI [of _ ?s2] exI [of _ c] conjI e(1) t'(1) e(7)) (use e(6) f(6,7) in simp_all)
  qed
qed


text \<open>What \<open>ip4_xmit_packet\<close> leaves behind is ready, when the next hop is in the table.\<close>

definition next_hop_cached :: "u32 \<Rightarrow> 'a net_scheme \<Rightarrow> u8 list \<Rightarrow> bool" where
  "next_hop_cached dst s dhost \<longleftrightarrow> length dhost = 6 \<and> length (ether_addr s) = 6 \<and> length (tx_desc s) = DESC_LEN
     \<and> (\<exists>hw. arp_lookup (ip4_get_pkt_dst dst) s = Some hw \<and> hw \<noteq> 0 \<and> ae_ether_addr (arp_entries s hw) = dhost)"

lemma ip4_queued_ready:
  assumes ok: "net_ok s L k" and hop: "next_hop_cached dst s dhost" and len: "0 < unat len" "20 + unat len \<le> 2048"
    and fresh: "\<And>k. (unat obj, k) \<notin> L" "\<And>k. (unat buf, k) \<notin> L" "obj \<noteq> buf" "unat len \<le> lb"
    and K: "(unat buf, lb) \<in> K" "(unat obj, lo) \<in> K"
  shows "ip4_ready (ip4_queued obj proto dst buf len m pr s) K obj (ip4_tx_queue s) dhost"
proof -
  let ?s = "ip4_queued obj proto dst buf len m pr s"
  have "nodes (all_waits ?s) \<subseteq> nodes (all_waits s)" by (auto simp: nodes_def all_waits_def)
  then have nn: "buf \<notin> nodes (all_waits ?s)" "obj \<notin> nodes (all_waits ?s)"
    using fresh_not_node [OF ok fresh(1)] fresh_not_node [OF ok fresh(2)] by auto
  have q: "iq_payload (ip4_objs ?s obj) = buf" "iq_payload_len (ip4_objs ?s obj) = len" "iq_dst_ip (ip4_objs ?s obj) = dst"
    by simp_all
  have a: "arp_lookup i ?s = arp_lookup i s" for i by (simp add: arp_lookup_def)
  show ?thesis
    unfolding ip4_ready_def Let_def q a
    by (intro conjI nn; use hop len fresh(3,4) K in \<open>(simp add: next_hop_cached_def; fail) | force simp: next_hop_cached_def\<close>)
qed

lemma without_queued:
  assumes "\<And>k. (unat obj, k) \<notin> L" "\<And>k. (unat buf, k) \<notin> L" "M = M'"
  shows "without (insert (unat buf, lb) (insert (unat obj, lo) (without L N))) ({obj, buf} \<union> M) = without L (N \<union> M')"
  using assms by (auto simp: without_def)

text \<open>C10: a packet given to \<open>ip4_xmit_packet\<close> whose next hop (the destination, or the gateway when the
  destination is on another network) is in the ARP table is on the wire after one turn of \<open>ip4_tx_task\<close>
  and one of \<open>ether_tx_task\<close>: to the hardware address of the table, with a header whose checksum a
  receiver accepts, followed by the payload as it was when \<open>ip4_xmit_packet\<close> was called. Every buffer
  allocated on the way has been given back and no live buffer has changed. Interrupts are masked
  afterwards, because \<open>resolve_address\<close> returns a cached address without restoring the mask.\<close>

theorem ip4_packet_transmitted:
  assumes ok: "net_ok s L (n + block_size_of 14 + ip4_demand (unat len) + block_size_of (unat len) + block_size_of 24)"
    and n: "n = 0 \<or> 16 \<le> n" and len: "0 < unat len" "20 + unat len \<le> 2048" and src: "live_bytes L payload (unat len)"
    and hop: "next_hop_cached dst s dhost"
  shows "\<exists>s1 s2 s3 c. ip4_xmit_packet proto dst payload len s = Some s1
    \<and> ip4_tx_task_turn req s1 = Some (Sent, s2) \<and> ether_tx_task_turn s2 = Some (True, s3)
    \<and> tx_log s3 = tx_log s @ [(dhost @ ether_addr s @ be16_bytes 0x800,
         ip4_wire proto dst (20 + len) c @ read_bytes (ram s) payload (unat len))]
    \<and> inet_sum (ip4_wire proto dst (20 + len) c) = 0xFFFF
    \<and> ip4_tx_queue s3 = ip4_tx_queue s \<and> ether_tx_queue s3 = ether_tx_queue s
    \<and> net_ok s3 (without L (nodes (ip4_tx_waitq s) \<union> nodes (ether_tx_waitq s))) n
    \<and> keeps s s3 (without L (nodes (ip4_tx_waitq s) \<union> nodes (ether_tx_waitq s))) \<and> primask s3"
proof -
  let ?n = "n + block_size_of 14 + ip4_demand (unat len)" and ?N = "nodes (ip4_tx_waitq s)" and ?M = "nodes (ether_tx_waitq s)"
  have n': "?n = 0 \<or> 16 \<le> ?n" using block_size_of_facts(1) [of 14] by linarith
  have l0: "len \<noteq> 0" using len(1) by auto
  show ?thesis
  proof (rule ip4_xmit_packet_ok [OF ok l0 n' src, of proto dst])
    fix obj buf :: u32 and lo lb m pr
    let ?s1 = "ip4_queued obj proto dst buf len m pr s" and ?K = "insert (unat buf, lb) (insert (unat obj, lo) (without L ?N))"
    assume e: "ip4_xmit_packet proto dst payload len s = Some ?s1" "net_ok ?s1 ?K ?n" "24 \<le> lo" "unat len \<le> lb"
      "read_bytes m buf (unat len) = read_bytes (ram s) payload (unat len)" "keeps s (s\<lparr>ram := m\<rparr>) (without L ?N)"
      "\<And>k. (unat obj, k) \<notin> L" "\<And>k. (unat buf, k) \<notin> L" "obj \<noteq> buf"
    have r: "ip4_ready ?s1 ?K obj (ip4_tx_queue s) dhost"
      by (rule ip4_queued_ready [OF ok hop len e(7,8,9,4)]) auto
    define q where "q = ip4_objs ?s1 obj"
    have q: "iq_payload q = buf" "iq_payload_len q = len" "iq_dst_ip q = dst" "iq_protocol q = proto" by (simp_all add: q_def)
    have ok1: "net_ok ?s1 ?K (n + block_size_of 14 + ip4_demand (unat (iq_payload_len (ip4_objs ?s1 obj))))"
      using e(2) q(2) unfolding q_def by simp
    have K: "without ?K ({obj, buf} \<union> nodes (ether_tx_waitq ?s1)) = without L (?N \<union> ?M)"
      by (rule without_queued) (use e(7,8) in auto)
    have kp: "keeps s ?s1 (without L (?N \<union> ?M))"
      by (rule keeps_subset [of _ _ "without L ?N"]) (use e(6) in \<open>auto simp: keeps_def without_def\<close>)
    note t = ip4_send_queued [OF ok1 n r q_def, unfolded q K, of req]
    show ?thesis
      using t e(1,5) kp by (auto simp: ETHERTYPE_IP_def intro: keeps_trans)
  qed
qed


text \<open>A state with an address in the table.\<close>

definition hop_net :: "mem \<Rightarrow> net" where
  "hop_net m = boot_net\<lparr>ram := m, arp_entries := (\<lambda>_. \<lparr>ae_ether_addr = [1, 2, 3, 4, 5, 6], ae_ipaddr = 0xC0A80001\<rparr>),
     arp_table_head := [0x500]\<rparr>"

lemma hop_net_ok: "net_ok (hop_net m) L n = net_ok (boot_net\<lparr>ram := m\<rparr>) L n"
  by (simp add: hop_net_def)

lemma hop_net_cached: "next_hop_cached 0xC0A80001 (hop_net m) [1, 2, 3, 4, 5, 6]"
  by (simp add: next_hop_cached_def hop_net_def arp_lookup_def ip4_get_pkt_dst_def NET_MASK_def OUR_IP_ADDRESS_def DESC_LEN_def)

lemma ip4_packet_transmitted_witness:
  "\<exists>(s :: net) payload s1 s2 s3 c. ip4_xmit_packet 17 0xC0A80001 payload 40 s = Some s1
    \<and> ip4_tx_task_turn 0x600 s1 = Some (Sent, s2) \<and> ether_tx_task_turn s2 = Some (True, s3)
    \<and> tx_log s3 = [([1, 2, 3, 4, 5, 6, 0, 1, 2, 3, 4, 5, 8, 0], ip4_wire 17 0xC0A80001 60 c @ read_bytes (ram s) payload 40)]"
proof (rule boot_net_buffer [of 64])
  fix p :: u32 and m l
  assume b: "net_ok (boot_net\<lparr>ram := m\<rparr>) {(unat p, l)} 32000" "live_bytes {(unat p, l)} p (unat (64 :: u32))"
  have "net_ok (hop_net m) {(unat p, l)} (0 + block_size_of 14 + ip4_demand (unat (40 :: u16)) + block_size_of (unat (40 :: u16)) + block_size_of 24)"
    using net_ok_mono [OF b(1)] by (simp add: hop_net_ok block_size_of_def ip4_demand_def)
  moreover have "live_bytes {(unat p, l)} p (unat (40 :: u16))" using b(2) by (simp add: live_bytes_def)
  ultimately obtain s1 s2 s3 c where r: "ip4_xmit_packet 17 0xC0A80001 p 40 (hop_net m) = Some s1"
    "ip4_tx_task_turn 0x600 s1 = Some (Sent, s2)" "ether_tx_task_turn s2 = Some (True, s3)"
    "tx_log s3 = tx_log (hop_net m) @ [([1, 2, 3, 4, 5, 6] @ ether_addr (hop_net m) @ be16_bytes 0x800,
         ip4_wire 17 0xC0A80001 (20 + 40) c @ read_bytes (ram (hop_net m)) p (unat (40 :: u16)))]"
    using ip4_packet_transmitted [OF _ _ _ _ _ hop_net_cached, of m "{(unat p, l)}" 0 40 p 17 "0x600"] by auto
  show ?thesis
    by (rule exI [of _ "hop_net m"], rule exI [of _ p], rule exI [of _ s1], rule exI [of _ s2], rule exI [of _ s3], rule exI [of _ c])
      (use r in \<open>simp add: be16_bytes_def le16_def hop_net_def del: read_bytes_numeral\<close>)
qed (simp_all add: request_ok_def)

end
