(* ===== verification/Tcp.thy ===== *)
theory Tcp
  imports Ipv4 Tick
begin

text \<open>
  \<open>tcp.c\<close>. Headers on the stack are records; the header of a received segment is decoded from the
  packet's buffer and its swapped form written back. The blocking calls are split at their waits.
\<close>

unbundle bit_operations_syntax

definition TCP_TIMEOUT :: u16 where
  "TCP_TIMEOUT = 250"

definition TCP_BUF_SZ :: u32 where
  "TCP_BUF_SZ = 127"

definition sizeof_tcp_header :: u32 where
  "sizeof_tcp_header = 20"

definition sizeof_tcp_pseudo :: u32 where
  "sizeof_tcp_pseudo = 12"

definition sizeof_tcb :: u32 where
  "sizeof_tcb = 64"

definition set_tcb :: "u32 \<Rightarrow> (tcb \<Rightarrow> tcb) \<Rightarrow> 'a net_scheme \<Rightarrow> 'a net_scheme" where
  "set_tcb p f s = s\<lparr>tcbs := (tcbs s)(p := f (tcbs s p))\<rparr>"

text \<open>\<open>memset\<close> of a header and of a TCB.\<close>

definition zero_header :: tcp_header where
  "zero_header = \<lparr>source_port = 0, dest_port = 0, seq_n = 0, ack_n = 0, tcp_reserved_0 = 0, data_offset = 0,
     fin = False, syn = False, rst = False, psh = False, ack = False, urg = False, ece = False, cwr = False,
     window_sz = 0, tcp_checksum = 0, urg_ptr = 0\<rparr>"

definition zero_tcb :: tcb where
  "zero_tcb = \<lparr>cur_seq_n = 0, cur_ack_n = 0, unacked_byte_count = 0,
     rx_buf = \<lparr>buffer = 0, head = 0, tail = 0, buf_sz = 0, free_space = 0\<rparr>, tcb_state = CLOSED, timeout = 0,
     src_port = 0, dst_port = 0, host_window_sz = 0, dst_ip = 0, decrement_timeout = False, timed_out = False,
     last_msg = 0\<rparr>"

subsection \<open>Headers\<close>

definition tcp_swap_endian :: "tcp_header \<Rightarrow> tcp_header" where
  "tcp_swap_endian h = h\<lparr>source_port := swap16 (source_port h), dest_port := swap16 (dest_port h),
     seq_n := swap32 (seq_n h), ack_n := swap32 (ack_n h), window_sz := swap16 (window_sz h),
     tcp_checksum := swap16 (tcp_checksum h), urg_ptr := swap16 (urg_ptr h)\<rparr>"

definition tcp_swap_pseudo_endian :: "tcp_pseudo \<Rightarrow> tcp_pseudo" where
  "tcp_swap_pseudo_endian p = p\<lparr>ps_src := swap32 (ps_src p), ps_dst := swap32 (ps_dst p),
     ps_length := swap16 (ps_length p)\<rparr>"

definition tcp_compute_checksum :: "tcp_header \<Rightarrow> tcp_pseudo \<Rightarrow> u32 \<Rightarrow> u32 \<Rightarrow> 'a net_scheme \<Rightarrow> (tcp_header \<times> 'a net_scheme) option" where
  "tcp_compute_checksum header pheader payload_data payload_len s =
     do {
       let sz = sizeof_tcp_header + sizeof_tcp_pseudo + payload_len;
       let sz = (if sz mod 2 \<noteq> 0 then sz + 1 else sz);
       (buf, s) \<leftarrow> get_mem sz s;
       let m = memset buf 0 (unat sz) (ram s);
       let m = write_bytes buf (encode_pseudo pheader) m;
       let m = write_bytes (buf + sizeof_tcp_pseudo) (encode_tcp header) m;
       let m = memcpy (buf + sizeof_tcp_pseudo + sizeof_tcp_header) payload_data (unat payload_len) m;
       let acc = fold_carry (sum16 m buf (unat (sz div 2)));
       let header = header\<lparr>tcp_checksum := ucast (NOT acc)\<rparr>;
       Some (header, free_mem buf (s\<lparr>ram := m\<rparr>))
     }"

definition tcp_header_prepopulate :: "tcb \<Rightarrow> tcp_header \<Rightarrow> tcp_header" where
  "tcp_header_prepopulate t h = h\<lparr>source_port := src_port t, dest_port := dst_port t,
     seq_n := cur_seq_n t, ack_n := cur_ack_n t, data_offset := 5,
     window_sz := ucast (circular_buf_cur_capacity (rx_buf t))\<rparr>"

definition tcp_tx :: "tcp_header \<Rightarrow> u32 \<Rightarrow> u32 \<Rightarrow> u32 \<Rightarrow> 'a net_scheme \<Rightarrow> 'a net_scheme option" where
  "tcp_tx header dest payload payload_len s =
     do {
       let pheader = \<lparr>ps_src = OUR_IP_ADDRESS, ps_dst = dest, ps_reserved_0 = 0, ps_proto = IP_PROTO_TCP,
         ps_length = ucast (sizeof_tcp_header + payload_len)\<rparr>;
       let header = tcp_swap_endian header;
       let pheader = tcp_swap_pseudo_endian pheader;
       (header, s) \<leftarrow> tcp_compute_checksum header pheader payload payload_len s;
       (buf, s) \<leftarrow> get_mem (sizeof_tcp_header + payload_len) s;
       let s = s\<lparr>ram := write_bytes buf (encode_tcp header) (ram s)\<rparr>;
       let s = s\<lparr>ram := memcpy (buf + sizeof_tcp_header) payload (unat payload_len) (ram s)\<rparr>;
       s \<leftarrow> ip4_xmit_packet IP_PROTO_TCP dest buf (ucast (sizeof_tcp_header + payload_len)) s;
       Some (free_mem buf s)
     }"

subsection \<open>A segment for a connection\<close>

text \<open>The cases of the switch: the new TCB, and whether an acknowledgement is to be sent.\<close>

definition rx_listen :: "tcp_header \<Rightarrow> u32 \<Rightarrow> tcb \<Rightarrow> tcb" where
  "rx_listen incoming src t =
     (if syn incoming
      then t\<lparr>dst_ip := src, cur_ack_n := seq_n incoming + 1, dst_port := source_port incoming,
             tcb_state := SYN_RECEIVED\<rparr>
      else t)"

definition rx_syn_received :: "tcp_header \<Rightarrow> tcb \<Rightarrow> tcb" where
  "rx_syn_received incoming t =
     (if ack incoming then t\<lparr>cur_seq_n := ack_n incoming, tcb_state := ESTABLISHED\<rparr> else t)"

definition rx_established :: "tcp_header \<Rightarrow> u32 \<Rightarrow> u32 \<Rightarrow> tcb \<Rightarrow> mem \<Rightarrow> tcb \<times> bool \<times> mem" where
  "rx_established incoming payload data_len t m =
     (let (no_acked_bytes, t) =
            (if ack incoming
             then (let no_acked_bytes = ack_n incoming - cur_seq_n t;
                       t = (if 0 < sint no_acked_bytes
                            then t\<lparr>unacked_byte_count := unacked_byte_count t - no_acked_bytes\<rparr> else t)
                   in (no_acked_bytes, t\<lparr>cur_seq_n := ack_n incoming\<rparr>))
             else (0, t));
          (send_ack, t) =
            (if fin incoming then (True, t\<lparr>tcb_state := CLOSE_WAIT, cur_ack_n := cur_ack_n t + 1\<rparr>) else (False, t));
          (send_ack, t, m) =
            (if data_len \<noteq> 0
             then (let (cb, m) = circular_buf_push payload data_len (rx_buf t) m
                   in (True, t\<lparr>rx_buf := cb, cur_ack_n := cur_ack_n t + data_len\<rparr>, m))
             else (send_ack, t, m));
          send_ack = (if data_len = 0 \<and> no_acked_bytes = 0 then True else send_ack)
      in (t, send_ack, m))"

definition rx_fin_wait2 :: "tcp_header \<Rightarrow> tcb \<Rightarrow> tcb \<times> bool" where
  "rx_fin_wait2 incoming t =
     (if fin incoming \<and> ack incoming
      then (t\<lparr>tcb_state := TIME_WAIT, timeout := TCP_TIMEOUT, decrement_timeout := True\<rparr>, True)
      else (t, False))"

text \<open>A segment that none of the three conditions takes falls through to the next case.\<close>

definition rx_fin_wait1 :: "tcp_header \<Rightarrow> tcb \<Rightarrow> tcb \<times> bool" where
  "rx_fin_wait1 incoming t =
     (if fin incoming \<and> ack incoming \<and> ack_n incoming = cur_seq_n t
      then (t\<lparr>cur_ack_n := seq_n incoming + 1, tcb_state := TIME_WAIT, timeout := TCP_TIMEOUT,
              decrement_timeout := True\<rparr>, True)
      else if ack incoming \<and> ack_n incoming = cur_seq_n t
      then (t\<lparr>cur_ack_n := seq_n incoming, tcb_state := FIN_WAIT2\<rparr>, False)
      else if fin incoming
      then (t\<lparr>cur_ack_n := cur_ack_n t + 1, tcb_state := CLOSING\<rparr>, True)
      else rx_fin_wait2 incoming t)"

text \<open>\<open>cur_ack_n = incoming->ack\<close> stores the one-bit flag, as in the source.\<close>

definition rx_closing :: "tcp_header \<Rightarrow> tcb \<Rightarrow> tcb" where
  "rx_closing incoming t =
     (let t = (if ack incoming then t\<lparr>cur_ack_n := of_bool (ack incoming)\<rparr> else t)
      in t\<lparr>tcb_state := TIME_WAIT, timeout := TCP_TIMEOUT, decrement_timeout := True\<rparr>)"

text \<open>The switch without the state SYN_SENT, whose case sends a segment of its own. In CLOSE_WAIT the
  code has stopped before the switch; CLOSED, LAST_ACK and TIME_WAIT have no case.\<close>

definition rx_switch :: "tcp_header \<Rightarrow> u32 \<Rightarrow> u32 \<Rightarrow> u32 \<Rightarrow> tcb \<Rightarrow> mem \<Rightarrow> tcb \<times> bool \<times> mem" where
  "rx_switch incoming src payload data_len t m =
     (case tcb_state t of
        LISTEN \<Rightarrow> (rx_listen incoming src t, False, m)
      | SYN_RECEIVED \<Rightarrow> (rx_syn_received incoming t, False, m)
      | ESTABLISHED \<Rightarrow> rx_established incoming payload data_len t m
      | FIN_WAIT1 \<Rightarrow> (let (t, send_ack) = rx_fin_wait1 incoming t in (t, send_ack, m))
      | FIN_WAIT2 \<Rightarrow> (let (t, send_ack) = rx_fin_wait2 incoming t in (t, send_ack, m))
      | CLOSING \<Rightarrow> (rx_closing incoming t, False, m)
      | _ \<Rightarrow> (t, False, m))"

text \<open>The case SYN_SENT.\<close>

definition rx_syn_sent :: "tcp_header \<Rightarrow> u32 \<Rightarrow> 'a net_scheme \<Rightarrow> 'a net_scheme option" where
  "rx_syn_sent incoming r s =
     (if syn incoming \<and> ack incoming
      then do {
        let s = set_tcb r (\<lambda>t. t\<lparr>cur_seq_n := cur_seq_n t + 1, cur_ack_n := seq_n incoming + 1,
          host_window_sz := window_sz incoming\<rparr>) s;
        let response = tcp_header_prepopulate (tcbs s r) zero_header;
        let response = response\<lparr>ack := True\<rparr>;
        s \<leftarrow> tcp_tx response (dst_ip (tcbs s r)) 0 0 s;
        Some (set_tcb r (\<lambda>t. t\<lparr>tcb_state := ESTABLISHED\<rparr>) s)
      }
      else Some (set_tcb r (\<lambda>t. t\<lparr>tcb_state := CLOSED\<rparr>) s))"

text \<open>The search for the TCB: first an exact match, then a listener on the port.\<close>

definition find_tcb :: "tcp_header \<Rightarrow> u32 \<Rightarrow> 'a net_scheme \<Rightarrow> u32 option" where
  "find_tcb incoming src s =
     (case List.find (\<lambda>i. dest_port incoming = src_port (tcbs s i) \<and> source_port incoming = dst_port (tcbs s i)
                          \<and> dst_ip (tcbs s i) = src) (tcb_head s) of
        Some i \<Rightarrow> Some i
      | None \<Rightarrow> List.find (\<lambda>i. tcb_state (tcbs s i) = LISTEN \<and> dest_port incoming = src_port (tcbs s i)) (tcb_head s))"

text \<open>A segment for no connection is answered with a reset, unless it is one.\<close>

definition reset_response :: "tcp_header \<Rightarrow> u32 \<Rightarrow> tcp_header" where
  "reset_response incoming data_len =
     (let response = zero_header\<lparr>rst := True, data_offset := 5, dest_port := source_port incoming,
            source_port := dest_port incoming\<rparr>;
          data_len = (if syn incoming then data_len + 1 else data_len)
      in if ack incoming then response\<lparr>seq_n := ack_n incoming\<rparr>
         else response\<lparr>ack_n := seq_n incoming + data_len, ack := True\<rparr>)"

text \<open>What follows once the TCB \<open>r\<close> is found. In CLOSE_WAIT the code masks interrupts and branches to
  itself.\<close>

definition tcp_rx_for :: "u32 \<Rightarrow> u32 \<Rightarrow> tcp_header \<Rightarrow> u32 \<Rightarrow> 'a net_scheme \<Rightarrow> 'a net_scheme option" where
  "tcp_rx_for pkt r incoming data_len s =
     do {
       let s = set_tcb r (\<lambda>t. t\<lparr>decrement_timeout := False, timed_out := False, timeout := 0\<rparr>) s;
       if tcb_state (tcbs s r) = CLOSE_WAIT then None
       else do {
         (send_ack, s) \<leftarrow>
           (if tcb_state (tcbs s r) = SYN_SENT
            then do { s \<leftarrow> rx_syn_sent incoming r s; Some (False, s) }
            else (let (t, send_ack, m) = rx_switch incoming (pkt_src_ip (pkts s pkt)) (pkt_cur_data (pkts s pkt))
                        data_len (tcbs s r) (ram s)
                  in Some (send_ack, (set_tcb r (\<lambda>_. t) s)\<lparr>ram := m\<rparr>)));
         s \<leftarrow> (if send_ack
               then tcp_tx ((tcp_header_prepopulate (tcbs s r) zero_header)\<lparr>ack := True\<rparr>) (pkt_src_ip (pkts s pkt)) 0 0 s
               else Some s);
         wake_tcp s
       }
     }"

definition tcp_rx_packet :: "u32 \<Rightarrow> 'a net_scheme \<Rightarrow> 'a net_scheme option" where
  "tcp_rx_packet pkt s =
     do {
       let hdr = pkt_cur_data (pkts s pkt);
       let incoming = decode_tcp (read_bytes (ram s) hdr 20);
       let tcp_header_sz = ucast (data_offset incoming) * 4;
       let s = set_pkt pkt (\<lambda>p. p\<lparr>pkt_cur_data := pkt_cur_data p + tcp_header_sz\<rparr>) s;
       let s = set_pkt pkt (\<lambda>p. p\<lparr>pkt_cur_data_length := pkt_cur_data_length p - tcp_header_sz\<rparr>) s;
       let data_len = pkt_cur_data_length (pkts s pkt);
       let incoming = tcp_swap_endian incoming;
       let s = s\<lparr>ram := write_bytes hdr (encode_tcp incoming) (ram s)\<rparr>;
       let s = set_pkt pkt (\<lambda>p. p\<lparr>pkt_handler := DROP\<rparr>) s;
       case find_tcb incoming (pkt_src_ip (pkts s pkt)) s of
         None \<Rightarrow> (if rst incoming then Some s
                  else tcp_tx (reset_response incoming data_len) (pkt_src_ip (pkts s pkt)) 0 0 s)
       | Some r \<Rightarrow> tcp_rx_for pkt r incoming data_len s
     }"

subsection \<open>Opening connections\<close>

text \<open>\<open>list_del(&t->tcb_next)\<close>.\<close>

definition tcb_del :: "u32 \<Rightarrow> 'a net_scheme \<Rightarrow> 'a net_scheme option" where
  "tcb_del t s = (if t \<in> set (tcb_head s) then Some (s\<lparr>tcb_head := remove1 t (tcb_head s)\<rparr>) else None)"

text \<open>A fresh TCB with its receive buffer.\<close>

definition tcb_create :: "'a net_scheme \<Rightarrow> (u32 \<times> 'a net_scheme) option" where
  "tcb_create s =
     do {
       (new_tcb, s) \<leftarrow> get_mem sizeof_tcb s;
       let s = set_tcb new_tcb (\<lambda>_. zero_tcb) s;
       (cb, s) \<leftarrow> circular_buf_init TCP_BUF_SZ (rx_buf (tcbs s new_tcb)) s;
       Some (new_tcb, set_tcb new_tcb (\<lambda>t. t\<lparr>rx_buf := cb\<rparr>) s)
     }"

text \<open>\<open>tcp_connect\<close> up to its wait; \<open>hdr\<close> is the address of the local \<open>header\<close>.\<close>

definition tcp_connect :: "u16 \<Rightarrow> u32 \<Rightarrow> u32 \<Rightarrow> 'a net_scheme \<Rightarrow> (u32 \<times> 'a net_scheme) option" where
  "tcp_connect port ip hdr s =
     do {
       (new_tcb, s) \<leftarrow> tcb_create s;
       let s = set_tcb new_tcb (\<lambda>t. t\<lparr>cur_seq_n := 1024, tcb_state := SYN_SENT, timeout := TCP_TIMEOUT,
         decrement_timeout := True, src_port := 65355, dst_port := port, last_msg := hdr, dst_ip := ip\<rparr>) s;
       let header = tcp_header_prepopulate (tcbs s new_tcb) zero_header;
       let header = header\<lparr>syn := True\<rparr>;
       let s = s\<lparr>tcb_head := new_tcb # tcb_head s\<rparr>;
       s \<leftarrow> tcp_tx header ip 0 0 s;
       Some (new_tcb, s)
     }"

text \<open>One turn of its wait; the result of \<open>tcp_connect\<close> when it has one, 0 for NULL.\<close>

definition tcp_connect_wait :: "u32 \<Rightarrow> 'a net_scheme \<Rightarrow> (u32 option \<times> 'a net_scheme) option" where
  "tcp_connect_wait new_tcb s =
     do {
       (ready, s) \<leftarrow> wait_for_volatile_condition (\<lambda>s. tcb_state (tcbs s new_tcb) \<noteq> SYN_SENT) tcp_waitq
         (\<lambda>q s. s\<lparr>tcp_waitq := q\<rparr>) s;
       if \<not> ready then Some (None, s)
       else if tcb_state (tcbs s new_tcb) = ESTABLISHED then Some (Some new_tcb, s)
       else do {
         s \<leftarrow> tcb_del new_tcb s;
         Some (Some 0, free_mem new_tcb s)
       }
     }"

definition tcp_listen :: "u16 \<Rightarrow> 'a net_scheme \<Rightarrow> (u32 \<times> 'a net_scheme) option" where
  "tcp_listen port s =
     do {
       (new_tcb, s) \<leftarrow> tcb_create s;
       let s = set_tcb new_tcb (\<lambda>t. t\<lparr>cur_seq_n := 1024, tcb_state := LISTEN, src_port := port,
         dst_port := 0, dst_ip := 0\<rparr>) s;
       Some (new_tcb, s\<lparr>tcb_head := new_tcb # tcb_head s\<rparr>)
     }"

text \<open>One turn of the first wait of \<open>tcp_listen\<close>, with the SYN/ACK that follows it (\<open>True\<close>), and one
  turn of the second.\<close>

definition tcp_listen_wait :: "u32 \<Rightarrow> 'a net_scheme \<Rightarrow> (bool \<times> 'a net_scheme) option" where
  "tcp_listen_wait new_tcb s =
     do {
       (ready, s) \<leftarrow> wait_for_volatile_condition (\<lambda>s. tcb_state (tcbs s new_tcb) = SYN_RECEIVED) tcp_waitq
         (\<lambda>q s. s\<lparr>tcp_waitq := q\<rparr>) s;
       if \<not> ready then Some (False, s)
       else do {
         let resp = tcp_header_prepopulate (tcbs s new_tcb) zero_header;
         let resp = resp\<lparr>syn := True, ack := True\<rparr>;
         s \<leftarrow> tcp_tx resp (dst_ip (tcbs s new_tcb)) 0 0 s;
         Some (True, s)
       }
     }"

definition tcp_listen_established :: "u32 \<Rightarrow> 'a net_scheme \<Rightarrow> (u32 option \<times> 'a net_scheme) option" where
  "tcp_listen_established new_tcb s =
     do {
       (ready, s) \<leftarrow> wait_for_volatile_condition (\<lambda>s. tcb_state (tcbs s new_tcb) = ESTABLISHED) tcp_waitq
         (\<lambda>q s. s\<lparr>tcp_waitq := q\<rparr>) s;
       Some (if ready then Some new_tcb else None, s)
     }"

subsection \<open>Data transfer\<close>

text \<open>\<open>tcp_tx_data\<close> up to its wait, and one turn of the wait (\<open>True\<close> when the call returns).\<close>

definition tcp_tx_data :: "u32 \<Rightarrow> u32 \<Rightarrow> u32 \<Rightarrow> 'a net_scheme \<Rightarrow> 'a net_scheme option" where
  "tcp_tx_data connection payload len s =
     do {
       let header = tcp_header_prepopulate (tcbs s connection) zero_header;
       let header = header\<lparr>ack := True\<rparr>;
       let s = set_tcb connection (\<lambda>t. t\<lparr>unacked_byte_count := unacked_byte_count t + len\<rparr>) s;
       tcp_tx header (dst_ip (tcbs s connection)) payload len s
     }"

definition tcp_tx_data_wait :: "u32 \<Rightarrow> 'a net_scheme \<Rightarrow> (bool \<times> 'a net_scheme) option" where
  "tcp_tx_data_wait connection s =
     wait_for_volatile_condition (\<lambda>s. unacked_byte_count (tcbs s connection) = 0) tcp_waitq
       (\<lambda>q s. s\<lparr>tcp_waitq := q\<rparr>) s"

text \<open>One turn of the loop of \<open>tcp_rx_data\<close>: the call returns, or the caller sleeps, or it goes on with
  the rest of its buffer.\<close>

datatype rx_data_result = Rx_Return int | Rx_Asleep | Rx_Goes_On u32 u32

definition tcp_rx_data_turn :: "u32 \<Rightarrow> u32 \<Rightarrow> u32 \<Rightarrow> 'a net_scheme \<Rightarrow> (rx_data_result \<times> 'a net_scheme) option" where
  "tcp_rx_data_turn connection dst_buf len s =
     (if len = 0 then Some (Rx_Return 0, s)
      else do {
        (ready, s) \<leftarrow> wait_for_volatile_condition
          (\<lambda>s. circular_buf_cur_usage (rx_buf (tcbs s connection)) \<noteq> 0 \<or> tcb_state (tcbs s connection) = CLOSE_WAIT)
          tcp_waitq (\<lambda>q s. s\<lparr>tcp_waitq := q\<rparr>) s;
        if \<not> ready then Some (Rx_Asleep, s)
        else if tcb_state (tcbs s connection) = CLOSE_WAIT then Some (Rx_Return (- 1), s)
        else (let bytes_in_buf = circular_buf_cur_usage (rx_buf (tcbs s connection));
                  no_bytes_to_copy = (if bytes_in_buf > len then len else bytes_in_buf);
                  (cb, m) = circular_buf_pop dst_buf no_bytes_to_copy (rx_buf (tcbs s connection)) (ram s);
                  s = (set_tcb connection (\<lambda>t. t\<lparr>rx_buf := cb\<rparr>) s)\<lparr>ram := m\<rparr>
              in Some (Rx_Goes_On (dst_buf + no_bytes_to_copy) (len - no_bytes_to_copy), s))
      })"

subsection \<open>Closing, timeouts\<close>

definition tcp_close :: "u32 \<Rightarrow> 'a net_scheme \<Rightarrow> 'a net_scheme option" where
  "tcp_close connection s =
     (if tcb_state (tcbs s connection) = CLOSE_WAIT
      then do {
        let our_fin = tcp_header_prepopulate (tcbs s connection) zero_header;
        let our_fin = our_fin\<lparr>fin := True, ack := True\<rparr>;
        s \<leftarrow> tcp_tx our_fin (dst_ip (tcbs s connection)) 0 0 s;
        Some (set_tcb connection (\<lambda>t. t\<lparr>tcb_state := LAST_ACK\<rparr>) s)
      }
      else if tcb_state (tcbs s connection) = ESTABLISHED
      then do {
        let fin_hdr = tcp_header_prepopulate (tcbs s connection) zero_header;
        let fin_hdr = fin_hdr\<lparr>ack := True, fin := True\<rparr>;
        s \<leftarrow> tcp_tx fin_hdr (dst_ip (tcbs s connection)) 0 0 s;
        let s = set_tcb connection (\<lambda>t. t\<lparr>cur_seq_n := cur_seq_n t + 1\<rparr>) s;
        Some (set_tcb connection (\<lambda>t. t\<lparr>tcb_state := FIN_WAIT1\<rparr>) s)
      }
      else Some s)"

definition tcb_expire :: "u32 \<Rightarrow> 'a net_scheme \<Rightarrow> 'a net_scheme option" where
  "tcb_expire cur s =
     do {
       let s = set_tcb cur (\<lambda>t. t\<lparr>timed_out := True, decrement_timeout := False\<rparr>) s;
       if tcb_state (tcbs s cur) = TIME_WAIT
       then do {
         s \<leftarrow> tcb_del cur s;
         let (cb, s) = circular_buf_free (rx_buf (tcbs s cur)) s;
         let s = set_tcb cur (\<lambda>t. t\<lparr>rx_buf := cb\<rparr>) s;
         Some (free_mem cur s)
       }
       else Some s
     }"

fun tcp_tick_loop :: "u32 list \<Rightarrow> 'a net_scheme \<Rightarrow> 'a net_scheme option" where
  "tcp_tick_loop [] s = Some s"
| "tcp_tick_loop (cur # rest) s =
     do {
       s \<leftarrow> (if decrement_timeout (tcbs s cur)
             then (let old = timeout (tcbs s cur);
                       s = set_tcb cur (\<lambda>t. t\<lparr>timeout := old - 1\<rparr>) s
                   in if old = 0 then tcb_expire cur s else Some s)
             else Some s);
       tcp_tick_loop rest s
     }"

definition tcp_tick :: "'a net_scheme \<Rightarrow> 'a net_scheme option" where
  "tcp_tick s = tcp_tick_loop (tcb_head s) s"

definition tcp_init :: "'a net_scheme \<Rightarrow> 'a net_scheme option" where
  "tcp_init s = do { s \<leftarrow> tick_add_work_fn TCP_TICK s; protocol_register TCP s }"

end
