(* ===== verification/Tcp_Tx.thy ===== *)
theory Tcp_Tx
  imports Tcp Ipv4_Tx
begin

text \<open>The transmit path of TCP: the checksum over the pseudo header, and the segment that \<open>tcp_tx\<close> queues.\<close>

unbundle bit_operations_syntax

subsection \<open>The checksum\<close>

lemma encode_tcp_split:
  "encode_tcp h = (le16 (source_port h) @ le16 (dest_port h) @ le32 (seq_n h) @ le32 (ack_n h)
     @ [ucast (tcp_reserved_0 h) OR push_bit 4 (ucast (data_offset h)), tcp_flags h] @ le16 (window_sz h))
     @ le16 (tcp_checksum h) @ le16 (urg_ptr h)"
  by (simp add: encode_tcp_def)

lemma tcp_flags_checksum [simp]: "tcp_flags (h\<lparr>tcp_checksum := c\<rparr>) = tcp_flags h"
  by (simp add: tcp_flags_def)

lemma tcp_checksum_run:
  assumes rd: "read_bytes m x (2 * n) = encode_pseudo ph @ encode_tcp h @ bs" and n: "n \<le> 65536" and z: "tcp_checksum h = 0"
  shows "inet_sum (encode_pseudo ph @ encode_tcp (h\<lparr>tcp_checksum := ucast (NOT (fold_carry (sum16 m x n)))\<rparr>) @ bs) = 0xFFFF"
proof -
  let ?xs = "encode_pseudo ph @ le16 (source_port h) @ le16 (dest_port h) @ le32 (seq_n h) @ le32 (ack_n h)
     @ [ucast (tcp_reserved_0 h) OR push_bit 4 (ucast (data_offset h)), tcp_flags h] @ le16 (window_sz h)"
  have "inet_sum (?xs @ le16 (ucast (NOT (fold_carry (sum16 m x n)))) @ le16 (urg_ptr h) @ bs) = 0xFFFF"
    by (rule inet_sum_checksum [of _ _ _ _ _ 14]) (use rd n z in \<open>simp_all add: encode_tcp_split\<close>)
  then show ?thesis by (simp add: encode_tcp_split)
qed

text \<open>The buffer that the checksum is computed over, its last byte zero when it is padded.\<close>

lemma tcp_checksum_buffer:
  assumes ok: "net_ok (s\<lparr>ram := m0\<rparr>) (insert (unat b, l) L) n" and fresh: "\<And>k. (unat b, k) \<notin> L"
    and k: "32 + len \<le> k" "k \<le> l" "k \<le> 4096" and src: "live_bytes L payload len"
    and m_def: "m = memcpy (b + 32) payload len (write_bytes (b + 12) (encode_tcp h) (write_bytes b (encode_pseudo ph) (memset b 0 k m0)))"
  shows "net_ok (s\<lparr>ram := m\<rparr>) (insert (unat b, l) L) n" "keeps (s\<lparr>ram := m0\<rparr>) (s\<lparr>ram := m\<rparr>) L"
    "read_bytes m b k = encode_pseudo ph @ encode_tcp h @ read_bytes m0 payload len @ replicate (k - 32 - len) 0"
proof -
  let ?z = "replicate (k - 32 - len) (0 :: u8)" and ?pl = "read_bytes m0 payload len"
  let ?m1 = "memset b 0 k m0" and ?m2 = "write_bytes b (encode_pseudo ph) (memset b 0 k m0)"
  let ?m3 = "write_bytes (b + 12) (encode_tcp h) (write_bytes b (encode_pseudo ph) (memset b 0 k m0))"
  have w1: "net_ok (s\<lparr>ram := ?m1\<rparr>) (insert (unat b, l) L) n" "keeps (s\<lparr>ram := m0\<rparr>) (s\<lparr>ram := ?m1\<rparr>) L"
    using write_fresh [OF ok fresh, of 0 "replicate k 0"] k by (simp_all add: memset_def)
  have w2: "net_ok (s\<lparr>ram := ?m2\<rparr>) (insert (unat b, l) L) n" "keeps (s\<lparr>ram := ?m1\<rparr>) (s\<lparr>ram := ?m2\<rparr>) L"
    using write_fresh [OF w1(1) fresh, of 0 "encode_pseudo ph"] k by simp_all
  have w3: "net_ok (s\<lparr>ram := ?m3\<rparr>) (insert (unat b, l) L) n" "keeps (s\<lparr>ram := ?m2\<rparr>) (s\<lparr>ram := ?m3\<rparr>) L"
    using write_fresh [OF w2(1) fresh, of 12 "encode_tcp h"] k by simp_all
  have k3: "keeps (s\<lparr>ram := m0\<rparr>) (s\<lparr>ram := ?m3\<rparr>) L"
    using w1(2) w2(2) w3(2) by (blast intro: keeps_trans)
  have pl: "read_bytes ?m3 payload len = ?pl" using read_bytes_keeps [OF k3 src] by simp
  have m: "m = write_bytes (b + 32) ?pl ?m3" by (simp add: m_def memcpy_def pl)
  have w4: "net_ok (s\<lparr>ram := m\<rparr>) (insert (unat b, l) L) n" "keeps (s\<lparr>ram := ?m3\<rparr>) (s\<lparr>ram := m\<rparr>) L"
    using write_fresh [OF w3(1) fresh, of 32 ?pl] k unfolding m by simp_all
  show "net_ok (s\<lparr>ram := m\<rparr>) (insert (unat b, l) L) n" by (rule w4(1))
  show "keeps (s\<lparr>ram := m0\<rparr>) (s\<lparr>ram := m\<rparr>) L" by (rule keeps_trans [OF k3 w4(2)])
  let ?bs = "encode_pseudo ph @ encode_tcp h @ ?pl"
  have m': "m = write_bytes b ?bs ?m1" by (simp add: m write_bytes_append add.assoc)
  show "read_bytes m b k = encode_pseudo ph @ encode_tcp h @ ?pl @ ?z"
    using read_after_memset [of ?bs k b m0] k unfolding m' by simp
qed


definition checksum_size :: "nat \<Rightarrow> nat" where
  "checksum_size len = 32 + len + len mod 2"

lemma tcp_compute_checksum_ok:
  assumes ok: "net_ok s L (n + block_size_of (checksum_size (unat len)))" and n: "n = 0 \<or> 16 \<le> n"
    and src: "live_bytes L payload (unat len)" and len: "unat len \<le> 2048" and z: "tcp_checksum h = 0"
  obtains c m where "tcp_compute_checksum h ph payload len s = Some (h\<lparr>tcp_checksum := c\<rparr>, s\<lparr>ram := m\<rparr>)"
    "net_ok (s\<lparr>ram := m\<rparr>) L n" "keeps s (s\<lparr>ram := m\<rparr>) L"
    "inet_sum (encode_pseudo ph @ encode_tcp (h\<lparr>tcp_checksum := c\<rparr>) @ read_bytes (ram s) payload (unat len)) = 0xFFFF"
proof -
  let ?k = "checksum_size (unat len)" and ?pl = "read_bytes (ram s) payload (unat len)"
  define sz where "sz = (if (32 + len) mod 2 \<noteq> 0 then 33 + len else 32 + len)"
  have szeq: "(if (20 + 12 + len) mod 2 \<noteq> 0 then 20 + 12 + len + 1 else 20 + 12 + len) = sz"
    by (simp add: sz_def)
  have a: "unat (32 + len) = 32 + unat len" "unat (33 + len) = 33 + unat len"
    using len by (simp_all add: unat_word_ariths)
  have "(32 + len) mod 2 \<noteq> 0 \<longleftrightarrow> unat len mod 2 = 1"
    using a(1) by (simp add: word_unat_eq_iff unat_mod_distrib) presburger
  then have usz: "unat sz = ?k" unfolding sz_def checksum_size_def by (auto simp: a)
  have k: "32 + unat len \<le> ?k" "?k \<le> 4096" "even ?k" "?k - 32 - unat len = unat len mod 2"
    using len by (auto simp: checksum_size_def)
  have r: "request_ok sz" using k usz by (auto simp: request_ok_def)
  have ok': "net_ok s L (n + block_size_of (unat sz))" using ok by (simp add: usz)
  show thesis
  proof (rule get_mem_net [OF ok' r n])
    fix b m0 l
    assume g: "get_mem sz s = Some (b, s\<lparr>ram := m0\<rparr>)" "unat sz \<le> l" "net_ok (s\<lparr>ram := m0\<rparr>) (insert (unat b, l) L) n"
      "\<And>k. (unat b, k) \<notin> L" "keeps s (s\<lparr>ram := m0\<rparr>) L"
    have kl: "?k \<le> l" using g(2) usz by simp
    define m where "m = memcpy (b + 32) payload (unat len) (write_bytes (b + 12) (encode_tcp h)
      (write_bytes b (encode_pseudo ph) (memset b 0 ?k m0)))"
    note w = tcp_checksum_buffer [OF g(3,4) k(1) kl k(2) src m_def]
    have "read_bytes m0 payload (unat len) = ?pl" using read_bytes_keeps [OF g(5) src] by simp
    then have rd: "read_bytes m b (2 * (?k div 2)) = encode_pseudo ph @ encode_tcp h @ ?pl @ replicate (unat len mod 2) 0"
      using w(3) k(3,4) by simp
    define c where "c = (ucast (NOT (fold_carry (sum16 m b (?k div 2)))) :: u16)"
    have s1: "inet_sum (encode_pseudo ph @ encode_tcp (h\<lparr>tcp_checksum := c\<rparr>) @ ?pl @ replicate (unat len mod 2) 0) = 0xFFFF"
      unfolding c_def by (rule tcp_checksum_run [OF rd _ z]) (use k in simp)
    have s2: "inet_sum (encode_pseudo ph @ encode_tcp (h\<lparr>tcp_checksum := c\<rparr>) @ ?pl) = 0xFFFF"
    proof (cases "unat len mod 2 = 1")
      case True
      let ?bs = "encode_pseudo ph @ encode_tcp (h\<lparr>tcp_checksum := c\<rparr>) @ ?pl"
      have "odd (length ?bs)" "length ?bs < 2 ^ 32" using True len by (simp_all add: odd_iff_mod_2_eq_one)
      then show ?thesis using inet_sum_pad [of ?bs] s1 True by simp
    next
      case False
      then have "unat len mod 2 = 0" by presburger
      then show ?thesis using s1 by simp
    qed
    have nb: "b \<notin> nodes (all_waits (s\<lparr>ram := m\<rparr>))" using fresh_not_node [OF ok g(4)] by (simp add: all_waits_def)
    have u: "unat (sz div 2) = ?k div 2" by (simp add: unat_div_distrib usz)
    show thesis
    proof (rule free_mem_net [OF w(1) _ nb, of l], unfold without_fresh [OF g(4)])
      fix m2
      assume f: "free_mem b (s\<lparr>ram := m\<rparr>) = s\<lparr>ram := m\<rparr>\<lparr>ram := m2\<rparr>" "net_ok (s\<lparr>ram := m\<rparr>\<lparr>ram := m2\<rparr>) L n"
        "keeps (s\<lparr>ram := m\<rparr>) (s\<lparr>ram := m\<rparr>\<lparr>ram := m2\<rparr>) L"
      have "tcp_compute_checksum h ph payload len s = Some (h\<lparr>tcp_checksum := c\<rparr>, s\<lparr>ram := m2\<rparr>)"
        using g(1) f(1) unfolding tcp_compute_checksum_def Let_def sizeof_tcp_header_def sizeof_tcp_pseudo_def szeq
        by (simp add: m_def c_def usz u add.commute)
      moreover have "keeps s (s\<lparr>ram := m2\<rparr>) L" using g(5) w(2) f(3) by (simp add: keeps_def)
      ultimately show thesis using that [of c m2] f(2) s2 by simp
    qed simp
  qed
qed


subsection \<open>The segment\<close>

text \<open>The pseudo header and the segment in network order, with a checksum.\<close>

definition wire_pseudo :: "u32 \<Rightarrow> u32 \<Rightarrow> u8 list" where
  "wire_pseudo dest len = be32_bytes OUR_IP_ADDRESS @ be32_bytes dest @ [0, 6] @ be16_bytes (ucast (20 + len))"

definition wire_segment :: "tcp_header \<Rightarrow> u16 \<Rightarrow> u8 list \<Rightarrow> u8 list" where
  "wire_segment h c pl = be16_bytes (source_port h) @ be16_bytes (dest_port h) @ be32_bytes (seq_n h) @ be32_bytes (ack_n h)
     @ [ucast (tcp_reserved_0 h) OR push_bit 4 (ucast (data_offset h)), tcp_flags h]
     @ be16_bytes (window_sz h) @ le16 c @ be16_bytes (urg_ptr h) @ pl"

text \<open>What the code builds with its swap functions.\<close>

lemma encode_swapped: "encode_tcp ((tcp_swap_endian h)\<lparr>tcp_checksum := c\<rparr>) @ pl = wire_segment h c pl"
  by (simp add: wire_segment_def encode_tcp_def tcp_swap_endian_def tcp_flags_def)

lemma encode_swapped_pseudo:
  "encode_pseudo (tcp_swap_pseudo_endian \<lparr>ps_src = OUR_IP_ADDRESS, ps_dst = dest, ps_reserved_0 = 0,
     ps_proto = IP_PROTO_TCP, ps_length = ucast (20 + len)\<rparr>) = wire_pseudo dest len"
  by (simp add: encode_pseudo_def wire_pseudo_def tcp_swap_pseudo_endian_def IP_PROTO_TCP_def)

lemma length_wire_segment [simp]: "length (wire_segment h c pl) = 20 + length pl"
  by (simp add: wire_segment_def)

definition tcp_demand :: "nat \<Rightarrow> nat" where
  "tcp_demand len = block_size_of (checksum_size len) + block_size_of (20 + len) + block_size_of 24 + block_size_of (20 + len)"

text \<open>Header and payload in a fresh buffer.\<close>

lemma segment_buffer:
  assumes ok: "net_ok (s\<lparr>ram := m0\<rparr>) (insert (unat b, l) L) n" and fresh: "\<And>k. (unat b, k) \<notin> L"
    and k: "20 + len \<le> l" "len \<le> 4096" and src: "live_bytes L payload len" and hs: "length hs = 20"
    and m_def: "m = memcpy (b + 20) payload len (write_bytes b hs m0)"
  shows "net_ok (s\<lparr>ram := m\<rparr>) (insert (unat b, l) L) n" "keeps (s\<lparr>ram := m0\<rparr>) (s\<lparr>ram := m\<rparr>) L"
    "read_bytes m b (20 + len) = hs @ read_bytes m0 payload len"
proof -
  let ?m1 = "write_bytes b hs m0" and ?pl = "read_bytes m0 payload len"
  have w1: "net_ok (s\<lparr>ram := ?m1\<rparr>) (insert (unat b, l) L) n" "keeps (s\<lparr>ram := m0\<rparr>) (s\<lparr>ram := ?m1\<rparr>) L"
    using write_fresh [OF ok fresh, of 0 hs] k hs by simp_all
  have pl: "read_bytes ?m1 payload len = ?pl" using read_bytes_keeps [OF w1(2) src] by simp
  have m: "m = write_bytes (b + 20) ?pl ?m1" by (simp add: m_def memcpy_def pl)
  have w2: "net_ok (s\<lparr>ram := m\<rparr>) (insert (unat b, l) L) n" "keeps (s\<lparr>ram := ?m1\<rparr>) (s\<lparr>ram := m\<rparr>) L"
    using write_fresh [OF w1(1) fresh, of 20 ?pl] k unfolding m by simp_all
  show "net_ok (s\<lparr>ram := m\<rparr>) (insert (unat b, l) L) n" by (rule w2(1))
  show "keeps (s\<lparr>ram := m0\<rparr>) (s\<lparr>ram := m\<rparr>) L" by (rule keeps_trans [OF w1(2) w2(2)])
  have "m = write_bytes b (hs @ ?pl) m0" by (simp add: m write_bytes_append hs)
  then show "read_bytes m b (20 + len) = hs @ ?pl"
    using read_write_bytes [of "hs @ ?pl" b m0] k hs by simp
qed

lemma tcp_tx_ok:
  assumes ok: "net_ok s L (n + tcp_demand (unat len))" and n: "n = 0 \<or> 16 \<le> n"
    and src: "live_bytes L payload (unat len)" and len: "unat len \<le> 2048" and z: "tcp_checksum h = 0"
  obtains c obj buf lo lb m pr where
    "tcp_tx h dest payload len s = Some (ip4_queued obj IP_PROTO_TCP dest buf (ucast (20 + len)) m pr s)"
    "net_ok (ip4_queued obj IP_PROTO_TCP dest buf (ucast (20 + len)) m pr s)
       (insert (unat buf, lb) (insert (unat obj, lo) (without L (nodes (ip4_tx_waitq s))))) n"
    "24 \<le> lo" "20 + unat len \<le> lb"
    "read_bytes m buf (20 + unat len) = wire_segment h c (read_bytes (ram s) payload (unat len))"
    "inet_sum (wire_pseudo dest len @ wire_segment h c (read_bytes (ram s) payload (unat len))) = 0xFFFF"
    "keeps s (s\<lparr>ram := m\<rparr>) (without L (nodes (ip4_tx_waitq s)))"
    "\<And>k. (unat obj, k) \<notin> L" "\<And>k. (unat buf, k) \<notin> L" "obj \<noteq> buf"
proof -
  let ?h = "tcp_swap_endian h" and ?pl = "read_bytes (ram s) payload (unat len)" and ?r = "20 + len" and ?N = "nodes (ip4_tx_waitq s)"
  let ?ph = "tcp_swap_pseudo_endian \<lparr>ps_src = OUR_IP_ADDRESS, ps_dst = dest, ps_reserved_0 = 0,
     ps_proto = IP_PROTO_TCP, ps_length = ucast (20 + len)\<rparr>"
  have z': "tcp_checksum ?h = 0" using z by (simp add: tcp_swap_endian_def swap16_def)
  have ur: "unat ?r = 20 + unat len" using len by (simp add: unat_word_ariths)
  have ul: "unat (ucast ?r :: u16) = 20 + unat len" using len unat_ucast_down [of ?r] ur by simp
  have r: "request_ok ?r" using ur len by (auto simp: request_ok_def)
  let ?n1 = "n + block_size_of (20 + unat len) + block_size_of 24" and ?n2 = "n + block_size_of (20 + unat len) + block_size_of 24 + block_size_of (20 + unat len)"
  have nn: "?n1 = 0 \<or> 16 \<le> ?n1" "?n2 = 0 \<or> 16 \<le> ?n2" using block_size_of_facts(1) [of 24] by linarith+
  have ok0: "net_ok s L (?n2 + block_size_of (checksum_size (unat len)))" using ok unfolding tcp_demand_def by (simp add: ac_simps)
  show thesis
  proof (rule tcp_compute_checksum_ok [OF ok0 nn(2) src len z', of ?ph])
    fix c m0
    assume c: "tcp_compute_checksum ?h ?ph payload len s = Some (?h\<lparr>tcp_checksum := c\<rparr>, s\<lparr>ram := m0\<rparr>)"
      "net_ok (s\<lparr>ram := m0\<rparr>) L ?n2" "keeps s (s\<lparr>ram := m0\<rparr>) L"
      "inet_sum (encode_pseudo ?ph @ encode_tcp (?h\<lparr>tcp_checksum := c\<rparr>) @ ?pl) = 0xFFFF"
    let ?s0 = "s\<lparr>ram := m0\<rparr>"
    have ok1: "net_ok ?s0 L (?n1 + block_size_of (unat ?r))" using c(2) unfolding ur .
    show thesis
    proof (rule get_mem_net [OF ok1 r nn(1)])
      fix b m1 l
      assume g: "get_mem ?r ?s0 = Some (b, ?s0\<lparr>ram := m1\<rparr>)" "unat ?r \<le> l" "net_ok (?s0\<lparr>ram := m1\<rparr>) (insert (unat b, l) L) ?n1"
        "\<And>k. (unat b, k) \<notin> L" "keeps ?s0 (?s0\<lparr>ram := m1\<rparr>) L"
      define m2 where "m2 = memcpy (b + 20) payload (unat len) (write_bytes b (encode_tcp (?h\<lparr>tcp_checksum := c\<rparr>)) m1)"
      have kl: "20 + unat len \<le> l" "unat len \<le> 4096" using g(2) ur len by simp_all
      note w = segment_buffer [OF g(3,4) kl src _ m2_def, simplified]
      have pl: "read_bytes m1 payload (unat len) = ?pl"
        using read_bytes_keeps [OF g(5) src] read_bytes_keeps [OF c(3) src] by simp
      have seg: "read_bytes m2 b (20 + unat len) = wire_segment h c ?pl" using w(3) pl by (simp add: encode_swapped [symmetric])
      let ?s2 = "s\<lparr>ram := m2\<rparr>" and ?l = "ucast ?r :: u16"
      have ok2: "net_ok ?s2 (insert (unat b, l) L) (n + block_size_of (unat ?l) + block_size_of 24)" using w(1) unfolding ul by simp
      have nz: "?l \<noteq> 0" using ul by (metis add_eq_0_iff_both_eq_0 unat_0 zero_neq_numeral)
      have b: "b \<notin> ?N" "b \<notin> nodes (all_waits s)" using fresh_not_nodes(4) [OF ok g(4)] fresh_not_node [OF ok g(4)] by auto
      have src2: "live_bytes (insert (unat b, l) L) b (unat ?l)"
        using live_bytes_buf [OF net_okD(4) [OF ok2], of b l 0] kl(1) ul by (auto simp: live_bytes_def)
      show thesis
      proof (rule ip4_xmit_packet_ok [OF ok2 nz n src2, of IP_PROTO_TCP dest])
        fix obj buf :: u32 and lo lb m3 pr
        let ?E = "\<lambda>m. ip4_queued obj IP_PROTO_TCP dest buf ?l m pr s"
        let ?K = "insert (unat buf, lb) (insert (unat obj, lo) (without L ?N))"
        assume e: "ip4_xmit_packet IP_PROTO_TCP dest b ?l ?s2 = Some (ip4_queued obj IP_PROTO_TCP dest buf ?l m3 pr ?s2)"
          "net_ok (ip4_queued obj IP_PROTO_TCP dest buf ?l m3 pr ?s2)
            (insert (unat buf, lb) (insert (unat obj, lo) (without (insert (unat b, l) L) (nodes (ip4_tx_waitq ?s2))))) n"
          "24 \<le> lo" "unat ?l \<le> lb" "read_bytes m3 buf (unat ?l) = read_bytes (ram ?s2) b (unat ?l)"
          "keeps ?s2 (?s2\<lparr>ram := m3\<rparr>) (without (insert (unat b, l) L) (nodes (ip4_tx_waitq ?s2)))"
          "\<And>k. (unat obj, k) \<notin> insert (unat b, l) L" "\<And>k. (unat buf, k) \<notin> insert (unat b, l) L" "obj \<noteq> buf"
        have fr: "\<And>k. (unat obj, k) \<notin> L" "\<And>k. (unat buf, k) \<notin> L" "b \<noteq> obj" "b \<noteq> buf" using e(7,8) by auto
        have okE: "net_ok (?E m3) (insert (unat b, l) ?K) n"
          using e(2) by (simp add: insert_commute without_insert [OF b(1)])
        have nb: "b \<notin> nodes (all_waits (?E m3))" using b(2) by (auto simp: nodes_def all_waits_def)
        have bK: "\<And>k. (unat b, k) \<notin> ?K" using g(4) fr(3,4) by (auto simp: without_def word_unat_eq_iff)
        show thesis
        proof (rule free_mem_net [OF okE _ nb, of l], unfold without_fresh [OF bK])
          fix m4
          assume x: "free_mem b (?E m3) = ?E m3\<lparr>ram := m4\<rparr>" "net_ok (?E m3\<lparr>ram := m4\<rparr>) ?K n"
            "keeps (?E m3) (?E m3\<lparr>ram := m4\<rparr>) ?K"
          have run: "tcp_tx h dest payload len s = Some (?E m4)"
            using c(1) g(1) e(1) x(1) by (simp add: tcp_tx_def sizeof_tcp_header_def Let_def m2_def)
          have ok4: "net_ok (?E m4) ?K n" using x(2) by (rule net_ok_same) (simp_all add: all_waits_def)
          have "live_bytes ?K buf (20 + unat len)"
            using live_bytes_buf [OF net_okD(4) [OF ok4], of buf lb 0] e(4) ul by (auto simp: live_bytes_def)
          then have rd: "read_bytes m4 buf (20 + unat len) = wire_segment h c ?pl"
            using read_bytes_keeps [OF x(3)] e(5) seg by (simp add: ul)
          have kp: "keeps s (s\<lparr>ram := m4\<rparr>) (without L ?N)"
            using c(3) g(5) w(2) e(6) x(3) unfolding keeps_def by (fastforce simp: without_insert [OF b(1)] dest: in_without)
          have sm: "inet_sum (wire_pseudo dest len @ wire_segment h c ?pl) = 0xFFFF"
            using c(4) unfolding encode_swapped encode_swapped_pseudo .
          show thesis by (rule that [OF run ok4 e(3) e(4) [unfolded ul] rd sm kp fr(1,2) e(9)])
        qed simp
      qed
    qed
  qed
qed


subsection \<open>From \<open>tcp_tx\<close> to the wire\<close>

text \<open>C12: a segment given to \<open>tcp_tx\<close> for a destination whose next hop is in the ARP table is on the wire
  after one turn of \<open>ip4_tx_task\<close> and one of \<open>ether_tx_task\<close>: in an IP packet of protocol 6 from us to
  the destination, the header of the caller in network order with a checksum that a receiver accepts
  over pseudo header, header and payload, and the payload bytes. All memory used on the way has been
  given back and no live buffer has changed.\<close>

theorem tcp_segment_transmitted:
  assumes ok: "net_ok s L (n + block_size_of 14 + ip4_demand (20 + unat len) + tcp_demand (unat len))"
    and n: "n = 0 \<or> 16 \<le> n" and len: "unat len \<le> 2008" and src: "live_bytes L payload (unat len)"
    and z: "tcp_checksum h = 0" and hop: "next_hop_cached dest s dhost"
  shows "\<exists>s1 s2 s3 c c'. tcp_tx h dest payload len s = Some s1
    \<and> ip4_tx_task_turn req s1 = Some (Sent, s2) \<and> ether_tx_task_turn s2 = Some (True, s3)
    \<and> tx_log s3 = tx_log s @ [(dhost @ ether_addr s @ be16_bytes 0x800,
         ip4_wire 6 dest (20 + ucast (20 + len)) c @ wire_segment h c' (read_bytes (ram s) payload (unat len)))]
    \<and> inet_sum (ip4_wire 6 dest (20 + ucast (20 + len)) c) = 0xFFFF
    \<and> inet_sum (wire_pseudo dest len @ wire_segment h c' (read_bytes (ram s) payload (unat len))) = 0xFFFF
    \<and> net_ok s3 (without L (nodes (ip4_tx_waitq s) \<union> nodes (ether_tx_waitq s))) n
    \<and> keeps s s3 (without L (nodes (ip4_tx_waitq s) \<union> nodes (ether_tx_waitq s)))"
proof -
  let ?n = "n + block_size_of 14 + ip4_demand (20 + unat len)" and ?N = "nodes (ip4_tx_waitq s)" and ?M = "nodes (ether_tx_waitq s)"
  let ?pl = "read_bytes (ram s) payload (unat len)" and ?l = "ucast (20 + len) :: u16"
  have n': "?n = 0 \<or> 16 \<le> ?n" using block_size_of_facts(1) [of 14] by linarith
  have len': "unat len \<le> 2048" using len by simp
  have ul: "unat ?l = 20 + unat len" using len unat_ucast_down [of "20 + len"] by (simp add: unat_word_ariths)
  show ?thesis
  proof (rule tcp_tx_ok [OF ok n' src len' z, of dest])
    fix c and obj buf :: u32 and lo lb m pr
    let ?s1 = "ip4_queued obj IP_PROTO_TCP dest buf ?l m pr s" and ?K = "insert (unat buf, lb) (insert (unat obj, lo) (without L ?N))"
    assume e: "tcp_tx h dest payload len s = Some ?s1" "net_ok ?s1 ?K ?n" "24 \<le> lo" "20 + unat len \<le> lb"
      "read_bytes m buf (20 + unat len) = wire_segment h c ?pl" "inet_sum (wire_pseudo dest len @ wire_segment h c ?pl) = 0xFFFF"
      "keeps s (s\<lparr>ram := m\<rparr>) (without L ?N)" "\<And>k. (unat obj, k) \<notin> L" "\<And>k. (unat buf, k) \<notin> L" "obj \<noteq> buf"
    have r: "ip4_ready ?s1 ?K obj (ip4_tx_queue s) dhost"
      by (rule ip4_queued_ready [OF ok hop _ _ e(8,9,10)]) (use len ul e(4) in auto)
    define q where "q = ip4_objs ?s1 obj"
    have q: "iq_payload q = buf" "iq_payload_len q = ?l" "iq_dst_ip q = dest" "iq_protocol q = 6"
      by (simp_all add: q_def IP_PROTO_TCP_def)
    have ok1: "net_ok ?s1 ?K (n + block_size_of 14 + ip4_demand (unat (iq_payload_len (ip4_objs ?s1 obj))))"
      using e(2) unfolding q_def [symmetric] q(2) ul .
    have K: "without ?K ({obj, buf} \<union> nodes (ether_tx_waitq ?s1)) = without L (?N \<union> ?M)"
      by (rule without_queued) (use e(8,9) in auto)
    have kp: "keeps s ?s1 (without L (?N \<union> ?M))"
      by (rule keeps_subset [of _ _ "without L ?N"]) (use e(7) in \<open>auto simp: keeps_def without_def\<close>)
    note t = ip4_send_queued [OF ok1 n r q_def, unfolded q K ul, of req]
    show ?thesis
      using t e(1,5,6) kp by (auto simp: ETHERTYPE_IP_def; blast intro: keeps_trans)
  qed
qed


lemma tcp_segment_transmitted_witness:
  "\<exists>(s :: net) payload s1 s2 s3 c c'. tcp_tx (zero_header\<lparr>seq_n := 1024, ack := True, window_sz := 127\<rparr>) 0xC0A80001 payload 41 s = Some s1
    \<and> ip4_tx_task_turn 0x600 s1 = Some (Sent, s2) \<and> ether_tx_task_turn s2 = Some (True, s3)
    \<and> snd (hd (tx_log s3)) = ip4_wire 6 0xC0A80001 81 c @ wire_segment (zero_header\<lparr>seq_n := 1024, ack := True, window_sz := 127\<rparr>) c' (read_bytes (ram s) payload 41)"
proof (rule boot_net_buffer [of 64])
  fix p :: u32 and m l
  assume b: "net_ok (boot_net\<lparr>ram := m\<rparr>) {(unat p, l)} 32000" "live_bytes {(unat p, l)} p (unat (64 :: u32))"
  have ok: "net_ok (hop_net m) {(unat p, l)} (0 + block_size_of 14 + ip4_demand (20 + unat (41 :: u32)) + tcp_demand (unat (41 :: u32)))"
    using net_ok_mono [OF b(1)] by (simp add: hop_net_ok block_size_of_def ip4_demand_def tcp_demand_def checksum_size_def)
  have src: "live_bytes {(unat p, l)} p (unat (41 :: u32))" using b(2) by (simp add: live_bytes_def)
  have z: "tcp_checksum (zero_header\<lparr>seq_n := 1024, ack := True, window_sz := 127\<rparr>) = 0" by (simp add: zero_header_def)
  obtain s1 s2 s3 c c' where r: "tcp_tx (zero_header\<lparr>seq_n := 1024, ack := True, window_sz := 127\<rparr>) 0xC0A80001 p 41 (hop_net m) = Some s1"
    "ip4_tx_task_turn 0x600 s1 = Some (Sent, s2)" "ether_tx_task_turn s2 = Some (True, s3)"
    "tx_log s3 = tx_log (hop_net m) @ [([1, 2, 3, 4, 5, 6] @ ether_addr (hop_net m) @ be16_bytes 0x800,
         ip4_wire 6 0xC0A80001 (20 + ucast (20 + 41 :: u32)) c @
         wire_segment (zero_header\<lparr>seq_n := 1024, ack := True, window_sz := 127\<rparr>) c' (read_bytes (ram (hop_net m)) p (unat (41 :: u32))))]"
    using tcp_segment_transmitted [OF ok _ _ src z hop_net_cached, of "0x600"] by auto
  show ?thesis
    by (rule exI [of _ "hop_net m"], rule exI [of _ p], rule exI [of _ s1], rule exI [of _ s2], rule exI [of _ s3],
        rule exI [of _ c], rule exI [of _ c'])
      (use r in \<open>simp add: hop_net_def del: read_bytes_numeral\<close>)
qed (simp_all add: request_ok_def)

end
