(* ===== verification/Tcp_Properties.thy ===== *)
theory Tcp_Properties
  imports Tcp_Tx
begin

text \<open>
  Received TCP segments: acknowledgements, data, the end of a connection, and timeouts.
\<close>

unbundle bit_operations_syntax

subsection \<open>The start of the handler\<close>

text \<open>The header as its bytes are to be read in network order, its length with options, and the length of the payload.\<close>

definition wire_header :: "u8 list \<Rightarrow> tcp_header" where
  "wire_header b = \<lparr>source_port = of_be16 (b ! 0) (b ! 1), dest_port = of_be16 (b ! 2) (b ! 3),
     seq_n = of_be32 (b ! 4) (b ! 5) (b ! 6) (b ! 7), ack_n = of_be32 (b ! 8) (b ! 9) (b ! 10) (b ! 11),
     tcp_reserved_0 = ucast (b ! 12), data_offset = ucast (drop_bit 4 (b ! 12)),
     fin = bit (b ! 13) 0, syn = bit (b ! 13) 1, rst = bit (b ! 13) 2, psh = bit (b ! 13) 3,
     ack = bit (b ! 13) 4, urg = bit (b ! 13) 5, ece = bit (b ! 13) 6, cwr = bit (b ! 13) 7,
     window_sz = of_be16 (b ! 14) (b ! 15), tcp_checksum = of_be16 (b ! 16) (b ! 17),
     urg_ptr = of_be16 (b ! 18) (b ! 19)\<rparr>"

definition segment_in :: "'a net_scheme \<Rightarrow> u32 \<Rightarrow> tcp_header" where
  "segment_in s pkt = wire_header (read_bytes (ram s) (pkt_cur_data (pkts s pkt)) 20)"

lemma segment_in_swapped:
  "segment_in s pkt = tcp_swap_endian (decode_tcp (read_bytes (ram s) (pkt_cur_data (pkts s pkt)) 20))"
  by (simp add: segment_in_def wire_header_def decode_tcp_def tcp_swap_endian_def del: read_bytes_numeral)

definition tcp_hlen :: "'a net_scheme \<Rightarrow> u32 \<Rightarrow> u32" where
  "tcp_hlen s pkt = ucast (data_offset (segment_in s pkt)) * 4"

definition tcp_dlen :: "'a net_scheme \<Rightarrow> u32 \<Rightarrow> u32" where
  "tcp_dlen s pkt = pkt_cur_data_length (pkts s pkt) - tcp_hlen s pkt"

definition tcp_payload :: "'a net_scheme \<Rightarrow> u32 \<Rightarrow> u32" where
  "tcp_payload s pkt = pkt_cur_data (pkts s pkt) + tcp_hlen s pkt"

text \<open>The packet is a TCP header and its payload, at offset \<open>k\<close> of the live frame \<open>F\<close>.\<close>

definition tcp_packet :: "'a net_scheme \<Rightarrow> ledger \<Rightarrow> u32 \<Rightarrow> u32 \<Rightarrow> nat \<Rightarrow> nat \<Rightarrow> bool" where
  "tcp_packet s L pkt F k lf \<longleftrightarrow> (unat F, lf) \<in> L \<and> pkt_cur_data (pkts s pkt) = F + of_nat k
     \<and> 20 \<le> unat (tcp_hlen s pkt) \<and> unat (tcp_hlen s pkt) \<le> unat (pkt_cur_data_length (pkts s pkt))
     \<and> k + unat (pkt_cur_data_length (pkts s pkt)) \<le> lf"

text \<open>All that a frame of the network need not violate: the packet lies in its live frame and so do the 20 bytes
  that the code takes for the header, whatever data offset they contain.\<close>

definition tcp_frame :: "'a net_scheme \<Rightarrow> ledger \<Rightarrow> u32 \<Rightarrow> u32 \<Rightarrow> nat \<Rightarrow> nat \<Rightarrow> bool" where
  "tcp_frame s L pkt F k lf \<longleftrightarrow> (unat F, lf) \<in> L \<and> pkt_cur_data (pkts s pkt) = F + of_nat k
     \<and> k + 20 \<le> lf \<and> k + unat (pkt_cur_data_length (pkts s pkt)) \<le> lf"

lemma tcp_packet_frame: "tcp_packet s L pkt F k lf \<Longrightarrow> tcp_frame s L pkt F k lf"
  by (simp add: tcp_packet_def tcp_frame_def)

text \<open>The state in which the connection is looked up.\<close>

definition after_header :: "'a net_scheme \<Rightarrow> u32 \<Rightarrow> 'a net_scheme" where
  "after_header s pkt = s\<lparr>pkts := (pkts s)(pkt := (pkts s pkt)\<lparr>pkt_cur_data := tcp_payload s pkt,
       pkt_cur_data_length := tcp_dlen s pkt, pkt_handler := DROP\<rparr>),
     ram := write_bytes (pkt_cur_data (pkts s pkt)) (encode_tcp (segment_in s pkt)) (ram s)\<rparr>"

lemma after_header_fields:
  "tcbs (after_header s pkt) = tcbs s" "tcb_head (after_header s pkt) = tcb_head s" "tcp_waitq (after_header s pkt) = tcp_waitq s"
  "ip4_tx_waitq (after_header s pkt) = ip4_tx_waitq s" "ip4_tx_queue (after_header s pkt) = ip4_tx_queue s"
  "runqueue (after_header s pkt) = runqueue s" "pkt_handler (pkts (after_header s pkt) pkt) = DROP"
  "pkt_src_ip (pkts (after_header s pkt) pkt) = pkt_src_ip (pkts s pkt)"
  "pkt_cur_data (pkts (after_header s pkt) pkt) = tcp_payload s pkt"
  by (simp_all add: after_header_def)

lemma tcp_rx_start:
  "tcp_rx_packet pkt s = (case find_tcb (segment_in s pkt) (pkt_src_ip (pkts s pkt)) s of
      None \<Rightarrow> (if rst (segment_in s pkt) then Some (after_header s pkt)
               else tcp_tx (reset_response (segment_in s pkt) (tcp_dlen s pkt)) (pkt_src_ip (pkts s pkt)) 0 0 (after_header s pkt))
    | Some r \<Rightarrow> tcp_rx_for pkt r (segment_in s pkt) (tcp_dlen s pkt) (after_header s pkt))"
proof -
  have z: "tcp_hlen s pkt = ucast (data_offset (decode_tcp (read_bytes (ram s) (pkt_cur_data (pkts s pkt)) 20))) * 4"
    by (simp add: tcp_hlen_def segment_in_swapped tcp_swap_endian_def)
  let ?s2 = "set_pkt pkt (\<lambda>p. p\<lparr>pkt_cur_data_length := pkt_cur_data_length p - tcp_hlen s pkt\<rparr>)
    (set_pkt pkt (\<lambda>p. p\<lparr>pkt_cur_data := pkt_cur_data p + tcp_hlen s pkt\<rparr>) s)"
  have st: "set_pkt pkt (\<lambda>p. p\<lparr>pkt_handler := DROP\<rparr>)
      (?s2\<lparr>ram := write_bytes (pkt_cur_data (pkts s pkt)) (encode_tcp (segment_in s pkt)) (ram ?s2)\<rparr>) = after_header s pkt"
    by (simp add: set_pkt_def after_header_def tcp_payload_def tcp_dlen_def)
  have d: "pkt_cur_data_length (pkts ?s2 pkt) = tcp_dlen s pkt" by (simp add: set_pkt_def tcp_dlen_def)
  show ?thesis
    unfolding tcp_rx_packet_def Let_def z [symmetric] segment_in_swapped [symmetric] st d after_header_fields find_tcb_def ..
qed

lemma after_frame_ok:
  assumes ok: "net_ok s L n" and p: "tcp_frame s L pkt F k lf"
  shows "net_ok (after_header s pkt) L n" "keeps s (after_header s pkt) (L - {(unat F, lf)})"
proof -
  let ?h = "pkt_cur_data (pkts s pkt)" and ?bs = "encode_tcp (segment_in s pkt)"
  have F: "(unat F, lf) \<in> L" "F + of_nat k = ?h" "k + length ?bs \<le> lf" using p by (auto simp: tcp_frame_def)
  note w = write_net [OF ok F(1,3), unfolded F(2)]
  show "net_ok (after_header s pkt) L n"
    using w(1) by (rule net_ok_same) (simp_all add: all_waits_def after_header_def)
  show "keeps s (after_header s pkt) (L - {(unat F, lf)})" using w(2) by (simp add: after_header_def keeps_def)
qed

lemma after_header_ok:
  assumes ok: "net_ok s L n" and p: "tcp_packet s L pkt F k lf"
  shows "net_ok (after_header s pkt) L n" "keeps s (after_header s pkt) (L - {(unat F, lf)})"
    "read_bytes (ram (after_header s pkt)) (tcp_payload s pkt) (unat (tcp_dlen s pkt)) =
       read_bytes (ram s) (tcp_payload s pkt) (unat (tcp_dlen s pkt))"
proof -
  let ?h = "pkt_cur_data (pkts s pkt)" and ?bs = "encode_tcp (segment_in s pkt)"
  show "net_ok (after_header s pkt) L n" "keeps s (after_header s pkt) (L - {(unat F, lf)})"
    by (rule after_frame_ok [OF ok tcp_packet_frame [OF p]])+
  show "read_bytes (ram (after_header s pkt)) (tcp_payload s pkt) (unat (tcp_dlen s pkt)) =
      read_bytes (ram s) (tcp_payload s pkt) (unat (tcp_dlen s pkt))"
  proof (rule read_bytes_cong)
    fix i assume i: "i < unat (tcp_dlen s pkt)"
    have d: "unat (tcp_dlen s pkt) = unat (pkt_cur_data_length (pkts s pkt)) - unat (tcp_hlen s pkt)"
      using p by (simp add: tcp_packet_def tcp_dlen_def unat_sub word_le_nat_alt)
    have "unat (pkt_cur_data_length (pkts s pkt)) < 2 ^ 32" by (rule unat_bound)
    then have b: "unat (tcp_hlen s pkt) + i < 2 ^ 32" using i d by linarith
    have "tcp_payload s pkt + of_nat i - ?h = of_nat (unat (tcp_hlen s pkt) + i)" by (simp add: tcp_payload_def)
    then have "unat (tcp_payload s pkt + of_nat i - ?h) = unat (tcp_hlen s pkt) + i" using unat_of_nat_u32 [OF b] by (simp only:)
    then have "\<not> in_range ?h (length ?bs) (tcp_payload s pkt + of_nat i)" using p by (simp add: in_range_def tcp_packet_def)
    then show "ram (after_header s pkt) (tcp_payload s pkt + of_nat i) = ram s (tcp_payload s pkt + of_nat i)"
      by (simp add: after_header_def write_bytes_frame)
  qed
qed


subsection \<open>A segment that is acknowledged\<close>

text \<open>The TCB when the switch runs: the timeout has been stopped.\<close>

definition timer_stopped :: "tcb \<Rightarrow> tcb" where
  "timer_stopped t = t\<lparr>decrement_timeout := False, timed_out := False, timeout := 0\<rparr>"

text \<open>The acknowledgement for a connection.\<close>

definition ack_segment :: "tcb \<Rightarrow> tcp_header" where
  "ack_segment t = (tcp_header_prepopulate t zero_header)\<lparr>ack := True\<rparr>"

lemma ack_segment_checksum [simp]: "tcp_checksum (ack_segment t) = 0"
  by (simp add: ack_segment_def tcp_header_prepopulate_def zero_header_def)

text \<open>A segment with header \<open>h\<close> for \<open>dest\<close> is at the head of the queue of outgoing packets.\<close>

definition queued_segment :: "'a net_scheme \<Rightarrow> u32 \<Rightarrow> u32 \<Rightarrow> u32 \<Rightarrow> tcp_header \<Rightarrow> bool" where
  "queued_segment s obj buf dest h \<longleftrightarrow> (\<exists>c. ip4_tx_queue s \<noteq> [] \<and> hd (ip4_tx_queue s) = obj
     \<and> iq_protocol (ip4_objs s obj) = 6 \<and> iq_dst_ip (ip4_objs s obj) = dest \<and> iq_payload (ip4_objs s obj) = buf
     \<and> iq_payload_len (ip4_objs s obj) = 20 \<and> read_bytes (ram s) buf 20 = wire_segment h c []
     \<and> inet_sum (wire_pseudo dest 0 @ wire_segment h c []) = 0xFFFF)"

text \<open>A segment without payload is queued, the TCBs become \<open>T\<close>, and the processes that wait on TCP are woken.\<close>

lemma send_then_wake:
  assumes ok: "net_ok s L (n + tcp_demand 0)" and n: "n = 0 \<or> 16 \<le> n" and z: "tcp_checksum h = 0"
  obtains s2 s' obj buf lo lb where "tcp_tx h dest 0 0 s = Some s2" "tcbs s2 = tcbs s" "wake_tcp (s2\<lparr>tcbs := T\<rparr>) = Some s'"
    "tcbs s' = T" "tcb_head s' = tcb_head s"
    "ip4_tx_queue s' = obj # ip4_tx_queue s" "queued_segment s' obj buf dest h"
    "tcp_waitq s' = []" "runqueue s' = rev (map snd (tcp_waitq s)) @ rev (map snd (ip4_tx_waitq s)) @ runqueue s"
    "pkts s' = pkts s" "set (all_waits s') \<subseteq> set (all_waits s)"
    "net_ok s' ({(unat buf, lb), (unat obj, lo)} \<union> without L (nodes (ip4_tx_waitq s) \<union> nodes (tcp_waitq s))) n"
    "keeps s s' (without L (nodes (ip4_tx_waitq s) \<union> nodes (tcp_waitq s)))"
proof -
  let ?N = "nodes (ip4_tx_waitq s)" and ?M = "nodes (tcp_waitq s)"
  have ok1: "net_ok s L (n + tcp_demand (unat (0 :: u32)))" using ok by simp
  have src: "live_bytes L 0 (unat (0 :: u32))" by (simp add: live_bytes_def)
  show thesis
  proof (rule tcp_tx_ok [OF ok1 n src _ z, where dest = dest])
    fix c and obj buf :: u32 and lo lb m2 pr
    let ?s2 = "ip4_queued obj IP_PROTO_TCP dest buf (ucast (20 + 0 :: u32)) m2 pr s"
    let ?K = "insert (unat buf, lb) (insert (unat obj, lo) (without L ?N))"
    assume e: "tcp_tx h dest 0 0 s = Some ?s2" "net_ok ?s2 ?K n" "20 + unat (0 :: u32) \<le> lb"
      "read_bytes m2 buf (20 + unat (0 :: u32)) = wire_segment h c (read_bytes (ram s) 0 (unat (0 :: u32)))"
      "inet_sum (wire_pseudo dest 0 @ wire_segment h c (read_bytes (ram s) 0 (unat (0 :: u32)))) = 0xFFFF"
      "keeps s (s\<lparr>ram := m2\<rparr>) (without L ?N)" "\<And>k. (unat obj, k) \<notin> L" "\<And>k. (unat buf, k) \<notin> L"
    define s2 where "s2 = ?s2\<lparr>tcbs := T\<rparr>"
    have ok2: "net_ok s2 ?K n" using e(2) unfolding s2_def by (simp only: net_ok_cong)
    obtain m3 pr3 where w: "wake_tcp s2 = Some ((woken (tcp_waitq s2) m3 pr3 s2)\<lparr>tcp_waitq := []\<rparr>)"
      "net_ok ((woken (tcp_waitq s2) m3 pr3 s2)\<lparr>tcp_waitq := []\<rparr>) (without ?K (nodes (tcp_waitq s2))) n"
      "keeps s2 ((woken (tcp_waitq s2) m3 pr3 s2)\<lparr>tcp_waitq := []\<rparr>) (without ?K (nodes (tcp_waitq s2)))"
      using wake_tcp_ok [OF ok2] by blast
    have f2: "tcp_waitq s2 = tcp_waitq s" by (simp add: s2_def)
    have fr: "obj \<notin> ?M" "buf \<notin> ?M" using fresh_not_nodes(6) [OF ok e(7)] fresh_not_nodes(6) [OF ok e(8)] .
    have K: "without ?K (nodes (tcp_waitq s2)) = {(unat buf, lb), (unat obj, lo)} \<union> without L (?N \<union> ?M)"
      unfolding f2 without_insert [OF fr(2)] without_insert [OF fr(1)] by (simp add: without_without)
    let ?s3 = "(woken (tcp_waitq s2) m3 pr3 s2)\<lparr>tcp_waitq := []\<rparr>"
    have "live_bytes (without ?K (nodes (tcp_waitq s2))) buf 20"
      unfolding K using live_bytes_buf [OF net_okD(4) [OF w(2)], of buf lb 0 20] e(3) K by (auto simp: live_bytes_def)
    then have "read_bytes m3 buf 20 = read_bytes m2 buf 20"
      using read_bytes_keeps [OF w(3)] by (simp add: s2_def del: read_bytes_numeral)
    then have rd: "read_bytes m3 buf 20 = wire_segment h c []" using e(4) by (simp del: read_bytes_numeral)
    have q: "queued_segment ?s3 obj buf dest h"
      unfolding queued_segment_def using rd e(5)
      by (intro exI [of _ c]) (simp add: s2_def IP_PROTO_TCP_def del: read_bytes_numeral)
    have kp: "keeps s ?s3 (without L (?N \<union> ?M))"
      using e(6) w(3) unfolding keeps_def K by (auto simp: s2_def without_def)
    have aw: "set (all_waits ?s3) \<subseteq> set (all_waits s)" by (auto simp: all_waits_def s2_def)
    show thesis
      by (rule that [OF e(1) _ w(1) [unfolded s2_def] _ _ _ q [unfolded s2_def] _ _ _ aw [unfolded s2_def]
            w(2) [unfolded K, unfolded s2_def] kp [unfolded s2_def]]) simp_all
  qed simp
qed

lemma tcp_rx_for_acks:
  assumes m: "rx_switch h (pkt_src_ip (pkts s pkt)) (pkt_cur_data (pkts s pkt)) dlen (timer_stopped (tcbs s r)) (ram s) = (t, True, m)"
    and st: "tcb_state (tcbs s r) \<noteq> CLOSE_WAIT" "tcb_state (tcbs s r) \<noteq> SYN_SENT"
    and ok: "net_ok (s\<lparr>ram := m\<rparr>) L (n + tcp_demand 0)" and n: "n = 0 \<or> 16 \<le> n"
  obtains s' obj buf lo lb where "tcp_rx_for pkt r h dlen s = Some s'" "tcbs s' = (tcbs s)(r := t)" "tcb_head s' = tcb_head s"
    "ip4_tx_queue s' = obj # ip4_tx_queue s" "queued_segment s' obj buf (pkt_src_ip (pkts s pkt)) (ack_segment t)"
    "tcp_waitq s' = []" "runqueue s' = rev (map snd (tcp_waitq s)) @ rev (map snd (ip4_tx_waitq s)) @ runqueue s"
    "pkts s' = pkts s" "set (all_waits s') \<subseteq> set (all_waits s)"
    "net_ok s' ({(unat buf, lb), (unat obj, lo)} \<union> without L (nodes (ip4_tx_waitq s) \<union> nodes (tcp_waitq s))) n"
    "keeps (s\<lparr>ram := m\<rparr>) s' (without L (nodes (ip4_tx_waitq s) \<union> nodes (tcp_waitq s)))"
proof -
  let ?src = "pkt_src_ip (pkts s pkt)"
  define s1 where "s1 = s\<lparr>tcbs := (tcbs s)(r := t), ram := m\<rparr>"
  have ok1: "net_ok s1 L (n + tcp_demand 0)" using ok by (rule net_ok_same) (simp_all add: s1_def all_waits_def)
  have run0: "tcp_rx_for pkt r h dlen s = do { s \<leftarrow> tcp_tx (ack_segment t) ?src 0 0 s1; wake_tcp s }"
    using m st by (simp add: tcp_rx_for_def set_tcb_def timer_stopped_def ack_segment_def s1_def split: prod.splits)
  have f1: "tcbs s1 = (tcbs s)(r := t)" "tcb_head s1 = tcb_head s" "ip4_tx_queue s1 = ip4_tx_queue s" "tcp_waitq s1 = tcp_waitq s"
    "ip4_tx_waitq s1 = ip4_tx_waitq s" "runqueue s1 = runqueue s" "pkts s1 = pkts s" "all_waits s1 = all_waits s"
    by (simp_all add: s1_def all_waits_def)
  show thesis
  proof (rule send_then_wake [OF ok1 n ack_segment_checksum [of t], where dest = ?src and T = "tcbs s1", unfolded f1(2-)])
    fix s2 s' and obj buf :: u32 and lo lb
    let ?L = "{(unat buf, lb), (unat obj, lo)} \<union> without L (nodes (ip4_tx_waitq s) \<union> nodes (tcp_waitq s))"
    assume e: "tcp_tx (ack_segment t) ?src 0 0 s1 = Some s2" "tcbs s2 = tcbs s1" "wake_tcp (s2\<lparr>tcbs := tcbs s1\<rparr>) = Some s'"
      "tcbs s' = tcbs s1" "tcb_head s' = tcb_head s"
      "ip4_tx_queue s' = obj # ip4_tx_queue s" "queued_segment s' obj buf ?src (ack_segment t)" "tcp_waitq s' = []"
      "runqueue s' = rev (map snd (tcp_waitq s)) @ rev (map snd (ip4_tx_waitq s)) @ runqueue s"
      "pkts s' = pkts s" "set (all_waits s') \<subseteq> set (all_waits s)" "net_ok s' ?L n"
      "keeps s1 s' (without L (nodes (ip4_tx_waitq s) \<union> nodes (tcp_waitq s)))"
    have "s2\<lparr>tcbs := tcbs s1\<rparr> = s2" unfolding e(2) [symmetric] by simp
    then have run: "tcp_rx_for pkt r h dlen s = Some s'" using run0 e(1,3) by simp
    have kp: "keeps (s\<lparr>ram := m\<rparr>) s' (without L (nodes (ip4_tx_waitq s) \<union> nodes (tcp_waitq s)))"
      using e(13) by (simp add: keeps_def s1_def)
    show thesis by (rule that [OF run e(4) [unfolded f1(1)] e(5-12) kp])
  qed
qed


subsection \<open>Data\<close>

text \<open>The receive buffer is the live buffer of \<open>lb\<close> bytes.\<close>

definition live_area :: "ledger \<Rightarrow> circular_buf \<Rightarrow> nat \<Rightarrow> bool" where
  "live_area L cb lb \<longleftrightarrow> (unat (buffer cb), lb) \<in> L \<and> unat (buf_sz cb) \<le> lb"

lemma in_area_buf: "heap_rep s L \<Longrightarrow> live_area L cb lb \<Longrightarrow> in_area cb x \<Longrightarrow> in_buf (unat (buffer cb), lb) x"
  using in_buf_range [of s L "buffer cb" lb 0 "unat (buf_sz cb)" x] by (simp add: live_area_def in_area_def)

lemma write_area:
  assumes ok: "net_ok s L n" and a: "live_area L cb lb" and m: "\<And>x. \<not> in_area cb x \<Longrightarrow> m x = ram s x"
  shows "net_ok (s\<lparr>ram := m\<rparr>) L n" "keeps s (s\<lparr>ram := m\<rparr>) (L - {(unat (buffer cb), lb)})"
proof -
  have rep: "heap_rep s L" using net_okD(4) [OF ok] .
  have b: "(unat (buffer cb), lb) \<in> L" using a by (simp add: live_area_def)
  have "heap_room (s\<lparr>ram := m\<rparr>) L n"
    by (rule heap_room_change [OF net_okD(2) [OF ok]]) (use m in_area_buf [OF rep a] b in blast)
  then show "net_ok (s\<lparr>ram := m\<rparr>) L n" using net_okD [OF ok] by (simp add: net_ok_def)
  show "keeps s (s\<lparr>ram := m\<rparr>) (L - {(unat (buffer cb), lb)})"
  proof (unfold keeps_def, intro ballI allI impI)
    fix c x assume c: "c \<in> L - {(unat (buffer cb), lb)}" "in_buf c x"
    then have "apart c (unat (buffer cb), lb)" using heap_rep_apart [OF rep _ b] by blast
    then have "\<not> in_buf (unat (buffer cb), lb) x" using c(2) by (cases c) (auto simp: apart_def in_buf_def)
    then show "ram (s\<lparr>ram := m\<rparr>) x = ram s x" using m in_area_buf [OF rep a] by auto
  qed
qed

text \<open>The bytes of another live buffer lie outside the area.\<close>

lemma outside_area:
  assumes rep: "heap_rep s L" and a: "live_area L cb lb" and p: "(unat p, l) \<in> L" "p \<noteq> buffer cb" "k + j \<le> l" "i < j"
  shows "\<not> in_area cb (p + of_nat k + of_nat i)"
proof
  assume x: "in_area cb (p + of_nat k + of_nat i)"
  have "l < 2 ^ 32" using heap_rep_bounds [OF rep p(1)] by (simp add: heap_base_def heap_size_def)
  then have "in_range (p + of_nat k) j (p + of_nat k + of_nat i)" using p(3,4) by (simp add: in_range_def)
  then have "in_buf (unat p, l) (p + of_nat k + of_nat i)" by (rule in_buf_range [OF rep p(1,3)])
  moreover have "apart (unat p, l) (unat (buffer cb), lb)"
    using heap_rep_apart [OF rep p(1), of "(unat (buffer cb), lb)"] p(2) a by (auto simp: live_area_def word_unat_eq_iff)
  ultimately show False using in_area_buf [OF rep a x] by (auto simp: apart_def in_buf_def)
qed

lemma cb_rep_cong: "cb_rep cb m q \<Longrightarrow> (\<And>x. in_area cb x \<Longrightarrow> m' x = m x) \<Longrightarrow> cb_rep cb m' q"
  using ring_cong by (auto simp: cb_rep_def)

lemma cb_rep_keeps:
  assumes "cb_rep cb (ram s) q" "keeps s s' K" "heap_rep s L" "live_area L cb lb" "(unat (buffer cb), lb) \<in> K"
  shows "cb_rep cb (ram s') q"
  by (rule cb_rep_cong [OF assms(1)]) (use in_area_buf [OF assms(3,4)] keepsD [OF assms(2,5)] in blast)

lemma rx_established_data:
  assumes "\<not> fin h" "dlen \<noteq> 0" "circular_buf_push p dlen (rx_buf t) m = (cb, m')"
  obtains t' where "rx_established h p dlen t m = (t', True, m')" "rx_buf t' = cb" "cur_ack_n t' = cur_ack_n t + dlen"
    "tcb_state t' = tcb_state t" "src_port t' = src_port t" "dst_port t' = dst_port t" "dst_ip t' = dst_ip t"
proof -
  define u where "u = (if ack h \<and> 0 < sint (ack_n h - cur_seq_n t)
    then t\<lparr>unacked_byte_count := unacked_byte_count t - (ack_n h - cur_seq_n t)\<rparr> else t)"
  define v where "v = (if ack h then u\<lparr>cur_seq_n := ack_n h\<rparr> else u)"
  have f: "rx_buf v = rx_buf t" "cur_ack_n v = cur_ack_n t" "tcb_state v = tcb_state t" "src_port v = src_port t"
    "dst_port v = dst_port t" "dst_ip v = dst_ip t" by (simp_all add: u_def v_def)
  have "rx_established h p dlen t m = (v\<lparr>rx_buf := cb, cur_ack_n := cur_ack_n t + dlen\<rparr>, True, m')"
    using assms f by (cases "ack h") (simp_all add: rx_established_def Let_def u_def v_def)
  then show thesis by (rule that) (simp_all add: f)
qed

text \<open>The packet is for the connection \<open>r\<close>, whose receive buffer holds \<open>q\<close> and is not the frame of the
  packet or a node of a sleeper.\<close>

definition connection_gets :: "'a net_scheme \<Rightarrow> ledger \<Rightarrow> u32 \<Rightarrow> u32 \<Rightarrow> u32 \<Rightarrow> u8 list \<Rightarrow> bool" where
  "connection_gets s L pkt F r q \<longleftrightarrow> find_tcb (segment_in s pkt) (pkt_src_ip (pkts s pkt)) s = Some r
     \<and> cb_rep (rx_buf (tcbs s r)) (ram s) q \<and> (\<exists>lb. live_area L (rx_buf (tcbs s r)) lb)
     \<and> buffer (rx_buf (tcbs s r)) \<notin> insert F (nodes (ip4_tx_waitq s) \<union> nodes (tcp_waitq s))"

lemma payload_pushed:
  assumes ok: "net_ok s L n" and p: "tcp_packet s L pkt F k lf" and c: "connection_gets s L pkt F r q"
    and push: "circular_buf_push (tcp_payload s pkt) (tcp_dlen s pkt) (rx_buf (tcbs s r)) (ram (after_header s pkt)) = (cb, m)"
  obtains lb where "live_area L (rx_buf (tcbs s r)) lb" "live_area L cb lb" "buffer cb = buffer (rx_buf (tcbs s r))"
    "cb_rep cb m (if length q + unat (tcp_dlen s pkt) \<le> unat (buf_sz (rx_buf (tcbs s r)))
       then q @ read_bytes (ram s) (tcp_payload s pkt) (unat (tcp_dlen s pkt)) else q)"
    "net_ok ((after_header s pkt)\<lparr>ram := m\<rparr>) L n"
    "keeps (after_header s pkt) ((after_header s pkt)\<lparr>ram := m\<rparr>) (L - {(unat (buffer cb), lb)})"
proof -
  let ?b = "rx_buf (tcbs s r)" and ?d = "unat (tcp_dlen s pkt)" and ?s1 = "after_header s pkt"
  obtain lb where a: "live_area L ?b lb" using c by (auto simp: connection_gets_def)
  have rep: "cb_rep ?b (ram s) q" "buffer ?b \<noteq> F" using c by (auto simp: connection_gets_def)
  note h = after_header_ok [OF ok p]
  have d: "?d = unat (pkt_cur_data_length (pkts s pkt)) - unat (tcp_hlen s pkt)"
    using p by (simp add: tcp_packet_def tcp_dlen_def unat_sub word_le_nat_alt)
  have F: "(unat F, lf) \<in> L" "k + unat (tcp_hlen s pkt) + ?d \<le> lf" "pkt_cur_data (pkts s pkt) = F + of_nat k"
    using p d by (auto simp: tcp_packet_def)
  have pl: "tcp_payload s pkt = F + of_nat (k + unat (tcp_hlen s pkt))" by (simp add: tcp_payload_def F(3))
  have out: "\<not> in_area ?b (tcp_payload s pkt + of_nat i)" if "i < ?d" for i
    unfolding pl by (rule outside_area [OF net_okD(4) [OF ok] a F(1) _ F(2) that]) (use rep(2) in auto)
  have "(unat (buffer ?b), lb) \<noteq> (unat F, lf)" using rep(2) by (auto simp: word_unat_eq_iff)
  then have "(unat (buffer ?b), lb) \<in> L - {(unat F, lf)}" using a by (simp add: live_area_def)
  then have rep1: "cb_rep ?b (ram ?s1) q" by (rule cb_rep_keeps [OF rep(1) h(2) net_okD(4) [OF ok] a])
  note pr = circular_buf_push_rep [OF rep1 push out]
  have cb: "buffer cb = buffer ?b" "live_area L cb lb" using pr(3) a by (simp_all add: live_area_def)
  note w = write_area [OF h(1) a pr(2)]
  show thesis by (rule that [OF a cb(2,1) pr(1) [unfolded h(3)] w [folded cb(1)]])
qed

text \<open>C11: a segment with data and without FIN for an established connection: the payload is appended to
  the receive buffer when it fits and is dropped otherwise, and in both cases the acknowledgement
  number moves on by its whole length and the acknowledgement with that number is queued for the
  sender, with a valid checksum. The connection stays established and every process that waits on TCP
  is woken. Neither the sequence number of the segment nor the room in the buffer has any influence on
  the acknowledgement.\<close>

theorem tcp_data_received:
  assumes ok: "net_ok s L (n + tcp_demand 0)" and n: "n = 0 \<or> 16 \<le> n"
    and p: "tcp_packet s L pkt F k lf" and c: "connection_gets s L pkt F r q"
    and seg: "\<not> fin (segment_in s pkt)" "tcp_dlen s pkt \<noteq> 0" and est: "tcb_state (tcbs s r) = ESTABLISHED"
  shows "\<exists>s' obj buf L'. tcp_rx_packet pkt s = Some s' \<and> pkt_handler (pkts s' pkt) = DROP
    \<and> cb_rep (rx_buf (tcbs s' r)) (ram s') (if length q + unat (tcp_dlen s pkt) \<le> unat (buf_sz (rx_buf (tcbs s r)))
         then q @ read_bytes (ram s) (tcp_payload s pkt) (unat (tcp_dlen s pkt)) else q)
    \<and> cur_ack_n (tcbs s' r) = cur_ack_n (tcbs s r) + tcp_dlen s pkt \<and> tcb_state (tcbs s' r) = ESTABLISHED
    \<and> queued_segment s' obj buf (pkt_src_ip (pkts s pkt)) (ack_segment (tcbs s' r)) \<and> tcp_waitq s' = []
    \<and> net_ok s' L' n \<and> without L (nodes (ip4_tx_waitq s) \<union> nodes (tcp_waitq s)) \<subseteq> L'
    \<and> keeps s s' (without L ({F, buffer (rx_buf (tcbs s r))} \<union> nodes (ip4_tx_waitq s) \<union> nodes (tcp_waitq s)))"
proof -
  let ?s1 = "after_header s pkt" and ?h = "segment_in s pkt" and ?src = "pkt_src_ip (pkts s pkt)" and ?b = "rx_buf (tcbs s r)"
  let ?NM = "nodes (ip4_tx_waitq s) \<union> nodes (tcp_waitq s)"
  obtain cb m where push: "circular_buf_push (tcp_payload s pkt) (tcp_dlen s pkt) ?b (ram ?s1) = (cb, m)" by fastforce
  obtain lb where w: "live_area L ?b lb" "live_area L cb lb" "buffer cb = buffer ?b"
    "cb_rep cb m (if length q + unat (tcp_dlen s pkt) \<le> unat (buf_sz ?b)
       then q @ read_bytes (ram s) (tcp_payload s pkt) (unat (tcp_dlen s pkt)) else q)"
    "net_ok (?s1\<lparr>ram := m\<rparr>) L (n + tcp_demand 0)" "keeps ?s1 (?s1\<lparr>ram := m\<rparr>) (L - {(unat (buffer cb), lb)})"
    by (rule payload_pushed [OF ok p c push])
  have "circular_buf_push (tcp_payload s pkt) (tcp_dlen s pkt) (rx_buf (timer_stopped (tcbs s r))) (ram ?s1) = (cb, m)"
    using push by (simp add: timer_stopped_def)
  from rx_established_data [OF seg this] obtain t where t: "rx_established ?h (tcp_payload s pkt) (tcp_dlen s pkt) (timer_stopped (tcbs s r)) (ram ?s1) = (t, True, m)"
    "rx_buf t = cb" "cur_ack_n t = cur_ack_n (tcbs s r) + tcp_dlen s pkt" "tcb_state t = ESTABLISHED"
    using est by (auto simp: timer_stopped_def)
  have sw: "rx_switch ?h (pkt_src_ip (pkts ?s1 pkt)) (pkt_cur_data (pkts ?s1 pkt)) (tcp_dlen s pkt)
      (timer_stopped (tcbs ?s1 r)) (ram ?s1) = (t, True, m)"
    using t(1) est by (simp add: rx_switch_def after_header_fields) (simp add: timer_stopped_def)
  show ?thesis
  proof (rule tcp_rx_for_acks [OF sw _ _ w(5) n], unfold after_header_fields)
    fix s' :: "'a net_scheme" and obj buf :: u32 and lo lb'
    let ?L = "{(unat buf, lb'), (unat obj, lo)} \<union> without L ?NM"
    assume e: "tcp_rx_for pkt r ?h (tcp_dlen s pkt) ?s1 = Some s'" "tcbs s' = (tcbs s)(r := t)"
      "queued_segment s' obj buf ?src (ack_segment t)" "tcp_waitq s' = []" "pkts s' = pkts ?s1" "net_ok s' ?L n"
      "keeps (?s1\<lparr>ram := m\<rparr>) s' (without L ?NM)"
    have run: "tcp_rx_packet pkt s = Some s'" using c e(1) by (simp add: tcp_rx_start connection_gets_def)
    have "(unat (buffer cb), lb) \<in> without L ?NM"
      by (rule without_in) (use w(2,3) c in \<open>auto simp: live_area_def connection_gets_def\<close>)
    then have rep: "cb_rep cb (ram s') (if length q + unat (tcp_dlen s pkt) \<le> unat (buf_sz ?b)
       then q @ read_bytes (ram s) (tcp_payload s pkt) (unat (tcp_dlen s pkt)) else q)"
      using cb_rep_keeps [of cb "?s1\<lparr>ram := m\<rparr>" _ s', OF _ e(7) net_okD(4) [OF w(5)] w(2)] w(4) by simp
    have kp: "keeps s s' (without L ({F, buffer ?b} \<union> nodes (ip4_tx_waitq s) \<union> nodes (tcp_waitq s)))"
    proof -
      let ?K = "without L ({F, buffer ?b} \<union> nodes (ip4_tx_waitq s) \<union> nodes (tcp_waitq s))"
      have "keeps s ?s1 ?K" by (rule keeps_subset [OF after_header_ok(2) [OF ok p]]) (auto simp: without_def)
      moreover have "keeps ?s1 (?s1\<lparr>ram := m\<rparr>) ?K" by (rule keeps_subset [OF w(6)]) (auto simp: without_def w(3))
      moreover have "keeps (?s1\<lparr>ram := m\<rparr>) s' ?K" by (rule keeps_subset [OF e(7)]) (auto simp: without_def)
      ultimately show ?thesis by (blast intro: keeps_trans)
    qed
    have d: "pkt_handler (pkts s' pkt) = DROP" by (simp add: e(5) after_header_fields)
    show ?thesis
      by (rule exI [of _ s'], rule exI [of _ obj], rule exI [of _ buf], rule exI [of _ ?L], intro conjI run d kp e(4,6))
        (use rep e(2,3) t(2,3,4) in auto)
  qed (use est in simp_all)
qed


subsection \<open>A concrete connection\<close>

text \<open>An established connection from port 1000 to port 80 of 192.168.0.1 whose empty 64-byte buffer is at
  \<open>b\<close>, and a packet at \<open>f\<close> with the given flags and payload.\<close>

definition segment_bytes :: "u8 \<Rightarrow> u8 list \<Rightarrow> u8 list" where
  "segment_bytes flags pl = [0, 80, 3, 232, 0, 0, 0, 1, 0, 0, 4, 0, 0x50, flags, 0, 0, 0, 0, 0, 0] @ pl"

definition example_tcp :: "mem \<Rightarrow> u32 \<Rightarrow> u32 \<Rightarrow> tcp_state \<Rightarrow> u32 \<Rightarrow> net" where
  "example_tcp m f b st len = boot_net\<lparr>ram := m, tcb_head := [0x900],
     tcbs := (\<lambda>_. zero_tcb\<lparr>rx_buf := \<lparr>buffer = b, head = b, tail = b, buf_sz = 64, free_space = 64\<rparr>, tcb_state := st,
       src_port := 1000, dst_port := 80, dst_ip := 0xC0A80001, cur_seq_n := 1024, cur_ack_n := 1\<rparr>),
     pkts := (\<lambda>_. \<lparr>pkt_data = f, pkt_cur_data = f, pkt_data_length = len, pkt_cur_data_length = len,
       pkt_handler = TCP, pkt_src_ip = 0xC0A80001, pkt_dst_ip = OUR_IP_ADDRESS\<rparr>)\<rparr>"

lemma read_segment:
  assumes "length pl \<le> 1000"
  shows "read_bytes (write_bytes f (segment_bytes fl pl) m) f 20 = take 20 (segment_bytes fl pl)"
proof -
  let ?bs = "segment_bytes fl pl"
  have l: "length ?bs = 20 + length pl" by (simp add: segment_bytes_def)
  have "read_bytes (write_bytes f ?bs m) f (20 + length pl) = ?bs"
    using read_write_bytes [of ?bs f m] assms l by simp
  then show ?thesis
    using arg_cong [of _ _ "take 20", OF read_bytes_append [of "write_bytes f ?bs m" f 20 "length pl"]]
    by (simp del: read_bytes_numeral)
qed

lemma example_segment:
  assumes "read_bytes m f 20 = take 20 (segment_bytes fl pl)"
  shows "segment_in (example_tcp m f b st len) pkt =
    \<lparr>source_port = 80, dest_port = 1000, seq_n = 1, ack_n = 1024, tcp_reserved_0 = 0, data_offset = 5,
     fin = bit fl 0, syn = bit fl 1, rst = bit fl 2, psh = bit fl 3, ack = bit fl 4, urg = bit fl 5, ece = bit fl 6,
     cwr = bit fl 7, window_sz = 0, tcp_checksum = 0, urg_ptr = 0\<rparr>"
proof -
  have f: "ram (example_tcp m f b st len) = m" "pkt_cur_data (pkts (example_tcp m f b st len) pkt) = f"
    by (simp_all add: example_tcp_def)
  show ?thesis
    unfolding segment_in_def f assms
    by (simp add: segment_bytes_def wire_header_def of_be16_def of_be32_def of_le16_def of_le32_def
        push_bit_eq_mult drop_bit_eq_div)
qed


lemma empty_ring:
  assumes "unat b + 64 < 2 ^ 32"
  shows "cb_rep \<lparr>buffer = b, head = b, tail = b, buf_sz = 64, free_space = 64\<rparr> m []"
  using assms by (auto simp: cb_rep_def ring_def area_ok_def cell_def intro!: exI [of _ 0])

lemma example_tcp_setup:
  assumes pl: "length pl \<le> 40" and len: "unat len = 20 + length pl"
  obtains f b :: u32 and m lf lb where
    "net_ok (example_tcp m f b st len) {(unat b, lb), (unat f, lf)} 30000"
    "read_bytes m f 20 = take 20 (segment_bytes fl pl)" "read_bytes m (f + 20) (length pl) = pl"
    "tcp_packet (example_tcp m f b st len) {(unat b, lb), (unat f, lf)} pkt f 0 lf"
    "connection_gets (example_tcp m f b st len) {(unat b, lb), (unat f, lf)} pkt f 0x900 []"
    "tcp_dlen (example_tcp m f b st len) pkt = of_nat (length pl)" "tcp_payload (example_tcp m f b st len) pkt = f + 20"
proof (rule boot_net_two [of 64])
  fix f b :: u32 and m0 and lf lb :: nat
  let ?L = "{(unat b, lb), (unat f, lf)}" and ?m = "write_bytes f (segment_bytes fl pl) m0"
  assume two: "net_ok (boot_net\<lparr>ram := m0\<rparr>) ?L 30000" "unat (64 :: u32) \<le> lf" "unat (64 :: u32) \<le> lb" "f \<noteq> b"
  let ?s = "example_tcp ?m f b st len"
  have l: "length (segment_bytes fl pl) = 20 + length pl" by (simp add: segment_bytes_def)
  have "net_ok (boot_net\<lparr>ram := ?m\<rparr>) ?L 30000"
    using write_net(1) [OF two(1), of f lf 0 "segment_bytes fl pl"] two(2) pl l by simp
  then have ok: "net_ok ?s ?L 30000" by (rule net_ok_same) (simp_all add: example_tcp_def all_waits_def)
  have rd: "read_bytes ?m f 20 = take 20 (segment_bytes fl pl)" by (rule read_segment) (use pl in simp)
  have "read_bytes ?m f (20 + length pl) = segment_bytes fl pl" using read_write_bytes [of "segment_bytes fl pl" f m0] pl l by simp
  then have rp: "read_bytes ?m (f + 20) (length pl) = pl"
    using arg_cong [of _ _ "drop 20", OF read_bytes_append [of ?m f 20 "length pl"]]
    by (simp add: segment_bytes_def del: read_bytes_numeral)
  note h = example_segment [OF rd]
  have hl: "tcp_hlen ?s pkt = 20" by (simp add: tcp_hlen_def h)
  have f: "pkt_cur_data_length (pkts ?s pkt) = len" "pkt_cur_data (pkts ?s pkt) = f" by (simp_all add: example_tcp_def)
  have "of_nat (unat len) = len" by simp
  then have "len = of_nat (20 + length pl)" by (simp only: len)
  then have "len - 20 = of_nat (length pl)" by (simp add: algebra_simps)
  then have dl: "tcp_dlen ?s pkt = of_nat (length pl)" "tcp_payload ?s pkt = f + 20"
    by (simp_all only: tcp_dlen_def tcp_payload_def hl f)
  have tp: "tcp_packet ?s ?L pkt f 0 lf" using two(2) pl len by (simp add: tcp_packet_def hl f)
  have "unat b + 64 < 2 ^ 32" using heap_rep_bounds [OF net_okD(4) [OF ok], of "unat b" lb] two(3) by (simp add: heap_base_def heap_size_def)
  then have cb: "cb_rep (rx_buf (tcbs ?s 0x900)) (ram ?s) []" using empty_ring by (simp add: example_tcp_def)
  have "find_tcb (segment_in ?s pkt) (pkt_src_ip (pkts ?s pkt)) ?s = Some 0x900"
    unfolding h by (simp add: find_tcb_def example_tcp_def)
  then have cg: "connection_gets ?s ?L pkt f 0x900 []"
    using cb two(3,4) by (auto simp: connection_gets_def live_area_def example_tcp_def nodes_def)
  show thesis by (rule that [OF ok rd rp tp cg dl])
qed (simp_all add: request_ok_def)

lemma tcp_data_received_witness:
  "\<exists>(s :: net) s'. tcp_rx_packet 0x10 s = Some s' \<and> cb_rep (rx_buf (tcbs s' 0x900)) (ram s') [1, 2, 3, 4]
    \<and> cur_ack_n (tcbs s' 0x900) = 5 \<and> tcb_state (tcbs s' 0x900) = ESTABLISHED"
proof (rule example_tcp_setup [of "[1, 2, 3, 4]" 24 ESTABLISHED "0x18"])
  fix f b :: u32 and m and lf lb :: nat
  let ?s = "example_tcp m f b ESTABLISHED 24" and ?L = "{(unat b, lb), (unat f, lf)}"
  assume e: "net_ok ?s ?L 30000" "read_bytes m f 20 = take 20 (segment_bytes 0x18 [1, 2, 3, 4])"
    "read_bytes m (f + 20) (length [1, 2, 3, 4 :: u8]) = [1, 2, 3, 4]" "tcp_packet ?s ?L 0x10 f 0 lf"
    "connection_gets ?s ?L 0x10 f 0x900 []" "tcp_dlen ?s 0x10 = of_nat (length [1, 2, 3, 4 :: u8])" "tcp_payload ?s 0x10 = f + 20"
  have ok: "net_ok ?s ?L (0 + tcp_demand 0)"
    using net_ok_mono [OF e(1)] by (simp add: tcp_demand_def checksum_size_def block_size_of_def)
  have x: "\<not> fin (segment_in ?s 0x10)" "tcp_dlen ?s 0x10 \<noteq> 0" "tcb_state (tcbs ?s 0x900) = ESTABLISHED"
    using e(6) by (simp_all add: example_segment [OF e(2)]) (simp_all add: example_tcp_def)
  have r: "cur_ack_n (tcbs ?s 0x900) = 1" "unat (buf_sz (rx_buf (tcbs ?s 0x900))) = 64" "ram ?s = m" by (simp_all add: example_tcp_def)
  have d: "tcp_dlen ?s 0x10 = 4" "unat (tcp_dlen ?s 0x10) = 4" using e(6) by simp_all
  have pl: "read_bytes (ram ?s) (tcp_payload ?s 0x10) 4 = [1, 2, 3, 4]" using e(3,7) r(3) by simp
  obtain s' where s': "tcp_rx_packet 0x10 ?s = Some s'"
    "cb_rep (rx_buf (tcbs s' 0x900)) (ram s') (if length ([] :: u8 list) + unat (tcp_dlen ?s 0x10) \<le> unat (buf_sz (rx_buf (tcbs ?s 0x900)))
       then [] @ read_bytes (ram ?s) (tcp_payload ?s 0x10) (unat (tcp_dlen ?s 0x10)) else [])"
    "cur_ack_n (tcbs s' 0x900) = cur_ack_n (tcbs ?s 0x900) + tcp_dlen ?s 0x10" "tcb_state (tcbs s' 0x900) = ESTABLISHED"
    using tcp_data_received [OF ok disjI1 [OF refl] e(4,5) x] by (elim exE conjE) (rule that)
  show ?thesis
    by (rule exI [of _ ?s], rule exI [of _ s']) (use s' r d(2) pl e(6) in \<open>simp del: read_bytes_numeral\<close>)
qed simp_all


subsection \<open>Data for the application\<close>

text \<open>A turn of \<open>tcp_rx_data\<close> that has data.\<close>

lemma rx_data_turn:
  assumes rep: "cb_rep (rx_buf (tcbs s c)) (ram s) q" and len: "len \<noteq> 0" and k: "k = min (unat len) (length q)"
    and out: "\<And>i. i < unat len \<Longrightarrow> \<not> in_area (rx_buf (tcbs s c)) (dst + of_nat i)"
    and st: "tcb_state (tcbs s c) \<noteq> CLOSE_WAIT" and q: "q \<noteq> []"
  obtains cb where "tcp_rx_data_turn c dst len s = Some (Rx_Goes_On (dst + of_nat k) (len - of_nat k),
      (set_tcb c (\<lambda>t. t\<lparr>rx_buf := cb\<rparr>) s)\<lparr>ram := write_bytes dst (take k q) (ram s)\<rparr>)"
    "cb_rep cb (write_bytes dst (take k q) (ram s)) (drop k q)" "buffer cb = buffer (rx_buf (tcbs s c))"
    "buf_sz cb = buf_sz (rx_buf (tcbs s c))"
proof -
  let ?b = "rx_buf (tcbs s c)"
  have u: "unat (circular_buf_cur_usage ?b) = length q" by (rule circular_buf_counts(1) [OF rep])
  then have u0: "circular_buf_cur_usage ?b \<noteq> 0" using q by (auto simp: word_unat_eq_iff)
  define n where "n = (if circular_buf_cur_usage ?b > len then len else circular_buf_cur_usage ?b)"
  have n: "unat n = k" by (auto simp: n_def word_less_nat_alt u k min_def)
  have n': "n = of_nat k" unfolding n [symmetric] by simp
  obtain cb m where pop: "circular_buf_pop dst n ?b (ram s) = (cb, m)" by fastforce
  have "if k \<le> length q then cb_rep cb m (drop k q) \<and> m = write_bytes dst (take k q) (ram s) else cb = ?b \<and> m = ram s"
    by (rule circular_buf_pop_rep [OF rep pop, unfolded n]) (use out k in simp)
  then have r: "cb_rep cb m (drop k q)" "m = write_bytes dst (take k q) (ram s)" by (auto simp: k)
  have w: "wait_for_volatile_condition
      (\<lambda>s. circular_buf_cur_usage (rx_buf (tcbs s c)) \<noteq> 0 \<or> tcb_state (tcbs s c) = CLOSE_WAIT)
      tcp_waitq (\<lambda>q s. s\<lparr>tcp_waitq := q\<rparr>) s = Some (True, s)"
    by (rule wait_true) (use u0 in simp)
  have "tcp_rx_data_turn c dst len s =
      Some (Rx_Goes_On (dst + n) (len - n), (set_tcb c (\<lambda>t. t\<lparr>rx_buf := cb\<rparr>) s)\<lparr>ram := m\<rparr>)"
    using st len pop unfolding tcp_rx_data_turn_def w by (simp add: Let_def n_def [symmetric])
  with r circular_buf_pop_area [OF pop] show thesis using that by (simp add: n')
qed

lemma rx_data_turn_closed:
  assumes "tcb_state (tcbs s c) = CLOSE_WAIT" "len \<noteq> 0"
  shows "tcp_rx_data_turn c dst len s = Some (Rx_Return (- 1), s)"
proof -
  have w: "wait_for_volatile_condition
      (\<lambda>s. circular_buf_cur_usage (rx_buf (tcbs s c)) \<noteq> 0 \<or> tcb_state (tcbs s c) = CLOSE_WAIT)
      tcp_waitq (\<lambda>q s. s\<lparr>tcp_waitq := q\<rparr>) s = Some (True, s)"
    by (rule wait_true) (use assms in simp)
  show ?thesis using assms unfolding tcp_rx_data_turn_def w by simp
qed

text \<open>C25: a turn of \<open>tcp_rx_data\<close> that does not sleep hands the oldest bytes of the receive buffer to the
  caller, as many as there are and as the caller still wants, in order, and removes exactly these. When
  the peer has closed the connection it returns -1 instead, even if data that has been acknowledged is
  still in the buffer: that data is never delivered.\<close>

theorem tcp_rx_data_delivers:
  assumes rep: "cb_rep (rx_buf (tcbs s c)) (ram s) q" and len: "len \<noteq> 0"
    and out: "\<forall>i < unat len. \<not> in_area (rx_buf (tcbs s c)) (dst + of_nat i)"
    and ready: "q \<noteq> [] \<or> tcb_state (tcbs s c) = CLOSE_WAIT"
  shows "let k = min (unat len) (length q) in
    if tcb_state (tcbs s c) = CLOSE_WAIT then tcp_rx_data_turn c dst len s = Some (Rx_Return (- 1), s)
    else \<exists>s'. tcp_rx_data_turn c dst len s = Some (Rx_Goes_On (dst + of_nat k) (len - of_nat k), s')
      \<and> ram s' = write_bytes dst (take k q) (ram s) \<and> cb_rep (rx_buf (tcbs s' c)) (ram s') (drop k q)
      \<and> (\<forall>x. x \<noteq> c \<longrightarrow> tcbs s' x = tcbs s x)"
proof (cases "tcb_state (tcbs s c) = CLOSE_WAIT")
  case True
  then show ?thesis using rx_data_turn_closed [OF _ len] by simp
next
  case False
  then have q: "q \<noteq> []" using ready by simp
  obtain cb where "tcp_rx_data_turn c dst len s = Some (Rx_Goes_On (dst + of_nat (min (unat len) (length q))) (len - of_nat (min (unat len) (length q))),
      (set_tcb c (\<lambda>t. t\<lparr>rx_buf := cb\<rparr>) s)\<lparr>ram := write_bytes dst (take (min (unat len) (length q)) q) (ram s)\<rparr>)"
    "cb_rep cb (write_bytes dst (take (min (unat len) (length q)) q) (ram s)) (drop (min (unat len) (length q)) q)"
    by (rule rx_data_turn [OF rep len refl _ False q]) (use out in blast, rule that)
  then show ?thesis using False by (simp add: Let_def set_tcb_def del: take_eq_Nil drop_eq_Nil)
qed

lemma tcp_rx_data_delivers_witness:
  "\<exists>(s :: net) s'. tcp_rx_data_turn 0x900 0x2000 3 s = Some (Rx_Goes_On 0x2002 1, s') \<and> ram s' 0x2000 = 7 \<and> ram s' 0x2001 = 9"
proof -
  let ?b = "\<lparr>buffer = 0x1000, head = 0x1002, tail = 0x1000, buf_sz = 4, free_space = 2\<rparr>"
  let ?s = "boot_net\<lparr>ram := (\<lambda>_. 0)(0x1000 := 7, 0x1001 := 9), tcbs := (\<lambda>_. zero_tcb\<lparr>rx_buf := ?b, tcb_state := ESTABLISHED\<rparr>)\<rparr>"
  have "cb_rep ?b (ram ?s) [7, 9]"
    by (auto simp: cb_rep_def ring_def area_ok_def cell_def less_Suc_eq intro!: exI [of _ 0])
  then have rep: "cb_rep (rx_buf (tcbs ?s 0x900)) (ram ?s) [7, 9]" by simp
  have "\<not> in_area ?b (0x2000 + of_nat i)" if "i < 3" for i
  proof -
    have "i = 0 \<or> i = 1 \<or> i = 2" using that by auto
    then show ?thesis by (auto simp: in_area_def in_range_def)
  qed
  then have out: "\<forall>i < unat (3 :: u32). \<not> in_area (rx_buf (tcbs ?s 0x900)) (0x2000 + of_nat i)" by simp
  obtain s' where "tcp_rx_data_turn 0x900 0x2000 3 ?s = Some (Rx_Goes_On 0x2002 1, s')" "ram s' = write_bytes 0x2000 [7, 9] (ram ?s)"
    using tcp_rx_data_delivers [OF rep _ out] by (auto simp: Let_def)
  then show ?thesis by (intro exI [of _ ?s] exI [of _ s']) simp
qed


subsection \<open>The end of a connection\<close>

lemma rx_established_fin:
  assumes "fin h"
  obtains t' where "rx_established h p 0 t m = (t', True, m)" "cur_ack_n t' = cur_ack_n t + 1" "tcb_state t' = CLOSE_WAIT"
proof -
  define u where "u = (if ack h \<and> 0 < sint (ack_n h - cur_seq_n t)
    then t\<lparr>unacked_byte_count := unacked_byte_count t - (ack_n h - cur_seq_n t)\<rparr> else t)"
  define v where "v = (if ack h then u\<lparr>cur_seq_n := ack_n h\<rparr> else u)"
  have f: "cur_ack_n v = cur_ack_n t" by (simp add: u_def v_def)
  have "rx_established h p 0 t m = (v\<lparr>tcb_state := CLOSE_WAIT, cur_ack_n := cur_ack_n t + 1\<rparr>, True, m)"
    using assms f by (cases "ack h") (simp_all add: rx_established_def Let_def u_def v_def)
  then show thesis by (rule that) simp_all
qed

lemma close_wait_hangs:
  "find_tcb (segment_in s pkt) (pkt_src_ip (pkts s pkt)) s = Some r \<Longrightarrow> tcb_state (tcbs s r) = CLOSE_WAIT \<Longrightarrow>
   tcp_rx_packet pkt s = None"
  by (simp add: tcp_rx_start tcp_rx_for_def set_tcb_def after_header_fields)

text \<open>C37: the peer closes an established connection: its FIN is acknowledged and the connection is in
  CLOSE_WAIT, all processes that wait on TCP runnable. And whenever the connection
  is in CLOSE_WAIT, right after this FIN or in any other state of the system, a segment for it, a retransmission of the
  FIN for instance, stops the system: the handler masks interrupts and branches to itself.\<close>

theorem tcp_after_fin_hangs:
  fixes s :: "'a net_scheme"
  assumes ok: "net_ok s L (n + tcp_demand 0)" and n: "n = 0 \<or> 16 \<le> n" and p: "tcp_packet s L pkt F k lf"
    and c: "find_tcb (segment_in s pkt) (pkt_src_ip (pkts s pkt)) s = Some r" and est: "tcb_state (tcbs s r) = ESTABLISHED"
    and seg: "fin (segment_in s pkt)" "tcp_dlen s pkt = 0"
  shows "\<exists>s' obj buf. tcp_rx_packet pkt s = Some s' \<and> tcb_state (tcbs s' r) = CLOSE_WAIT
    \<and> cur_ack_n (tcbs s' r) = cur_ack_n (tcbs s r) + 1 \<and> tcp_waitq s' = []
    \<and> queued_segment s' obj buf (pkt_src_ip (pkts s pkt)) (ack_segment (tcbs s' r))
    \<and> (\<forall>pkt'. find_tcb (segment_in s' pkt') (pkt_src_ip (pkts s' pkt')) s' = Some r \<longrightarrow> tcp_rx_packet pkt' s' = None)
    \<and> (\<forall>(u :: 'a net_scheme) pkt'. tcb_state (tcbs u r) = CLOSE_WAIT
         \<longrightarrow> find_tcb (segment_in u pkt') (pkt_src_ip (pkts u pkt')) u = Some r \<longrightarrow> tcp_rx_packet pkt' u = None)"
proof -
  let ?s1 = "after_header s pkt" and ?h = "segment_in s pkt"
  obtain t where t: "rx_established ?h (tcp_payload s pkt) 0 (timer_stopped (tcbs s r)) (ram ?s1) = (t, True, ram ?s1)"
    "cur_ack_n t = cur_ack_n (tcbs s r) + 1" "tcb_state t = CLOSE_WAIT"
    by (rule rx_established_fin [OF seg(1), of "tcp_payload s pkt" "timer_stopped (tcbs s r)" "ram ?s1"]) (simp add: timer_stopped_def)
  have sw: "rx_switch ?h (pkt_src_ip (pkts ?s1 pkt)) (pkt_cur_data (pkts ?s1 pkt)) 0
      (timer_stopped (tcbs ?s1 r)) (ram ?s1) = (t, True, ram ?s1)"
    using t(1) est by (simp add: rx_switch_def after_header_fields) (simp add: timer_stopped_def)
  have ok1: "net_ok (?s1\<lparr>ram := ram ?s1\<rparr>) L (n + tcp_demand 0)" using after_header_ok(1) [OF ok p] by simp
  show ?thesis
  proof (rule tcp_rx_for_acks [OF sw _ _ ok1 n], unfold after_header_fields)
    fix s' :: "'a net_scheme" and obj buf :: u32
    assume e: "tcp_rx_for pkt r ?h 0 ?s1 = Some s'" "tcbs s' = (tcbs s)(r := t)"
      "queued_segment s' obj buf (pkt_src_ip (pkts s pkt)) (ack_segment t)" "tcp_waitq s' = []"
    have run: "tcp_rx_packet pkt s = Some s'" using c e(1) seg(2) by (simp add: tcp_rx_start)
    have cw: "tcb_state (tcbs s' r) = CLOSE_WAIT" using e(2) t(3) by simp
    show ?thesis
      by (rule exI [of _ s'], rule exI [of _ obj], rule exI [of _ buf], intro conjI run cw e(4) allI impI close_wait_hangs [OF _ cw];
          (erule (1) close_wait_hangs)?)
        (use e(2,3) t(2) in simp_all)
  qed (use est in simp_all)
qed

lemma tcp_after_fin_hangs_witness:
  "\<exists>(s :: net) s'. tcp_rx_packet 0x10 s = Some s' \<and> tcb_state (tcbs s' 0x900) = CLOSE_WAIT \<and> cur_ack_n (tcbs s' 0x900) = 2"
proof (rule example_tcp_setup [of "[]" 20 ESTABLISHED "0x11"])
  fix f b :: u32 and m and lf lb :: nat
  let ?s = "example_tcp m f b ESTABLISHED 20" and ?L = "{(unat b, lb), (unat f, lf)}"
  assume e: "net_ok ?s ?L 30000" "read_bytes m f 20 = take 20 (segment_bytes 0x11 [])" "tcp_packet ?s ?L 0x10 f 0 lf"
    "connection_gets ?s ?L 0x10 f 0x900 []" "tcp_dlen ?s 0x10 = of_nat (length ([] :: u8 list))"
  have ok: "net_ok ?s ?L (0 + tcp_demand 0)"
    using net_ok_mono [OF e(1)] by (simp add: tcp_demand_def checksum_size_def block_size_of_def)
  have x: "fin (segment_in ?s 0x10)" "tcp_dlen ?s 0x10 = 0" "tcb_state (tcbs ?s 0x900) = ESTABLISHED" "cur_ack_n (tcbs ?s 0x900) = 1"
    using e(5) by (simp_all add: example_segment [OF e(2)]) (simp_all add: example_tcp_def)
  have c: "find_tcb (segment_in ?s 0x10) (pkt_src_ip (pkts ?s 0x10)) ?s = Some 0x900" using e(4) by (simp add: connection_gets_def)
  obtain s' where "tcp_rx_packet 0x10 ?s = Some s'" "tcb_state (tcbs s' 0x900) = CLOSE_WAIT"
    "cur_ack_n (tcbs s' 0x900) = cur_ack_n (tcbs ?s 0x900) + 1"
    using tcp_after_fin_hangs [OF ok disjI1 [OF refl] e(3) c x(3,1,2)] by (elim exE conjE) (rule that)
  then show ?thesis by (intro exI [of _ ?s] exI [of _ s']) (simp add: x(4))
qed simp_all


subsection \<open>Opening a connection\<close>

text \<open>A segment that is not acknowledged at once: the TCB changes and the processes are woken.\<close>

lemma set_then_wake:
  assumes ok: "net_ok s L n"
  obtains s' where "wake_tcp (s\<lparr>tcbs := T\<rparr>) = Some s'" "tcbs s' = T" "tcb_head s' = tcb_head s" "tcp_waitq s' = []"
    "pkts s' = pkts s" "ip4_tx_waitq s' = ip4_tx_waitq s" "ip4_tx_queue s' = ip4_tx_queue s"
    "runqueue s' = rev (map snd (tcp_waitq s)) @ runqueue s" "set (all_waits s') \<subseteq> set (all_waits s)"
    "net_ok s' (without L (nodes (tcp_waitq s))) n" "keeps s s' (without L (nodes (tcp_waitq s)))"
proof -
  define s1 where "s1 = s\<lparr>tcbs := T\<rparr>"
  have ok1: "net_ok s1 L n" using ok by (simp add: s1_def)
  obtain m' pr where w: "wake_tcp s1 = Some ((woken (tcp_waitq s1) m' pr s1)\<lparr>tcp_waitq := []\<rparr>)"
    "net_ok ((woken (tcp_waitq s1) m' pr s1)\<lparr>tcp_waitq := []\<rparr>) (without L (nodes (tcp_waitq s1))) n"
    "keeps s1 ((woken (tcp_waitq s1) m' pr s1)\<lparr>tcp_waitq := []\<rparr>) (without L (nodes (tcp_waitq s1)))"
    using wake_tcp_ok [OF ok1] by blast
  have f: "tcp_waitq s1 = tcp_waitq s" by (simp add: s1_def)
  have kp: "keeps s ((woken (tcp_waitq s) m' pr s1)\<lparr>tcp_waitq := []\<rparr>) (without L (nodes (tcp_waitq s)))"
    using w(3) by (simp add: keeps_def f s1_def)
  show thesis
    by (rule that [OF w(1) [unfolded f, unfolded s1_def] _ _ _ _ _ _ _ _ w(2) [unfolded f, unfolded s1_def] kp [unfolded s1_def]])
      (auto simp: all_waits_def)
qed

lemma tcp_rx_for_silent:
  assumes m: "rx_switch h (pkt_src_ip (pkts s pkt)) (pkt_cur_data (pkts s pkt)) dlen (timer_stopped (tcbs s r)) (ram s) = (t, False, ram s)"
    and st: "tcb_state (tcbs s r) \<noteq> CLOSE_WAIT" "tcb_state (tcbs s r) \<noteq> SYN_SENT" and ok: "net_ok s L n"
  obtains s' where "tcp_rx_for pkt r h dlen s = Some s'" "tcbs s' = (tcbs s)(r := t)" "tcb_head s' = tcb_head s" "tcp_waitq s' = []"
    "pkts s' = pkts s" "ip4_tx_waitq s' = ip4_tx_waitq s" "ip4_tx_queue s' = ip4_tx_queue s"
    "runqueue s' = rev (map snd (tcp_waitq s)) @ runqueue s" "set (all_waits s') \<subseteq> set (all_waits s)"
    "net_ok s' (without L (nodes (tcp_waitq s))) n" "keeps s s' (without L (nodes (tcp_waitq s)))"
proof -
  have "tcp_rx_for pkt r h dlen s = wake_tcp (s\<lparr>tcbs := (tcbs s)(r := t)\<rparr>)"
    using m st by (simp add: tcp_rx_for_def set_tcb_def timer_stopped_def split: prod.splits)
  then show thesis using set_then_wake [OF ok, of "(tcbs s)(r := t)"] that by metis
qed

text \<open>The SYN/ACK of a listener.\<close>

definition syn_ack_segment :: "tcb \<Rightarrow> tcp_header" where
  "syn_ack_segment t = (tcp_header_prepopulate t zero_header)\<lparr>syn := True, ack := True\<rparr>"

lemma tcp_listen_wait_sends:
  assumes st: "tcb_state (tcbs s r) = SYN_RECEIVED" and ok: "net_ok s L (n + tcp_demand 0)" and n: "n = 0 \<or> 16 \<le> n"
  obtains s' obj buf L' where "tcp_listen_wait r s = Some (True, s')" "tcbs s' = tcbs s" "tcb_head s' = tcb_head s"
    "queued_segment s' obj buf (dst_ip (tcbs s r)) (syn_ack_segment (tcbs s r))" "net_ok s' L' n"
    "without L (nodes (ip4_tx_waitq s)) \<subseteq> L'" "keeps s s' (without L (nodes (ip4_tx_waitq s)))"
proof -
  let ?h = "syn_ack_segment (tcbs s r)" and ?d = "dst_ip (tcbs s r)"
  have z: "tcp_checksum ?h = 0" by (simp add: syn_ack_segment_def tcp_header_prepopulate_def zero_header_def)
  have src: "live_bytes L 0 (unat (0 :: u32))" by (simp add: live_bytes_def)
  have ok': "net_ok s L (n + tcp_demand (unat (0 :: u32)))" using ok by simp
  have w: "wait_for_volatile_condition (\<lambda>s. tcb_state (tcbs s r) = SYN_RECEIVED) tcp_waitq (\<lambda>q s. s\<lparr>tcp_waitq := q\<rparr>) s = Some (True, s)"
    by (rule wait_true) (use st in simp)
  show thesis
  proof (rule tcp_tx_ok [OF ok' n src _ z, of ?d])
    fix c and obj buf :: u32 and lo lb m pr
    let ?s2 = "ip4_queued obj IP_PROTO_TCP ?d buf (ucast (20 + 0 :: u32)) m pr s"
    let ?K = "insert (unat buf, lb) (insert (unat obj, lo) (without L (nodes (ip4_tx_waitq s))))"
    assume e: "tcp_tx ?h ?d 0 0 s = Some ?s2" "net_ok ?s2 ?K n"
      "read_bytes m buf (20 + unat (0 :: u32)) = wire_segment ?h c (read_bytes (ram s) 0 (unat (0 :: u32)))"
      "inet_sum (wire_pseudo ?d 0 @ wire_segment ?h c (read_bytes (ram s) 0 (unat (0 :: u32)))) = 0xFFFF"
      "keeps s (s\<lparr>ram := m\<rparr>) (without L (nodes (ip4_tx_waitq s)))"
    have run: "tcp_listen_wait r s = Some (True, ?s2)"
      using e(1) unfolding tcp_listen_wait_def w by (simp add: syn_ack_segment_def Let_def)
    have q: "queued_segment ?s2 obj buf ?d ?h"
      unfolding queued_segment_def using e(3,4) by (intro exI [of _ c]) (simp add: IP_PROTO_TCP_def del: read_bytes_numeral)
    show thesis
      by (rule that [OF run _ _ q e(2)]) (use e(5) in \<open>auto simp: keeps_def\<close>)
  qed simp
qed


lemma syn_received:
  assumes ok: "net_ok s L n" and p: "tcp_packet s L pkt F k lf"
    and c: "find_tcb (segment_in s pkt) (pkt_src_ip (pkts s pkt)) s = Some r"
    and st: "tcb_state (tcbs s r) = LISTEN" and syn: "syn (segment_in s pkt)"
  obtains s' where "tcp_rx_packet pkt s = Some s'"
    "tcbs s' r = (timer_stopped (tcbs s r))\<lparr>dst_ip := pkt_src_ip (pkts s pkt), cur_ack_n := seq_n (segment_in s pkt) + 1,
       dst_port := source_port (segment_in s pkt), tcb_state := SYN_RECEIVED\<rparr>"
    "ip4_tx_waitq s' = ip4_tx_waitq s" "net_ok s' (without L (nodes (tcp_waitq s))) n"
proof -
  let ?h = "segment_in s pkt" and ?s1 = "after_header s pkt"
  have sw: "rx_switch ?h (pkt_src_ip (pkts ?s1 pkt)) (pkt_cur_data (pkts ?s1 pkt)) (tcp_dlen s pkt) (timer_stopped (tcbs ?s1 r)) (ram ?s1) =
      (rx_listen ?h (pkt_src_ip (pkts s pkt)) (timer_stopped (tcbs s r)), False, ram ?s1)"
    using st by (simp add: rx_switch_def after_header_fields) (simp add: timer_stopped_def)
  show thesis
  proof (rule tcp_rx_for_silent [OF sw _ _ after_header_ok(1) [OF ok p]], unfold after_header_fields)
    fix s' assume e: "tcp_rx_for pkt r ?h (tcp_dlen s pkt) ?s1 = Some s'"
      "tcbs s' = (tcbs s)(r := rx_listen ?h (pkt_src_ip (pkts s pkt)) (timer_stopped (tcbs s r)))"
      "ip4_tx_waitq s' = ip4_tx_waitq s" "net_ok s' (without L (nodes (tcp_waitq s))) n"
    show thesis
      by (rule that [OF _ _ e(3,4)]) (use c e(1,2) syn in \<open>simp_all add: tcp_rx_start rx_listen_def\<close>)
  qed (use st in simp_all)
qed

lemma handshake_completed:
  assumes ok: "net_ok s L n" and p: "tcp_packet s L pkt F k lf"
    and c: "find_tcb (segment_in s pkt) (pkt_src_ip (pkts s pkt)) s = Some r"
    and st: "tcb_state (tcbs s r) = SYN_RECEIVED" and ack: "ack (segment_in s pkt)"
  shows "\<exists>s'. tcp_rx_packet pkt s = Some s' \<and> tcb_state (tcbs s' r) = ESTABLISHED
    \<and> cur_seq_n (tcbs s' r) = ack_n (segment_in s pkt) \<and> cur_ack_n (tcbs s' r) = cur_ack_n (tcbs s r)
    \<and> tcp_listen_established r s' = Some (Some r, s')"
proof -
  let ?h = "segment_in s pkt" and ?s1 = "after_header s pkt"
  have sw: "rx_switch ?h (pkt_src_ip (pkts ?s1 pkt)) (pkt_cur_data (pkts ?s1 pkt)) (tcp_dlen s pkt) (timer_stopped (tcbs ?s1 r)) (ram ?s1) =
      (rx_syn_received ?h (timer_stopped (tcbs s r)), False, ram ?s1)"
    using st by (simp add: rx_switch_def after_header_fields) (simp add: timer_stopped_def)
  show ?thesis
  proof (rule tcp_rx_for_silent [OF sw _ _ after_header_ok(1) [OF ok p]], unfold after_header_fields)
    fix s' assume e: "tcp_rx_for pkt r ?h (tcp_dlen s pkt) ?s1 = Some s'"
      "tcbs s' = (tcbs s)(r := rx_syn_received ?h (timer_stopped (tcbs s r)))"
    have est: "tcb_state (tcbs s' r) = ESTABLISHED" using e(2) ack by (simp add: rx_syn_received_def)
    have "wait_for_volatile_condition (\<lambda>s. tcb_state (tcbs s r) = ESTABLISHED) tcp_waitq (\<lambda>q s. s\<lparr>tcp_waitq := q\<rparr>) s' = Some (True, s')"
      by (rule wait_true) (use est in simp)
    then have "tcp_listen_established r s' = Some (Some r, s')" by (simp add: tcp_listen_established_def)
    then show ?thesis
      using c e est ack by (simp add: tcp_rx_start rx_syn_received_def timer_stopped_def)
  qed (use st in simp_all)
qed

text \<open>In the sound state \<open>s\<close> the packet is a segment for the connection \<open>r\<close>.\<close>

definition segment_for :: "'a net_scheme \<Rightarrow> u32 \<Rightarrow> u32 \<Rightarrow> bool" where
  "segment_for s pkt r \<longleftrightarrow> find_tcb (segment_in s pkt) (pkt_src_ip (pkts s pkt)) s = Some r
     \<and> (\<exists>L n F k lf. net_ok s L n \<and> tcp_packet s L pkt F k lf)"

text \<open>C15: the handshake on the side of a listener. A SYN for its port makes it remember the peer and
  leaves SYN_RECEIVED; the waiting \<open>tcp_listen\<close> then queues for that peer a SYN/ACK with its own
  sequence number and the peer's plus one, with a valid checksum. Any later segment of that peer with
  ACK set establishes the connection, with the acknowledged number as the next sequence number, and
  \<open>tcp_listen\<close> returns the connection.\<close>

theorem tcp_listen_handshake:
  fixes s :: "'a net_scheme"
  assumes ok: "net_ok s L (n + tcp_demand 0)" and n: "n = 0 \<or> 16 \<le> n" and p: "tcp_packet s L pkt F k lf"
    and c: "find_tcb (segment_in s pkt) (pkt_src_ip (pkts s pkt)) s = Some r"
    and st: "tcb_state (tcbs s r) = LISTEN" and syn: "syn (segment_in s pkt)"
  shows "\<exists>s1 s2 obj buf h. tcp_rx_packet pkt s = Some s1 \<and> tcp_listen_wait r s1 = Some (True, s2)
    \<and> queued_segment s2 obj buf (pkt_src_ip (pkts s pkt)) h \<and> syn h \<and> ack h \<and> \<not> fin h \<and> \<not> rst h
    \<and> seq_n h = cur_seq_n (tcbs s r) \<and> ack_n h = seq_n (segment_in s pkt) + 1
    \<and> source_port h = src_port (tcbs s r) \<and> dest_port h = source_port (segment_in s pkt)
    \<and> tcbs s2 r = (timer_stopped (tcbs s r))\<lparr>dst_ip := pkt_src_ip (pkts s pkt), cur_ack_n := seq_n (segment_in s pkt) + 1,
       dst_port := source_port (segment_in s pkt), tcb_state := SYN_RECEIVED\<rparr>
    \<and> (\<forall>(s3 :: 'a net_scheme) pkt3. segment_for s3 pkt3 r \<and> tcbs s3 r = tcbs s2 r \<and> ack (segment_in s3 pkt3) \<longrightarrow>
         (\<exists>s4. tcp_rx_packet pkt3 s3 = Some s4 \<and> tcb_state (tcbs s4 r) = ESTABLISHED
              \<and> cur_seq_n (tcbs s4 r) = ack_n (segment_in s3 pkt3) \<and> cur_ack_n (tcbs s4 r) = seq_n (segment_in s pkt) + 1
              \<and> tcp_listen_established r s4 = Some (Some r, s4)))"
proof -
  obtain s1 where s1: "tcp_rx_packet pkt s = Some s1"
    "tcbs s1 r = (timer_stopped (tcbs s r))\<lparr>dst_ip := pkt_src_ip (pkts s pkt), cur_ack_n := seq_n (segment_in s pkt) + 1,
       dst_port := source_port (segment_in s pkt), tcb_state := SYN_RECEIVED\<rparr>"
    "net_ok s1 (without L (nodes (tcp_waitq s))) (n + tcp_demand 0)"
    by (rule syn_received [OF ok p c st syn])
  have st1: "tcb_state (tcbs s1 r) = SYN_RECEIVED" using s1(2) by simp
  obtain s2 obj buf where s2: "tcp_listen_wait r s1 = Some (True, s2)" "tcbs s2 = tcbs s1"
    "queued_segment s2 obj buf (dst_ip (tcbs s1 r)) (syn_ack_segment (tcbs s1 r))"
    by (rule tcp_listen_wait_sends [OF st1 s1(3) n])
  let ?h = "syn_ack_segment (tcbs s1 r)"
  have h: "syn ?h" "ack ?h" "\<not> fin ?h" "\<not> rst ?h" "seq_n ?h = cur_seq_n (tcbs s r)" "ack_n ?h = seq_n (segment_in s pkt) + 1"
    "source_port ?h = src_port (tcbs s r)" "dest_port ?h = source_port (segment_in s pkt)"
    by (simp_all add: syn_ack_segment_def tcp_header_prepopulate_def zero_header_def s1(2) timer_stopped_def)
  have q: "queued_segment s2 obj buf (pkt_src_ip (pkts s pkt)) ?h" using s2(3) by (simp add: s1(2))
  note t2 = s1(2) [folded s2(2)]
  have st2: "tcb_state (tcbs s2 r) = SYN_RECEIVED" "cur_ack_n (tcbs s2 r) = seq_n (segment_in s pkt) + 1"
    using s1(2) s2(2) by simp_all
  have last: "\<exists>s4. tcp_rx_packet pkt3 s3 = Some s4 \<and> tcb_state (tcbs s4 r) = ESTABLISHED
      \<and> cur_seq_n (tcbs s4 r) = ack_n (segment_in s3 pkt3) \<and> cur_ack_n (tcbs s4 r) = seq_n (segment_in s pkt) + 1
      \<and> tcp_listen_established r s4 = Some (Some r, s4)"
    if x: "segment_for s3 pkt3 r \<and> tcbs s3 r = tcbs s2 r \<and> ack (segment_in s3 pkt3)" for s3 :: "'a net_scheme" and pkt3
  proof -
    obtain L' n' F' k' lf' where y: "net_ok s3 L' n'" "tcp_packet s3 L' pkt3 F' k' lf'"
      "find_tcb (segment_in s3 pkt3) (pkt_src_ip (pkts s3 pkt3)) s3 = Some r"
      using x by (auto simp: segment_for_def)
    have "tcb_state (tcbs s3 r) = SYN_RECEIVED" "ack (segment_in s3 pkt3)" using x st2 by simp_all
    from handshake_completed [OF y this] show ?thesis using x st2(2) by simp
  qed
  show ?thesis
    by (rule exI [of _ s1], rule exI [of _ s2], rule exI [of _ obj], rule exI [of _ buf], rule exI [of _ ?h],
        intro conjI s1(1) s2(1) q h allI impI t2) (rule last, assumption)
qed


lemma tcp_listen_handshake_witness:
  "\<exists>(s :: net) s1 s2 (s3 :: net) s4. tcp_rx_packet 0x10 s = Some s1 \<and> tcp_listen_wait 0x900 s1 = Some (True, s2)
    \<and> tcb_state (tcbs s2 0x900) = SYN_RECEIVED \<and> tcbs s3 0x900 = tcbs s2 0x900
    \<and> tcp_rx_packet 0x10 s3 = Some s4 \<and> tcb_state (tcbs s4 0x900) = ESTABLISHED \<and> cur_seq_n (tcbs s4 0x900) = 1024"
proof (rule example_tcp_setup [of "[]" 20 LISTEN "0x02"])
  fix f b :: u32 and m and lf lb :: nat
  let ?s = "example_tcp m f b LISTEN 20" and ?L = "{(unat b, lb), (unat f, lf)}"
  assume e: "net_ok ?s ?L 30000" "read_bytes m f 20 = take 20 (segment_bytes 0x02 [])"
    "read_bytes m (f + 20) (length ([] :: u8 list)) = []" "tcp_packet ?s ?L 0x10 f 0 lf"
    "connection_gets ?s ?L 0x10 f 0x900 []" "tcp_dlen ?s 0x10 = of_nat (length ([] :: u8 list))" "tcp_payload ?s 0x10 = f + 20"
  have ok: "net_ok ?s ?L (0 + tcp_demand 0)"
    using net_ok_mono [OF e(1)] by (simp add: tcp_demand_def checksum_size_def block_size_of_def)
  have c: "find_tcb (segment_in ?s 0x10) (pkt_src_ip (pkts ?s 0x10)) ?s = Some 0x900"
    using e(5) by (simp add: connection_gets_def)
  have st: "tcb_state (tcbs ?s 0x900) = LISTEN" by (simp add: example_tcp_def)
  have syn: "syn (segment_in ?s 0x10)" by (simp add: example_segment [OF e(2)])
  obtain s1 s2 where s: "tcp_rx_packet 0x10 ?s = Some s1" "tcp_listen_wait 0x900 s1 = Some (True, s2)"
    "tcbs s2 0x900 = (timer_stopped (tcbs ?s 0x900))\<lparr>dst_ip := pkt_src_ip (pkts ?s 0x10), cur_ack_n := seq_n (segment_in ?s 0x10) + 1,
       dst_port := source_port (segment_in ?s 0x10), tcb_state := SYN_RECEIVED\<rparr>"
    and last: "\<forall>(s3 :: net) pkt3. segment_for s3 pkt3 0x900 \<and> tcbs s3 0x900 = tcbs s2 0x900 \<and> ack (segment_in s3 pkt3) \<longrightarrow>
       (\<exists>s4. tcp_rx_packet pkt3 s3 = Some s4 \<and> tcb_state (tcbs s4 0x900) = ESTABLISHED
          \<and> cur_seq_n (tcbs s4 0x900) = ack_n (segment_in s3 pkt3) \<and> cur_ack_n (tcbs s4 0x900) = seq_n (segment_in ?s 0x10) + 1
          \<and> tcp_listen_established 0x900 s4 = Some (Some 0x900, s4))"
    using tcp_listen_handshake [OF ok disjI1 [OF refl] e(4) c st syn] by (elim exE conjE) (rule that)
  show ?thesis
  proof (rule example_tcp_setup [of "[]" 20 LISTEN "0x10"])
    fix f' b' :: u32 and m' and lf' lb' :: nat
    let ?e = "example_tcp m' f' b' LISTEN 20" and ?K = "{(unat b', lb'), (unat f', lf')}"
    let ?t = "?e\<lparr>tcbs := tcbs s2\<rparr>"
    assume a: "net_ok ?e ?K 30000" "read_bytes m' f' 20 = take 20 (segment_bytes 0x10 [])"
      "read_bytes m' (f' + 20) (length ([] :: u8 list)) = []" "tcp_packet ?e ?K 0x10 f' 0 lf'"
      "connection_gets ?e ?K 0x10 f' 0x900 []" "tcp_dlen ?e 0x10 = of_nat (length ([] :: u8 list))" "tcp_payload ?e 0x10 = f' + 20"
    have sg: "segment_in ?t 0x10 = segment_in ?e 0x10" by (simp add: segment_in_def)
    have t: "src_port (tcbs s2 0x900) = 1000" "dst_port (tcbs s2 0x900) = 80" "dst_ip (tcbs s2 0x900) = 0xC0A80001"
        "tcb_state (tcbs s2 0x900) = SYN_RECEIVED"
      using s(3) by (simp_all add: example_segment [OF e(2)]) (simp_all add: example_tcp_def timer_stopped_def)
    have "find_tcb (segment_in ?t 0x10) (pkt_src_ip (pkts ?t 0x10)) ?t = Some 0x900"
      unfolding sg example_segment [OF a(2)] using t by (simp add: find_tcb_def example_tcp_def)
    moreover have "net_ok ?t ?K 30000" using a(1) by simp
    moreover have "tcp_packet ?t ?K 0x10 f' 0 lf'" using a(4) by (simp add: tcp_packet_def tcp_hlen_def sg)
    ultimately have "segment_for ?t 0x10 0x900" unfolding segment_for_def by blast
    then have x: "segment_for ?t 0x10 0x900 \<and> tcbs ?t 0x900 = tcbs s2 0x900 \<and> ack (segment_in ?t 0x10)"
      by (simp add: sg example_segment [OF a(2)])
    obtain s4 where s4: "tcp_rx_packet 0x10 ?t = Some s4" "tcb_state (tcbs s4 0x900) = ESTABLISHED"
      "cur_seq_n (tcbs s4 0x900) = ack_n (segment_in ?t 0x10)"
      using last [rule_format, OF x] by (elim exE conjE) (rule that)
    have n: "ack_n (segment_in ?t 0x10) = 1024" by (simp add: sg example_segment [OF a(2)])
    show ?thesis
      by (rule exI [of _ ?s], rule exI [of _ s1], rule exI [of _ s2], rule exI [of _ ?t], rule exI [of _ s4])
        (use s(1,2) s4 t n in simp)
  qed simp_all
qed simp_all

end
