(* ===== verification/Tcp_States.thy ===== *)
theory Tcp_States
  imports Tcp_Properties
begin

text \<open>
  The table of connections: what makes a TCB well-formed, that every received segment and every tick
  keep it so, the state diagram that segments follow, and the life of a connection in TIME_WAIT.
\<close>

unbundle bit_operations_syntax

subsection \<open>Well-formed connections\<close>

text \<open>A timer runs in SYN_SENT and TIME_WAIT only, and no longer than \<open>TCP_TIMEOUT\<close>.\<close>

definition timer_ok :: "tcb \<Rightarrow> bool" where
  "timer_ok t \<longleftrightarrow> (decrement_timeout t \<longrightarrow> timeout t \<le> TCP_TIMEOUT \<and> tcb_state t \<in> {SYN_SENT, TIME_WAIT})"

text \<open>The receive buffer is a circular buffer in an allocation of its own.\<close>

definition tcb_ok :: "tcb \<Rightarrow> mem \<Rightarrow> ledger \<Rightarrow> bool" where
  "tcb_ok t m L \<longleftrightarrow> (\<exists>q. cb_rep (rx_buf t) m q) \<and> (\<exists>lb. live_area L (rx_buf t) lb) \<and> timer_ok t"

abbreviation tcb_buf :: "'a net_scheme \<Rightarrow> u32 \<Rightarrow> u32" where
  "tcb_buf s r \<equiv> buffer (rx_buf (tcbs s r))"

text \<open>The allocations that belong to TCP.\<close>

definition tcp_owned :: "'a net_scheme \<Rightarrow> u32 set" where
  "tcp_owned s = set (tcb_head s) \<union> tcb_buf s ` set (tcb_head s)"

definition tcp_ok :: "'a net_scheme \<Rightarrow> ledger \<Rightarrow> bool" where
  "tcp_ok s L \<longleftrightarrow> distinct (tcb_head s) \<and> inj_on (tcb_buf s) (set (tcb_head s))
     \<and> set (tcb_head s) \<inter> tcb_buf s ` set (tcb_head s) = {} \<and> tcp_owned s \<inter> nodes (all_waits s) = {}
     \<and> (\<forall>r \<in> set (tcb_head s). (\<exists>l. (unat r, l) \<in> L) \<and> tcb_ok (tcbs s r) (ram s) L)"

lemma tcp_okD:
  assumes "tcp_ok s L" "r \<in> set (tcb_head s)"
  obtains q lb l where "cb_rep (rx_buf (tcbs s r)) (ram s) q" "live_area L (rx_buf (tcbs s r)) lb" "timer_ok (tcbs s r)"
    "(unat r, l) \<in> L" "tcb_buf s r \<notin> nodes (all_waits s)" "r \<notin> nodes (all_waits s)" "tcb_buf s r \<noteq> r"
proof -
  have "tcb_ok (tcbs s r) (ram s) L" "\<exists>l. (unat r, l) \<in> L" "tcb_buf s r \<notin> nodes (all_waits s)" "r \<notin> nodes (all_waits s)"
    using assms by (auto simp: tcp_ok_def tcp_owned_def)
  moreover have "tcb_buf s r \<noteq> r" using assms imageI [of r "set (tcb_head s)" "tcb_buf s"] unfolding tcp_ok_def by (metis disjoint_iff)
  ultimately show thesis using that unfolding tcb_ok_def by blast
qed

text \<open>A TCB that a step leaves alone stays well-formed when its buffer is kept.\<close>

lemma tcb_ok_keeps:
  assumes ok: "tcb_ok t (ram s) L" and kp: "keeps s s' K" and rep: "heap_rep s L" and k: "\<And>l. (unat (buffer (rx_buf t)), l) \<in> L \<Longrightarrow> (unat (buffer (rx_buf t)), l) \<in> K \<inter> L'"
  shows "tcb_ok t (ram s') L'"
proof -
  obtain q lb where a: "cb_rep (rx_buf t) (ram s) q" "live_area L (rx_buf t) lb" "timer_ok t" using ok by (auto simp: tcb_ok_def)
  have "(unat (buffer (rx_buf t)), lb) \<in> K \<inter> L'" using k a(2) by (simp add: live_area_def)
  then have "cb_rep (rx_buf t) (ram s') q" "live_area L' (rx_buf t) lb"
    using cb_rep_keeps [OF a(1) kp rep a(2)] a(2) by (auto simp: live_area_def)
  then show ?thesis using a(3) by (auto simp: tcb_ok_def)
qed

text \<open>A step changes the TCBs \<open>R\<close> and their buffers only; \<open>A\<close> is what it gives back or writes to otherwise.\<close>

lemma tcp_ok_step:
  assumes ok: "tcp_ok s L" and rep: "heap_rep s L" and R: "R \<subseteq> set (tcb_head s)"
    and tc: "tcb_head s' = tcb_head s" "\<And>x. x \<notin> R \<Longrightarrow> tcbs s' x = tcbs s x" "\<And>x. x \<in> R \<Longrightarrow> tcb_buf s' x = tcb_buf s x"
    and aw: "set (all_waits s') \<subseteq> set (all_waits s)" and A: "A \<inter> tcp_owned s = {}"
    and kp: "keeps s s' (without L (tcb_buf s ` R \<union> A))" and L': "without L A \<subseteq> L'"
    and t: "\<And>x. x \<in> R \<Longrightarrow> tcb_ok (tcbs s' x) (ram s') L'"
  shows "tcp_ok s' L'"
proof -
  have bufs: "tcb_buf s' x = tcb_buf s x" for x using tc(2,3) by (cases "x \<in> R") simp_all
  have inj: "inj_on (tcb_buf s) (set (tcb_head s))" using ok by (simp add: tcp_ok_def)
  have each: "(\<exists>l. (unat x, l) \<in> L') \<and> tcb_ok (tcbs s' x) (ram s') L'" if x: "x \<in> set (tcb_head s)" for x
  proof
    obtain l where l: "(unat x, l) \<in> L" using ok x by (auto simp: tcp_ok_def)
    have a: "x \<notin> A" "tcb_buf s x \<notin> A" using A x by (auto simp: tcp_owned_def)
    then show "\<exists>l. (unat x, l) \<in> L'" using without_in [OF l] L' by blast
    show "tcb_ok (tcbs s' x) (ram s') L'"
    proof (cases "x \<in> R")
      case False
      have "tcb_ok (tcbs s x) (ram s) L" using ok x by (simp add: tcp_ok_def)
      then have "tcb_ok (tcbs s x) (ram s') L'"
      proof (rule tcb_ok_keeps [OF _ kp rep])
        fix k assume k: "(unat (tcb_buf s x), k) \<in> L"
        have "tcb_buf s x \<notin> tcb_buf s ` R" using inj x False R by (auto dest: inj_onD)
        then show "(unat (tcb_buf s x), k) \<in> without L (tcb_buf s ` R \<union> A) \<inter> L'"
          using without_in [OF k, of A] without_in [OF k, of "tcb_buf s ` R \<union> A"] a L' by blast
      qed
      then show ?thesis using False tc(2) by simp
    qed (rule t)
  qed
  have nd: "nodes (all_waits s') \<subseteq> nodes (all_waits s)" using aw by (auto simp: nodes_def)
  have own: "tcp_owned s' = tcp_owned s" by (simp add: tcp_owned_def tc(1) bufs)
  show ?thesis
    using ok each nd unfolding tcp_ok_def own tc(1) bufs by blast
qed

subsection \<open>The connection states\<close>

text \<open>The number that the peer acknowledges when it has got all that we have sent: \<open>cur_seq_n\<close> does not count
  the SYN, nor the FIN that is sent in CLOSE_WAIT.\<close>

definition snd_nxt :: "tcb \<Rightarrow> u32" where
  "snd_nxt t = cur_seq_n t + (if tcb_state t \<in> {SYN_SENT, SYN_RECEIVED, LAST_ACK} then 1 else 0)"

definition acks_all :: "tcp_header \<Rightarrow> tcb \<Rightarrow> bool" where
  "acks_all h t \<longleftrightarrow> ack h \<and> ack_n h = snd_nxt t"

text \<open>The edges of the state diagram of RFC 793 (figure 6) that a segment takes; \<open>acked\<close> says that it
  acknowledges our SYN or FIN. A segment that acknowledges our FIN and is a FIN takes two edges at once.\<close>

inductive rfc793 :: "tcp_header \<Rightarrow> bool \<Rightarrow> tcp_state \<Rightarrow> tcp_state \<Rightarrow> bool" for h acked where
  "syn h \<Longrightarrow> rfc793 h acked LISTEN SYN_RECEIVED"
| "syn h \<Longrightarrow> \<not> ack h \<Longrightarrow> rfc793 h acked SYN_SENT SYN_RECEIVED"
| "syn h \<Longrightarrow> acked \<Longrightarrow> rfc793 h acked SYN_SENT ESTABLISHED"
| "acked \<Longrightarrow> rfc793 h acked SYN_RECEIVED ESTABLISHED"
| "fin h \<Longrightarrow> rfc793 h acked ESTABLISHED CLOSE_WAIT"
| "acked \<Longrightarrow> \<not> fin h \<Longrightarrow> rfc793 h acked FIN_WAIT1 FIN_WAIT2"
| "fin h \<Longrightarrow> \<not> acked \<Longrightarrow> rfc793 h acked FIN_WAIT1 CLOSING"
| "fin h \<Longrightarrow> acked \<Longrightarrow> rfc793 h acked FIN_WAIT1 TIME_WAIT"
| "fin h \<Longrightarrow> rfc793 h acked FIN_WAIT2 TIME_WAIT"
| "acked \<Longrightarrow> rfc793 h acked CLOSING TIME_WAIT"
| "acked \<Longrightarrow> rfc793 h acked LAST_ACK CLOSED"

inductive_simps rfc793_simps: "rfc793 h a x y"

text \<open>The steps of the code that are not edges of the diagram: the acknowledgement number is not looked at in
  SYN_SENT and SYN_RECEIVED, anything but a SYN with ACK closes a connection in SYN_SENT, and
  CLOSING is left whatever the segment is.\<close>

inductive strays :: "tcp_header \<Rightarrow> bool \<Rightarrow> tcp_state \<Rightarrow> tcp_state \<Rightarrow> bool" for h acked where
  "syn h \<Longrightarrow> ack h \<Longrightarrow> \<not> acked \<Longrightarrow> strays h acked SYN_SENT ESTABLISHED"
| "\<not> (syn h \<and> ack h) \<Longrightarrow> strays h acked SYN_SENT CLOSED"
| "ack h \<Longrightarrow> \<not> acked \<Longrightarrow> strays h acked SYN_RECEIVED ESTABLISHED"
| "\<not> acked \<Longrightarrow> strays h acked CLOSING TIME_WAIT"

inductive_simps strays_simps: "strays h a x y"

text \<open>The edges that the code does not take: LAST_ACK has no case, and FIN_WAIT2 wants the ACK flag as well.\<close>

definition omits :: "tcp_header \<Rightarrow> tcp_state \<Rightarrow> bool" where
  "omits h x \<longleftrightarrow> x = LAST_ACK \<or> x = FIN_WAIT2 \<and> \<not> ack h"

text \<open>What becomes of a connection: a change of state is an edge or a stray step, and where there is an edge that
  the code does not omit, the state changes.\<close>

definition follows :: "tcp_header \<Rightarrow> tcb \<Rightarrow> tcb \<Rightarrow> bool" where
  "follows h t t' \<longleftrightarrow> (tcb_state t' \<noteq> tcb_state t \<longrightarrow> rfc793 h (acks_all h t) (tcb_state t) (tcb_state t')
       \<or> strays h (acks_all h t) (tcb_state t) (tcb_state t'))
     \<and> (\<forall>x. rfc793 h (acks_all h t) (tcb_state t) x \<longrightarrow> tcb_state t' \<noteq> tcb_state t \<or> omits h (tcb_state t))"

lemma rx_switch_follows:
  assumes "rx_switch h src p dlen (timer_stopped t) m = (t', a, m')" and "tcb_state t \<noteq> CLOSE_WAIT" "tcb_state t \<noteq> SYN_SENT"
  shows "follows h t t'"
proof -
  have s: "tcb_state (timer_stopped t) = tcb_state t" "cur_seq_n (timer_stopped t) = cur_seq_n t" by (simp_all add: timer_stopped_def)
  have e: "tcb_state x = (if fin h then CLOSE_WAIT else tcb_state t)"
    if "rx_established h p dlen (timer_stopped t) m = (x, b, y)" for x b y
    using that s by (auto simp: rx_established_def Let_def split: if_splits prod.splits)
  show ?thesis
    using assms e unfolding follows_def rfc793_simps strays_simps omits_def acks_all_def snd_nxt_def
    by (cases "tcb_state t")
      (auto simp: rx_switch_def s rx_listen_def rx_syn_received_def rx_fin_wait1_def rx_fin_wait2_def rx_closing_def Let_def split: if_splits)
qed

subsection \<open>The switch\<close>

lemma rx_established_shape:
  assumes "rx_established h p dlen t m = (t', a, m')"
  shows "(rx_buf t', m') = (if dlen = 0 then (rx_buf t, m) else circular_buf_push p dlen (rx_buf t) m)"
    and "decrement_timeout t' = decrement_timeout t" and "dlen \<noteq> 0 \<Longrightarrow> a"
  using assms by (auto simp: rx_established_def Let_def split: if_splits prod.splits)

lemma rx_switch_ok:
  assumes sw: "rx_switch h src p dlen (timer_stopped t) m = (t', a, m')" and rep: "cb_rep (rx_buf t) m q"
    and out: "\<And>i. dlen \<le> buf_sz (rx_buf t) \<Longrightarrow> i < unat dlen \<Longrightarrow> \<not> in_area (rx_buf t) (p + of_nat i)"
  obtains q' where "cb_rep (rx_buf t') m' q'" "buffer (rx_buf t') = buffer (rx_buf t)" "buf_sz (rx_buf t') = buf_sz (rx_buf t)"
    "timer_ok t'" "\<And>x. \<not> in_area (rx_buf t) x \<Longrightarrow> m' x = m x" "\<not> a \<Longrightarrow> m' = m"
proof (cases "tcb_state t = ESTABLISHED")
  case True
  then have e: "rx_established h p dlen (timer_stopped t) m = (t', a, m')"
    using sw by (simp add: rx_switch_def timer_stopped_def)
  note sh = rx_established_shape [OF e]
  have b: "rx_buf (timer_stopped t) = rx_buf t" "\<not> decrement_timeout (timer_stopped t)" by (simp_all add: timer_stopped_def)
  have tm: "timer_ok t'" using sh(2) b(2) by (simp add: timer_ok_def)
  show thesis
  proof (cases "dlen = 0")
    case True
    then show thesis using that [of q] sh(1) rep tm by (simp add: b(1))
  next
    case False
    then have push: "circular_buf_push p dlen (rx_buf t) m = (rx_buf t', m')" using sh(1) b(1) by simp
    show thesis
    proof (cases "dlen \<le> buf_sz (rx_buf t)")
      case True
      note r = circular_buf_push_rep [OF rep push out [OF True]]
      show thesis using that [OF r(1)] r(2,3) tm sh(3) [OF False] by blast
    next
      case big: False
      have "free_space (rx_buf t) \<le> buf_sz (rx_buf t)" using rep by (simp add: cb_rep_def word_le_nat_alt)
      then have "free_space (rx_buf t) < dlen" using big by simp
      then have "rx_buf t' = rx_buf t" "m' = m" using push by (simp_all add: circular_buf_push_def)
      then show thesis using that [of q] rep tm by simp
    qed
  qed
next
  case False
  then have "rx_buf t' = rx_buf t" "m' = m" "timer_ok t'"
    using sw by (auto simp: rx_switch_def timer_stopped_def rx_listen_def rx_syn_received_def rx_fin_wait1_def rx_fin_wait2_def
        rx_closing_def timer_ok_def Let_def split: tcp_state.splits if_splits)
  then show thesis using that [of q] rep by simp
qed

subsection \<open>Every segment\<close>

text \<open>What remains of the memory when the sleepers on IP transmission and on TCP have been woken.\<close>

abbreviation tcp_sleepers :: "'a net_scheme \<Rightarrow> u32 set" where
  "tcp_sleepers s \<equiv> nodes (ip4_tx_waitq s) \<union> nodes (tcp_waitq s)"

lemma sleepers_not_owned: "tcp_ok s L \<Longrightarrow> tcp_sleepers s \<inter> tcp_owned s = {}"
  by (auto simp: tcp_ok_def nodes_def all_waits_def)

text \<open>The TCB \<open>r\<close> becomes \<open>t\<close>, its buffer is written to, giving \<open>m\<close>, and a response is sent.\<close>

lemma connection_step:
  assumes tcp: "tcp_ok s L" and rep: "heap_rep s L" and r: "r \<in> set (tcb_head s)"
    and f: "tcbs s' = (tcbs s)(r := t)" "tcb_head s' = tcb_head s" "set (all_waits s') \<subseteq> set (all_waits s)" "without L (tcp_sleepers s) \<subseteq> L'"
    and kp: "keeps (s\<lparr>ram := m\<rparr>) s' (without L (tcp_sleepers s))" and t: "buffer (rx_buf t) = tcb_buf s r" "tcb_ok t m L"
    and m: "keeps s (s\<lparr>ram := m\<rparr>) (L - {(unat (tcb_buf s r), lb)})" "heap_rep (s\<lparr>ram := m\<rparr>) L"
  shows "tcp_ok s' L'" "keeps s s' (without L (insert (tcb_buf s r) (tcp_sleepers s)))"
proof -
  let ?A = "tcp_sleepers s"
  have "tcb_buf s r \<notin> ?A" using sleepers_not_owned [OF tcp] r by (auto simp: tcp_owned_def)
  then have tok: "tcb_ok t (ram s') L'"
    by (intro tcb_ok_keeps [OF _ kp m(2)]) (use t(2) without_in f(4) in \<open>auto simp: t(1)\<close>)
  show k: "keeps s s' (without L (insert (tcb_buf s r) ?A))"
    using keeps_trans [OF keeps_subset [OF m(1)] keeps_subset [OF kp], of "without L (insert (tcb_buf s r) ?A)"]
    by (auto simp: without_def)
  show "tcp_ok s' L'"
    by (rule tcp_ok_step [OF tcp rep, of "{r}" s' ?A L'])
      (use r f t(1) tok k sleepers_not_owned [OF tcp] in auto)
qed

text \<open>The good outcome of \<open>tcp_rx_for\<close>.\<close>

definition rx_done :: "'a net_scheme \<Rightarrow> tcp_header \<Rightarrow> 'a net_scheme option \<Rightarrow> ledger \<Rightarrow> u32 \<Rightarrow> nat \<Rightarrow> bool" where
  "rx_done s h res L r n \<longleftrightarrow> (\<exists>s' L' t. res = Some s' \<and> net_ok s' L' n \<and> tcp_ok s' L' \<and> pkts s' = pkts s \<and> tcb_head s' = tcb_head s
     \<and> tcbs s' = (tcbs s)(r := t) \<and> follows h (tcbs s r) t
     \<and> without L (tcp_sleepers s) \<subseteq> L' \<and> keeps s s' (without L (insert (tcb_buf s r) (tcp_sleepers s))))"

lemma switch_done:
  assumes ok: "net_ok s L (n + tcp_demand 0)" and n: "n = 0 \<or> 16 \<le> n" and tcp: "tcp_ok s L" and r: "r \<in> set (tcb_head s)"
    and st: "tcb_state (tcbs s r) \<noteq> CLOSE_WAIT" "tcb_state (tcbs s r) \<noteq> SYN_SENT"
    and out: "\<And>i. dlen \<le> buf_sz (rx_buf (tcbs s r)) \<Longrightarrow> i < unat dlen
      \<Longrightarrow> \<not> in_area (rx_buf (tcbs s r)) (pkt_cur_data (pkts s pkt) + of_nat i)"
  shows "rx_done s h (tcp_rx_for pkt r h dlen s) L r n"
proof -
  let ?A = "tcp_sleepers s" and ?t = "tcbs s r" and ?src = "pkt_src_ip (pkts s pkt)"
  obtain q lb where c: "cb_rep (rx_buf ?t) (ram s) q" "live_area L (rx_buf ?t) lb" using tcp_okD [OF tcp r] by blast
  obtain t a m where sw: "rx_switch h ?src (pkt_cur_data (pkts s pkt)) dlen (timer_stopped ?t) (ram s) = (t, a, m)"
    by (cases "rx_switch h ?src (pkt_cur_data (pkts s pkt)) dlen (timer_stopped ?t) (ram s)") auto
  obtain q' where x: "cb_rep (rx_buf t) m q'" "buffer (rx_buf t) = tcb_buf s r" "buf_sz (rx_buf t) = buf_sz (rx_buf ?t)"
    "timer_ok t" "\<And>x. \<not> in_area (rx_buf ?t) x \<Longrightarrow> m x = ram s x" "\<not> a \<Longrightarrow> m = ram s"
    by (rule rx_switch_ok [OF sw c(1) out]; (assumption | (rule that; assumption)))
  have tok: "tcb_ok t m L" using x(1-4) c(2) by (auto simp: tcb_ok_def live_area_def)
  note w = write_area [OF ok c(2) x(5)]
  note st' = connection_step [OF tcp net_okD(4) [OF ok] r _ _ _ _ _ x(2) tok w(2) net_okD(4) [OF w(1)]]
  show ?thesis
  proof (cases a)
    case True
    show ?thesis
    proof (rule tcp_rx_for_acks [OF sw [unfolded eqTrueI [OF True]] st w(1) n])
      fix s' and obj buf :: u32 and lo lb'
      let ?L = "{(unat buf, lb'), (unat obj, lo)} \<union> without L ?A"
      assume e: "tcp_rx_for pkt r h dlen s = Some s'" "tcbs s' = (tcbs s)(r := t)" "tcb_head s' = tcb_head s" "pkts s' = pkts s"
        "set (all_waits s') \<subseteq> set (all_waits s)" "net_ok s' ?L n" "keeps (s\<lparr>ram := m\<rparr>) s' (without L ?A)"
      show ?thesis unfolding rx_done_def using st' [OF e(2,3,5) _ e(7), of ?L] e(1-4,6) rx_switch_follows [OF sw st] by blast
    qed
  next
    case False
    then have sw': "rx_switch h ?src (pkt_cur_data (pkts s pkt)) dlen (timer_stopped ?t) (ram s) = (t, False, ram s)"
      using sw x(6) by simp
    show ?thesis
    proof (rule tcp_rx_for_silent [OF sw' st net_ok_mono [OF ok le_add1]])
      fix s' assume e: "tcp_rx_for pkt r h dlen s = Some s'" "tcbs s' = (tcbs s)(r := t)" "tcb_head s' = tcb_head s" "pkts s' = pkts s"
        "set (all_waits s') \<subseteq> set (all_waits s)" "net_ok s' (without L (nodes (tcp_waitq s))) n" "keeps s s' (without L (nodes (tcp_waitq s)))"
      have sub: "without L ?A \<subseteq> without L (nodes (tcp_waitq s))" by (rule without_mono) blast
      have kp: "keeps (s\<lparr>ram := m\<rparr>) s' (without L ?A)" using keeps_subset [OF e(7) sub] x(6) [OF False] by simp
      show ?thesis unfolding rx_done_def using st' [OF e(2,3,5) sub kp] sub e(1-4,6) rx_switch_follows [OF sw st] by blast
    qed
  qed
qed

lemma syn_sent_done:
  assumes ok: "net_ok s L (n + tcp_demand 0)" and n: "n = 0 \<or> 16 \<le> n" and tcp: "tcp_ok s L" and r: "r \<in> set (tcb_head s)"
    and st: "tcb_state (tcbs s r) = SYN_SENT"
  shows "rx_done s h (tcp_rx_for pkt r h dlen s) L r n"
proof -
  let ?A = "tcp_sleepers s" and ?t = "timer_stopped (tcbs s r)"
  obtain q lb where c: "cb_rep (rx_buf (tcbs s r)) (ram s) q" "live_area L (rx_buf (tcbs s r)) lb" using tcp_okD [OF tcp r] by blast
  have t: "tcb_ok t (ram s) L" if "rx_buf t = rx_buf (tcbs s r)" "\<not> decrement_timeout t" for t
    using c that by (auto simp: tcb_ok_def timer_ok_def)
  have same: "keeps s (s\<lparr>ram := ram s\<rparr>) (L - {(unat (tcb_buf s r), lb)})" "heap_rep (s\<lparr>ram := ram s\<rparr>) L" using net_okD(4) [OF ok] by simp_all
  note st' = connection_step [OF tcp net_okD(4) [OF ok] r _ _ _ _ _ _ t same]
  show ?thesis
  proof (cases "syn h \<and> ack h")
    case True
    let ?t1 = "?t\<lparr>cur_seq_n := cur_seq_n ?t + 1, cur_ack_n := seq_n h + 1, host_window_sz := window_sz h\<rparr>"
    let ?T = "(tcbs s)(r := ?t1\<lparr>tcb_state := ESTABLISHED\<rparr>)"
    define s1 where "s1 = s\<lparr>tcbs := (tcbs s)(r := ?t1)\<rparr>"
    have ok1: "net_ok s1 L (n + tcp_demand 0)" using ok by (simp add: s1_def)
    have f1: "tcbs s1 r = ?t1" "tcb_head s1 = tcb_head s" "pkts s1 = pkts s" "all_waits s1 = all_waits s"
      "ip4_tx_waitq s1 = ip4_tx_waitq s" "tcp_waitq s1 = tcp_waitq s" "ram s1 = ram s" by (simp_all add: s1_def all_waits_def)
    show ?thesis
    proof (rule send_then_wake [OF ok1 n ack_segment_checksum [of ?t1], where dest = "dst_ip (tcbs s r)" and T = ?T, unfolded f1(2-6)])
      fix s2 s' and obj buf :: u32 and lo lb'
      let ?L = "{(unat buf, lb'), (unat obj, lo)} \<union> without L ?A"
      assume e: "tcp_tx (ack_segment ?t1) (dst_ip (tcbs s r)) 0 0 s1 = Some s2" "tcbs s2 = tcbs s1"
        "wake_tcp (s2\<lparr>tcbs := ?T\<rparr>) = Some s'" "tcbs s' = ?T" "tcb_head s' = tcb_head s" "pkts s' = pkts s"
        "set (all_waits s') \<subseteq> set (all_waits s)" "net_ok s' ?L n" "keeps s1 s' (without L ?A)"
      have s2: "s2\<lparr>tcbs := (tcbs s2)(r := (tcbs s2 r)\<lparr>tcb_state := ESTABLISHED\<rparr>)\<rparr> = s2\<lparr>tcbs := ?T\<rparr>"
        by (simp add: e(2)) (simp add: s1_def)
      have s1: "set_tcb r (\<lambda>t. t\<lparr>cur_seq_n := cur_seq_n t + 1, cur_ack_n := seq_n h + 1, host_window_sz := window_sz h\<rparr>)
          (set_tcb r (\<lambda>t. t\<lparr>decrement_timeout := False, timed_out := False, timeout := 0\<rparr>) s) = s1"
        by (simp add: set_tcb_def s1_def timer_stopped_def)
      have "tcp_rx_for pkt r h dlen s = Some s'"
        using e(1,3) st True unfolding tcp_rx_for_def rx_syn_sent_def Let_def s1
        by (simp add: f1(1) ack_segment_def [symmetric]) (simp add: set_tcb_def s2 timer_stopped_def)
      moreover have "keeps (s\<lparr>ram := ram s\<rparr>) s' (without L ?A)" using e(9) by (simp add: keeps_def f1(7))
      moreover have "follows h (tcbs s r) (?t1\<lparr>tcb_state := ESTABLISHED\<rparr>)"
        using st True by (auto simp: follows_def rfc793_simps strays_simps acks_all_def)
      ultimately show ?thesis
        unfolding rx_done_def using st' [OF e(4,5,7), of ?L] e(4,5,6,8) by (simp add: timer_stopped_def) blast
    qed
  next
    case False
    show ?thesis
    proof (rule set_then_wake [OF net_ok_mono [OF ok le_add1], of "(tcbs s)(r := ?t\<lparr>tcb_state := CLOSED\<rparr>)"])
      fix s' assume e: "wake_tcp (s\<lparr>tcbs := (tcbs s)(r := ?t\<lparr>tcb_state := CLOSED\<rparr>)\<rparr>) = Some s'"
        "tcbs s' = (tcbs s)(r := ?t\<lparr>tcb_state := CLOSED\<rparr>)" "tcb_head s' = tcb_head s" "pkts s' = pkts s"
        "set (all_waits s') \<subseteq> set (all_waits s)" "net_ok s' (without L (nodes (tcp_waitq s))) n" "keeps s s' (without L (nodes (tcp_waitq s)))"
      have sub: "without L ?A \<subseteq> without L (nodes (tcp_waitq s))" by (rule without_mono) blast
      have "tcp_rx_for pkt r h dlen s = Some s'"
        using e(1) False st by (simp add: tcp_rx_for_def rx_syn_sent_def set_tcb_def timer_stopped_def Let_def) blast
      moreover have "keeps (s\<lparr>ram := ram s\<rparr>) s' (without L ?A)" using keeps_subset [OF e(7) sub] by simp
      moreover have "follows h (tcbs s r) (?t\<lparr>tcb_state := CLOSED\<rparr>)"
        using st False by (auto simp: follows_def strays_simps rfc793_simps)
      ultimately show ?thesis
        unfolding rx_done_def using st' [OF e(2,3,5) sub] sub e(2,3,4,6) by (simp add: timer_stopped_def) blast
    qed
  qed
qed

lemma find_tcb_mem: "find_tcb h src s = Some r \<Longrightarrow> r \<in> set (tcb_head s)"
  by (auto simp: find_tcb_def find_Some_iff split: option.splits)

lemma reset_response_checksum [simp]: "tcp_checksum (reset_response h d) = 0"
  by (simp add: reset_response_def zero_header_def Let_def)

text \<open>The header of the packet has been swapped in place, and the connections are as they were.\<close>

lemma tcp_hlen_bound: "unat (tcp_hlen s pkt) \<le> 60"
proof -
  have "unat (data_offset (segment_in s pkt)) < 16" using unsigned_less [of "data_offset (segment_in s pkt)"] by simp
  moreover have "unat (tcp_hlen s pkt) = unat (data_offset (segment_in s pkt)) * 4"
    unfolding tcp_hlen_def using calculation by (subst unat_mult_lem [THEN iffD1]) (simp_all add: unsigned_ucast_eq take_bit_nat_eq_self)
  ultimately show ?thesis by simp
qed

lemma after_header_tcp:
  assumes ok: "net_ok s L n" and p: "tcp_frame s L pkt F k lf" and tcp: "tcp_ok s L" and F: "F \<notin> tcp_owned s"
  shows "tcp_ok (after_header s pkt) L" "tcp_sleepers (after_header s pkt) = tcp_sleepers s"
    "keeps s (after_header s pkt) (without L {F})"
    "r \<in> set (tcb_head s) \<Longrightarrow> tcp_dlen s pkt \<le> buf_sz (rx_buf (tcbs s r)) \<Longrightarrow> i < unat (tcp_dlen s pkt)
      \<Longrightarrow> \<not> in_area (rx_buf (tcbs s r)) (tcp_payload s pkt + of_nat i)"
proof -
  let ?s = "after_header s pkt"
  note f = after_header_fields [of s pkt]
  have "(unat F, lf) \<in> L" using p by (simp add: tcp_frame_def)
  from without_one [OF net_okD(4) [OF ok] this] after_frame_ok(2) [OF ok p]
  show kp: "keeps s ?s (without L {F})" by simp
  have "all_waits ?s = all_waits s" by (simp add: after_header_def all_waits_def)
  moreover have "without L {F} \<subseteq> L" by (auto simp: without_def)
  ultimately show "tcp_ok ?s L"
    by (intro tcp_ok_step [OF tcp net_okD(4) [OF ok], of "{}" ?s "{F}" L]) (use f kp F in auto)
  show "tcp_sleepers ?s = tcp_sleepers s" by (simp add: f)
  assume r: "r \<in> set (tcb_head s)" and small: "tcp_dlen s pkt \<le> buf_sz (rx_buf (tcbs s r))" and i: "i < unat (tcp_dlen s pkt)"
  let ?len = "pkt_cur_data_length (pkts s pkt)" and ?hl = "tcp_hlen s pkt"
  obtain lb where a: "live_area L (rx_buf (tcbs s r)) lb" using tcp_okD [OF tcp r] by blast
  have "unat (tcp_dlen s pkt) \<le> lb" using small a by (simp add: live_area_def word_le_nat_alt)
  moreover have "lb < 2 ^ 31" using a heap_rep_bounds [OF net_okD(4) [OF ok], of "unat (tcb_buf s r)" lb] by (auto simp: live_area_def heap_base_def heap_size_def)
  ultimately have sm: "unat (?len - ?hl) < 2 ^ 31" by (simp add: tcp_dlen_def)
  have "?hl \<le> ?len"
  proof (rule ccontr)
    assume "\<not> ?hl \<le> ?len"
    then have "unat ?len < unat ?hl" by (simp add: word_le_nat_alt)
    then have "unat (?len - ?hl) = 2 ^ 32 + unat ?len - unat ?hl" by (simp add: unat_sub_if')
    then show False using sm tcp_hlen_bound [of s pkt] by simp
  qed
  then have d: "unat (tcp_dlen s pkt) = unat ?len - unat ?hl" "unat ?hl \<le> unat ?len"
    by (simp_all add: tcp_dlen_def unat_sub word_le_nat_alt)
  then have fit: "k + unat (tcp_hlen s pkt) + unat (tcp_dlen s pkt) \<le> lf" using p by (simp add: tcp_frame_def)
  have "F \<noteq> tcb_buf s r" using F r by (auto simp: tcp_owned_def)
  moreover have "tcp_payload s pkt = F + of_nat (k + unat (tcp_hlen s pkt))" using p by (simp add: tcp_payload_def tcp_frame_def)
  ultimately show "\<not> in_area (rx_buf (tcbs s r)) (tcp_payload s pkt + of_nat i)"
    using outside_area [OF net_okD(4) [OF ok] a \<open>(unat F, lf) \<in> L\<close> _ fit i] by simp
qed

text \<open>A segment that is sent leaves the table as it is.\<close>

lemma segment_sent:
  assumes ok: "net_ok s L (n + tcp_demand (unat len))" and n: "n = 0 \<or> 16 \<le> n" and tcp: "tcp_ok s L"
    and src: "live_bytes L p (unat len)" "unat len \<le> 2048" and z: "tcp_checksum h = 0"
  shows "\<exists>s' L'. tcp_tx h dest p len s = Some s' \<and> net_ok s' L' n \<and> tcp_ok s' L' \<and> pkts s' = pkts s
     \<and> tcbs s' = tcbs s \<and> tcb_head s' = tcb_head s \<and> without L (tcp_sleepers s) \<subseteq> L' \<and> keeps s s' (without L (tcp_sleepers s))"
proof (rule tcp_tx_ok [OF ok n src z, where dest = dest])
  fix obj buf :: u32 and lo lb m pr
  let ?s = "ip4_queued obj IP_PROTO_TCP dest buf (ucast (20 + len)) m pr s"
  let ?K = "insert (unat buf, lb) (insert (unat obj, lo) (without L (nodes (ip4_tx_waitq s))))"
  assume e: "tcp_tx h dest p len s = Some ?s" "net_ok ?s ?K n" "keeps s (s\<lparr>ram := m\<rparr>) (without L (nodes (ip4_tx_waitq s)))"
  have sub: "without L (tcp_sleepers s) \<subseteq> without L (nodes (ip4_tx_waitq s))" by (rule without_mono) blast
  then have L': "without L (tcp_sleepers s) \<subseteq> ?K" by blast
  have kp: "keeps s ?s (without L (tcp_sleepers s))" using keeps_subset [OF e(3) sub] by (simp add: keeps_def)
  have "set (all_waits ?s) \<subseteq> set (all_waits s)" by (auto simp: all_waits_def)
  then have "tcp_ok ?s ?K"
    using sleepers_not_owned [OF tcp] kp L' by (intro tcp_ok_step [OF tcp net_okD(4) [OF ok], of "{}" ?s "tcp_sleepers s" ?K]) simp_all
  with e(1,2) kp L' show ?thesis by (intro exI [of _ ?s] exI [of _ ?K]) simp
qed

lemma live_bytes_0 [simp]: "live_bytes L p 0"
  by (simp add: live_bytes_def)

text \<open>A segment for no connection.\<close>

lemmas no_connection = segment_sent [where len = 0 and p = 0, simplified, OF _ _ _ reset_response_checksum]

text \<open>What the segment does to the TCBs.\<close>

definition segment_outcome :: "'a net_scheme \<Rightarrow> u32 \<Rightarrow> 'a net_scheme \<Rightarrow> bool" where
  "segment_outcome s pkt s' \<longleftrightarrow> (case find_tcb (segment_in s pkt) (pkt_src_ip (pkts s pkt)) s of None \<Rightarrow> tcbs s' = tcbs s
     | Some r \<Rightarrow> \<exists>t. tcbs s' = (tcbs s)(r := t) \<and> follows (segment_in s pkt) (tcbs s r) t)"

lemma segment_handled:
  assumes ok: "net_ok s L (n + tcp_demand 0)" and n: "n = 0 \<or> 16 \<le> n"
    and p: "tcp_frame s L pkt F k lf" and tcp: "tcp_ok s L" and F: "F \<notin> tcp_owned s"
    and cw: "\<And>r. find_tcb (segment_in s pkt) (pkt_src_ip (pkts s pkt)) s = Some r \<Longrightarrow> tcb_state (tcbs s r) \<noteq> CLOSE_WAIT"
  shows "\<exists>s' L'. tcp_rx_packet pkt s = Some s' \<and> net_ok s' L' n \<and> tcp_ok s' L' \<and> tcb_head s' = tcb_head s
     \<and> pkt_handler (pkts s' pkt) = DROP \<and> without L (tcp_sleepers s) \<subseteq> L' \<and> segment_outcome s pkt s'
     \<and> keeps s s' (without L ({F} \<union> tcb_buf s ` set (tcb_head s) \<union> tcp_sleepers s))"
proof -
  let ?s = "after_header s pkt" and ?h = "segment_in s pkt" and ?A = "tcp_sleepers s" and ?src = "pkt_src_ip (pkts s pkt)"
  let ?K = "without L ({F} \<union> tcb_buf s ` set (tcb_head s) \<union> ?A)"
  note f = after_header_fields [of s pkt]
  note a = after_header_tcp [OF ok p tcp F]
  note ok1 = after_frame_ok(1) [OF ok p]
  have k1: "keeps s ?s ?K" by (rule keeps_subset [OF a(3)]) (auto simp: without_def)
  show ?thesis
  proof (cases "find_tcb ?h ?src s")
    case None
    show ?thesis
    proof (cases "rst ?h")
      case True
      have "without L ?A \<subseteq> L" by (auto simp: without_def)
      then show ?thesis
        using tcp_rx_start [of pkt s] None True net_ok_mono [OF ok1 le_add1] a(1) k1 f(1,2,7)
        by (intro exI [of _ ?s] exI [of _ L]) (simp add: segment_outcome_def)
    next
      case False
      obtain s' L' where e: "tcp_tx (reset_response ?h (tcp_dlen s pkt)) ?src 0 0 ?s = Some s'" "net_ok s' L' n" "tcp_ok s' L'"
        "pkts s' = pkts ?s" "tcbs s' = tcbs s" "tcb_head s' = tcb_head s" "without L ?A \<subseteq> L'" "keeps ?s s' (without L ?A)"
        using no_connection [OF ok1 n a(1), unfolded a(2) f(1,2)] by blast
      have "keeps ?s s' ?K" by (rule keeps_subset [OF e(8)]) (auto simp: without_def)
      then show ?thesis
        using tcp_rx_start [of pkt s] None False e keeps_trans [OF k1] f(7)
        by (intro exI [of _ s'] exI [of _ L']) (simp add: segment_outcome_def)
    qed
  next
    case (Some r)
    note r = find_tcb_mem [OF Some]
    have "rx_done ?s ?h (tcp_rx_for pkt r ?h (tcp_dlen s pkt) ?s) L r n"
      using switch_done [OF ok1 n a(1), unfolded f, OF r, of "tcp_dlen s pkt" pkt] syn_sent_done [OF ok1 n a(1), unfolded f, OF r]
        cw [OF Some] a(4) [OF r] f(9)
      by (cases "tcb_state (tcbs s r) = SYN_SENT") simp_all
    then obtain s' L' t where e: "tcp_rx_for pkt r ?h (tcp_dlen s pkt) ?s = Some s'" "net_ok s' L' n" "tcp_ok s' L'" "pkts s' = pkts ?s"
      "tcbs s' = (tcbs s)(r := t)" "follows ?h (tcbs s r) t" "tcb_head s' = tcb_head s" "without L ?A \<subseteq> L'" "keeps ?s s' (without L (insert (tcb_buf s r) ?A))"
      unfolding rx_done_def a(2) f by blast
    have "keeps ?s s' ?K" by (rule keeps_subset [OF e(9)]) (use r in \<open>auto simp: without_def\<close>)
    then show ?thesis
      using tcp_rx_start [of pkt s] Some e keeps_trans [OF k1] f(7)
      by (intro exI [of _ s'] exI [of _ L']) (auto simp: segment_outcome_def)
  qed
qed

text \<open>C7: whatever segment arrives whose packet and 20 header bytes lie in their frame, whatever its data offset (below 5
  and behind the end of the packet included) and its flags, for whichever connection that is not in
  CLOSE_WAIT or for none, the handler returns and the table of connections stays well-formed: every TCB is an allocation and has a
  receive buffer of its own that is a circular buffer, and timers run in SYN_SENT and TIME_WAIT only.
  The packet is marked for dropping, no connection is added or removed, and the only memory that
  changes is the packet's frame, receive buffers and what belonged to sleepers that were woken. (The code does not
  check that the header lies in the frame; a shorter one is read and swapped behind it.)\<close>

theorem tcp_connections_well_typed:
  assumes ok: "net_ok s L (n + tcp_demand 0)" and n: "n = 0 \<or> 16 \<le> n"
    and p: "tcp_frame s L pkt F k lf" and tcp: "tcp_ok s L" and F: "F \<notin> tcp_owned s"
    and cw: "\<And>r. find_tcb (segment_in s pkt) (pkt_src_ip (pkts s pkt)) s = Some r \<Longrightarrow> tcb_state (tcbs s r) \<noteq> CLOSE_WAIT"
  shows "\<exists>s' L'. tcp_rx_packet pkt s = Some s' \<and> net_ok s' L' n \<and> tcp_ok s' L' \<and> tcb_head s' = tcb_head s
     \<and> pkt_handler (pkts s' pkt) = DROP \<and> without L (tcp_sleepers s) \<subseteq> L'
     \<and> keeps s s' (without L ({F} \<union> tcb_buf s ` set (tcb_head s) \<union> tcp_sleepers s))"
  using segment_handled [OF assms] by blast


subsection \<open>The timer\<close>

text \<open>What a tick does to a TCB, and which ones it gives back.\<close>

definition ticked :: "tcb \<Rightarrow> tcb" where
  "ticked t = (if \<not> decrement_timeout t then t
     else if timeout t = 0 then t\<lparr>timeout := - 1, timed_out := True, decrement_timeout := False\<rparr>
     else t\<lparr>timeout := timeout t - 1\<rparr>)"

definition expires :: "tcb \<Rightarrow> bool" where
  "expires t \<longleftrightarrow> decrement_timeout t \<and> timeout t = 0 \<and> tcb_state t = TIME_WAIT"

definition freed_tcbs :: "'a net_scheme \<Rightarrow> u32 set \<Rightarrow> u32 set" where
  "freed_tcbs s X = (\<Union>r \<in> {r \<in> X. expires (tcbs s r)}. {r, tcb_buf s r})"

text \<open>The timers of the connections \<open>X\<close> have made a step.\<close>

definition tick_done :: "'a net_scheme \<Rightarrow> ledger \<Rightarrow> u32 set \<Rightarrow> 'a net_scheme \<Rightarrow> nat \<Rightarrow> bool" where
  "tick_done s L X s' n \<longleftrightarrow> tcb_head s' = filter (\<lambda>r. r \<notin> X \<or> \<not> expires (tcbs s r)) (tcb_head s)
     \<and> (\<forall>r \<in> set (tcb_head s'). tcbs s' r = (if r \<in> X then ticked (tcbs s r) else tcbs s r))
     \<and> net_ok s' (without L (freed_tcbs s X)) n \<and> tcp_ok s' (without L (freed_tcbs s X))
     \<and> keeps s s' (without L (freed_tcbs s X))"

lemma ticked_fields [simp]: "rx_buf (ticked t) = rx_buf t" "tcb_state (ticked t) = tcb_state t"
  by (simp_all add: ticked_def)

lemma timer_ok_ticked: "timer_ok t \<Longrightarrow> timer_ok (ticked t)"
proof -
  have "unat (v - 1) = unat v - 1" if "v \<noteq> 0" for v :: u16
    using that by (simp add: unat_sub word_le_nat_alt Suc_leI unat_gt_0)
  then show "timer_ok t \<Longrightarrow> timer_ok (ticked t)" by (auto simp: timer_ok_def ticked_def word_le_nat_alt)
qed

lemma tick_running:
  assumes ok: "net_ok s L n" and tcp: "tcp_ok s L" and c: "c \<in> set (tcb_head s)" and x: "\<not> expires (tcbs s c)"
  shows "tick_done s L {c} (s\<lparr>tcbs := (tcbs s)(c := ticked (tcbs s c))\<rparr>) n"
proof -
  let ?s = "s\<lparr>tcbs := (tcbs s)(c := ticked (tcbs s c))\<rparr>"
  have "tcb_ok (tcbs s c) (ram s) L" using tcp c by (simp add: tcp_ok_def)
  then have t: "tcb_ok (ticked (tcbs s c)) (ram s) L" using timer_ok_ticked by (simp add: tcb_ok_def)
  have "tcp_ok ?s L"
    by (rule tcp_ok_step [OF tcp net_okD(4) [OF ok], of "{c}" ?s "{}" L])
      (use c t in \<open>simp_all add: all_waits_def keeps_def\<close>)
  moreover have "freed_tcbs s {c} = {}" "filter (\<lambda>r. r \<notin> {c} \<or> \<not> expires (tcbs s r)) (tcb_head s) = tcb_head s"
    using x by (auto simp: freed_tcbs_def filter_id_conv)
  ultimately show ?thesis using ok by (simp add: tick_done_def keeps_def)
qed

lemma tcp_ok_remove:
  assumes tcp: "tcp_ok s L" and rep: "heap_rep s L" and c: "c \<in> set (tcb_head s)"
    and f: "tcb_head s' = remove1 c (tcb_head s)" "\<And>x. x \<noteq> c \<Longrightarrow> tcbs s' x = tcbs s x" "all_waits s' = all_waits s"
    and kp: "keeps s s' (without L {c, tcb_buf s c})" and L': "without L {c, tcb_buf s c} \<subseteq> L'"
  shows "tcp_ok s' L'"
proof -
  have d: "distinct (tcb_head s)" and inj: "inj_on (tcb_buf s) (set (tcb_head s))"
    and dj: "set (tcb_head s) \<inter> tcb_buf s ` set (tcb_head s) = {}" using tcp by (auto simp: tcp_ok_def)
  have H: "set (tcb_head s') = set (tcb_head s) - {c}" "distinct (tcb_head s')" using d by (simp_all add: f(1))
  have bufs: "tcb_buf s' x = tcb_buf s x" if "x \<in> set (tcb_head s')" for x using f(2) [of x] that by (simp add: H(1))
  then have im: "tcb_buf s' ` set (tcb_head s') = tcb_buf s ` set (tcb_head s')" by (rule image_cong [OF refl])
  have inj': "inj_on (tcb_buf s') (set (tcb_head s'))"
    by (rule iffD2 [OF inj_on_cong [OF bufs] inj_on_subset [OF inj]]) (auto simp: H(1))
  have each: "(\<exists>l. (unat x, l) \<in> L') \<and> tcb_ok (tcbs s' x) (ram s') L'"
    if x: "x \<in> set (tcb_head s')" for x
  proof
    have x': "x \<in> set (tcb_head s)" "x \<noteq> c" using x by (simp_all add: H(1))
    have ne: "x \<noteq> tcb_buf s c" "tcb_buf s x \<noteq> c" "tcb_buf s x \<noteq> tcb_buf s c" using dj inj x' c by (auto dest: inj_onD)
    obtain l where "(unat x, l) \<in> L" using tcp x'(1) by (auto simp: tcp_ok_def)
    then show "\<exists>l. (unat x, l) \<in> L'" using without_in [of x l L "{c, tcb_buf s c}"] x'(2) ne(1) L' by auto
    have "tcb_ok (tcbs s x) (ram s) L" using tcp x'(1) by (simp add: tcp_ok_def)
    then have "tcb_ok (tcbs s x) (ram s') L'"
      by (rule tcb_ok_keeps [OF _ kp rep]) (use without_in ne L' in auto)
    then show "tcb_ok (tcbs s' x) (ram s') L'" using f(2) x'(2) by simp
  qed
  have "tcp_owned s' \<subseteq> tcp_owned s" unfolding tcp_owned_def im using H(1) by auto
  moreover have "set (tcb_head s') \<inter> tcb_buf s' ` set (tcb_head s') = {}" unfolding im using dj H(1) by auto
  moreover have "tcp_owned s \<inter> nodes (all_waits s) = {}" using tcp by (simp add: tcp_ok_def)
  ultimately show ?thesis unfolding tcp_ok_def f(3) using H(2) inj' each by blast
qed

lemma tick_expires:
  assumes ok: "net_ok s L n" and tcp: "tcp_ok s L" and c: "c \<in> set (tcb_head s)" and x: "tcb_state (tcbs s c) = TIME_WAIT"
    and e: "expires (tcbs s c)"
  obtains s' where "tcb_expire c (set_tcb c (\<lambda>t. t\<lparr>timeout := v\<rparr>) s) = Some s'" "tick_done s L {c} s' n"
proof -
  let ?b = "tcb_buf s c"
  obtain lb l where o: "(unat ?b, lb) \<in> L" "(unat c, l) \<in> L" "?b \<notin> nodes (all_waits s)" "c \<notin> nodes (all_waits s)" "?b \<noteq> c"
    using tcp_okD [OF tcp c] by (metis live_area_def)
  define s1 where "s1 = s\<lparr>tcbs := (tcbs s)(c := (tcbs s c)\<lparr>timeout := v, timed_out := True, decrement_timeout := False\<rparr>),
    tcb_head := remove1 c (tcb_head s)\<rparr>"
  have ok1: "net_ok s1 L n" and w1: "?b \<notin> nodes (all_waits s1)" using ok o(3) by (simp_all add: s1_def all_waits_def)
  obtain m1 where f1: "free_mem ?b s1 = s1\<lparr>ram := m1\<rparr>" "net_ok (s1\<lparr>ram := m1\<rparr>) (without L {?b}) n"
    "keeps s1 (s1\<lparr>ram := m1\<rparr>) (without L {?b})" by (rule free_mem_net [OF ok1 o(1) w1])
  define cb where "cb = (rx_buf (tcbs s c))\<lparr>buffer := 0, tail := 0, head := 0, buf_sz := 0\<rparr>"
  define s2 where "s2 = s1\<lparr>ram := m1, tcbs := (tcbs s1)(c := (tcbs s1 c)\<lparr>rx_buf := cb\<rparr>)\<rparr>"
  have ok2: "net_ok s2 (without L {?b}) n" using f1(2) by (rule net_ok_same) (simp_all add: s2_def s1_def all_waits_def)
  have w2: "c \<notin> nodes (all_waits s2)" "(unat c, l) \<in> without L {?b}"
    using o(4) without_in [OF o(2), of "{?b}"] o(5) by (simp_all add: s2_def s1_def all_waits_def)
  obtain m2 where f2: "free_mem c s2 = s2\<lparr>ram := m2\<rparr>" "net_ok (s2\<lparr>ram := m2\<rparr>) (without (without L {?b}) {c}) n"
    "keeps s2 (s2\<lparr>ram := m2\<rparr>) (without (without L {?b}) {c})" by (rule free_mem_net [OF ok2 w2(2,1)])
  let ?s = "s2\<lparr>ram := m2\<rparr>" and ?A = "{c, ?b}"
  have b1: "rx_buf (tcbs s1 c) = rx_buf (tcbs s c)" by (simp add: s1_def)
  have "tcb_expire c (set_tcb c (\<lambda>t. t\<lparr>timeout := v\<rparr>) s) = (let (cb, s) = circular_buf_free (rx_buf (tcbs s1 c)) s1;
      s = set_tcb c (\<lambda>t. t\<lparr>rx_buf := cb\<rparr>) s in Some (free_mem c s))"
    using x c by (simp add: tcb_expire_def set_tcb_def tcb_del_def s1_def split: prod.splits)
  also have "\<dots> = Some ?s"
    unfolding circular_buf_free_def b1 f1(1) Let_def prod.case using f2(1) by (simp add: set_tcb_def s2_def cb_def b1)
  finally have run: "tcb_expire c (set_tcb c (\<lambda>t. t\<lparr>timeout := v\<rparr>) s) = Some ?s" .
  have L: "without (without L {?b}) {c} = without L ?A" by (simp add: without_without insert_commute)
  have kp: "keeps s ?s (without L ?A)" using f1(3) f2(3) unfolding L by (auto simp: keeps_def s1_def s2_def without_def)
  have flds: "tcb_head ?s = remove1 c (tcb_head s)" "\<And>y. y \<noteq> c \<Longrightarrow> tcbs ?s y = tcbs s y" "all_waits ?s = all_waits s"
    by (simp_all add: s1_def s2_def all_waits_def)
  have fr: "freed_tcbs s {c} = ?A" using e by (auto simp: freed_tcbs_def)
  have d: "distinct (tcb_head s)" using tcp by (simp add: tcp_ok_def)
  have "tcb_head ?s = filter (\<lambda>r. r \<notin> {c} \<or> \<not> expires (tcbs s r)) (tcb_head s)"
    unfolding flds(1) distinct_remove1_removeAll [OF d] using e by (auto simp: removeAll_filter_not_eq intro: filter_cong)
  moreover have "c \<notin> set (tcb_head ?s)" using d by (simp add: flds(1))
  ultimately have "tick_done s L {c} ?s n"
    unfolding tick_done_def fr using f2(2) [unfolded L] tcp_ok_remove [OF tcp net_okD(4) [OF ok] c flds kp subset_refl] kp flds(2) by auto
  with run show thesis by (rule that)
qed

lemma tick_done_trans:
  assumes a: "tick_done s L {c} s1 n" and b: "tick_done s1 (without L (freed_tcbs s {c})) R s2 n"
    and c: "c \<notin> R" "R \<subseteq> set (tcb_head s)"
  shows "tick_done s L (insert c R) s2 n"
proof -
  have H: "set (tcb_head s1) = {r \<in> set (tcb_head s). r \<noteq> c \<or> \<not> expires (tcbs s r)}" using a by (auto simp: tick_done_def)
  have same: "tcbs s1 r = tcbs s r" if "r \<in> R" for r
    using a that c by (auto simp: tick_done_def H split: if_splits)
  then have fr: "freed_tcbs s (insert c R) = freed_tcbs s {c} \<union> freed_tcbs s1 R" by (auto simp: freed_tcbs_def)
  have hd: "tcb_head s2 = filter (\<lambda>r. r \<notin> insert c R \<or> \<not> expires (tcbs s r)) (tcb_head s)"
    using a b same c by (auto simp: tick_done_def intro!: filter_cong)
  have each: "tcbs s2 r = (if r \<in> insert c R then ticked (tcbs s r) else tcbs s r)" if r: "r \<in> set (tcb_head s2)" for r
  proof -
    have "r \<in> set (tcb_head s1)" using r b by (auto simp: tick_done_def)
    then show ?thesis using a b r same c(1) by (auto simp: tick_done_def)
  qed
  have sub: "without L (freed_tcbs s {c} \<union> freed_tcbs s1 R) \<subseteq> without L (freed_tcbs s {c})" by (rule without_mono) blast
  have "keeps s s1 (without L (freed_tcbs s {c}))" "keeps s1 s2 (without L (freed_tcbs s {c} \<union> freed_tcbs s1 R))"
    using a b by (simp_all add: tick_done_def without_without)
  then have "keeps s s2 (without L (freed_tcbs s {c} \<union> freed_tcbs s1 R))"
    using keeps_trans keeps_subset [OF _ sub] by blast
  then show ?thesis using b hd each by (simp add: tick_done_def fr without_without)
qed

lemma tcp_tick_loop_ok:
  assumes "net_ok s L n" "tcp_ok s L" "distinct cs" "set cs \<subseteq> set (tcb_head s)"
  shows "\<exists>s'. tcp_tick_loop cs s = Some s' \<and> tick_done s L (set cs) s' n"
  using assms
proof (induction cs arbitrary: s L)
  case Nil
  then show ?case by (simp add: tick_done_def freed_tcbs_def)
next
  case (Cons c cs)
  have c: "c \<in> set (tcb_head s)" using Cons.prems(4) by simp
  let ?body = "if decrement_timeout (tcbs s c)
    then (let old = timeout (tcbs s c); s = set_tcb c (\<lambda>t. t\<lparr>timeout := old - 1\<rparr>) s in if old = 0 then tcb_expire c s else Some s) else Some s"
  have "\<exists>s1. ?body = Some s1 \<and> tick_done s L {c} s1 n"
  proof (cases "expires (tcbs s c)")
    case True
    then have x: "tcb_state (tcbs s c) = TIME_WAIT" by (simp add: expires_def)
    obtain s1 where s1: "tcb_expire c (set_tcb c (\<lambda>t. t\<lparr>timeout := 0 - 1\<rparr>) s) = Some s1" "tick_done s L {c} s1 n"
      by (rule tick_expires [OF Cons.prems(1,2) c x True])
    then show ?thesis using True by (auto simp: expires_def)
  next
    case False
    have st: "tcb_state (tcbs s c) \<noteq> TIME_WAIT" if "decrement_timeout (tcbs s c)" "timeout (tcbs s c) = 0" using False that by (simp add: expires_def)
    have "?body = Some (s\<lparr>tcbs := (tcbs s)(c := ticked (tcbs s c))\<rparr>)"
      using st by (auto simp: ticked_def set_tcb_def tcb_expire_def)
    then show ?thesis using tick_running [OF Cons.prems(1,2) c False] by blast
  qed
  then obtain s1 where s1: "?body = Some s1" "tick_done s L {c} s1 n" by blast
  let ?L = "without L (freed_tcbs s {c})"
  have n: "c \<notin> set cs" "distinct cs" "set cs \<subseteq> set (tcb_head s)" using Cons.prems(3,4) by auto
  have "net_ok s1 ?L n" "tcp_ok s1 ?L" "set cs \<subseteq> set (tcb_head s1)" using s1(2) n by (auto simp: tick_done_def)
  from Cons.IH [OF this(1,2) n(2) this(3)] obtain s2 where s2: "tcp_tick_loop cs s1 = Some s2" "tick_done s1 ?L (set cs) s2 n" by blast
  have "tick_done s L (insert c (set cs)) s2 n" by (rule tick_done_trans [OF s1(2) s2(2) n(1,3)])
  with s1(1) s2(1) show ?case by simp
qed

text \<open>A tick, over the whole table.\<close>

abbreviation expired :: "'a net_scheme \<Rightarrow> u32 set" where
  "expired s \<equiv> freed_tcbs s (set (tcb_head s))"

lemma tcp_tick_ok:
  assumes ok: "net_ok s L n" and tcp: "tcp_ok s L"
  obtains s' where "tcp_tick s = Some s'" "tcb_head s' = filter (\<lambda>r. \<not> expires (tcbs s r)) (tcb_head s)"
    "\<And>r. r \<in> set (tcb_head s') \<Longrightarrow> tcbs s' r = ticked (tcbs s r)" "net_ok s' (without L (expired s)) n"
    "tcp_ok s' (without L (expired s))" "keeps s s' (without L (expired s))"
proof -
  have "distinct (tcb_head s)" using tcp by (simp add: tcp_ok_def)
  from tcp_tick_loop_ok [OF ok tcp this subset_refl]
  obtain s' where s': "tcp_tick s = Some s'" "tick_done s L (set (tcb_head s)) s' n" unfolding tcp_tick_def by blast
  moreover have "filter (\<lambda>r. r \<notin> set (tcb_head s) \<or> \<not> expires (tcbs s r)) (tcb_head s) = filter (\<lambda>r. \<not> expires (tcbs s r)) (tcb_head s)"
    by (rule filter_cong) auto
  ultimately show thesis using that [of s'] unfolding tick_done_def by auto
qed

subsection \<open>TIME_WAIT\<close>

fun tcp_ticks :: "nat \<Rightarrow> 'a net_scheme \<Rightarrow> 'a net_scheme option" where
  "tcp_ticks 0 s = Some s"
| "tcp_ticks (Suc k) s = do { s \<leftarrow> tcp_tick s; tcp_ticks k s }"

text \<open>A connection whose timer has not run out after \<open>k\<close> ticks is still there.\<close>

lemma tcp_ticks_keep:
  assumes "net_ok s L n" "tcp_ok s L" "r \<in> set (tcb_head s)" "\<not> decrement_timeout (tcbs s r) \<or> k \<le> unat (timeout (tcbs s r))"
  shows "\<exists>s' X. tcp_ticks k s = Some s' \<and> r \<in> set (tcb_head s') \<and> r \<notin> X \<and> tcb_buf s r \<notin> X
    \<and> tcbs s' r = (tcbs s r)\<lparr>timeout := timeout (tcbs s r) - (if decrement_timeout (tcbs s r) then of_nat k else 0)\<rparr>
    \<and> net_ok s' (without L X) n \<and> tcp_ok s' (without L X)"
  using assms
proof (induction k arbitrary: s L)
  case 0
  then show ?case by (intro exI [of _ s] exI [of _ "{}"]) simp
next
  case (Suc k)
  let ?t = "tcbs s r"
  obtain s1 where s1: "tcp_tick s = Some s1" "tcb_head s1 = filter (\<lambda>r. \<not> expires (tcbs s r)) (tcb_head s)"
    "\<And>r. r \<in> set (tcb_head s1) \<Longrightarrow> tcbs s1 r = ticked (tcbs s r)" "net_ok s1 (without L (expired s)) n" "tcp_ok s1 (without L (expired s))"
    by (rule tcp_tick_ok [OF Suc.prems(1,2)]) (rule that)
  have x: "\<not> expires ?t" using Suc.prems(4) by (auto simp: expires_def)
  then have r1: "r \<in> set (tcb_head s1)" using Suc.prems(3) s1(2) by simp
  have own: "r \<notin> expired s" "tcb_buf s r \<notin> expired s"
    using Suc.prems(2,3) x by (auto simp: freed_tcbs_def tcp_ok_def dest: inj_onD)
  have t1: "decrement_timeout (ticked ?t) = decrement_timeout ?t" "tcb_buf s1 r = tcb_buf s r"
    "ticked ?t = ?t\<lparr>timeout := timeout ?t - (if decrement_timeout ?t then 1 else 0)\<rparr>"
    using Suc.prems(4) s1(3) [OF r1] by (auto simp: ticked_def)
  have "\<not> decrement_timeout (ticked ?t) \<or> k \<le> unat (timeout (ticked ?t))"
    using Suc.prems(4) by (auto simp: ticked_def unat_sub word_le_nat_alt Suc_leI)
  from Suc.IH [OF s1(4,5) r1] this obtain s2 X where s2: "tcp_ticks k s1 = Some s2" "r \<in> set (tcb_head s2)" "r \<notin> X" "tcb_buf s1 r \<notin> X"
    "tcbs s2 r = (ticked ?t)\<lparr>timeout := timeout (ticked ?t) - (if decrement_timeout (ticked ?t) then of_nat k else 0)\<rparr>"
    "net_ok s2 (without (without L (expired s)) X) n" "tcp_ok s2 (without (without L (expired s)) X)"
    using s1(3) [OF r1] by auto
  have "tcbs s2 r = ?t\<lparr>timeout := timeout ?t - (if decrement_timeout ?t then of_nat (Suc k) else 0)\<rparr>"
    using s2(5) t1(1) unfolding t1(3) by (simp add: algebra_simps)
  with s1(1) s2 own t1(2) show ?case
    by (intro exI [of _ s2] exI [of _ "expired s \<union> X"]) (simp add: without_without)
qed

lemma tcp_ticks_reclaim:
  assumes "net_ok s L n" "tcp_ok s L" "r \<in> set (tcb_head s)" "tcb_state (tcbs s r) = TIME_WAIT" "decrement_timeout (tcbs s r)"
    and "unat (timeout (tcbs s r)) = v"
  shows "\<exists>s' X. tcp_ticks (Suc v) s = Some s' \<and> r \<notin> set (tcb_head s') \<and> {r, tcb_buf s r} \<subseteq> X
    \<and> net_ok s' (without L X) n \<and> tcp_ok s' (without L X)"
  using assms
proof (induction v arbitrary: s L)
  case 0
  then have x: "expires (tcbs s r)" by (simp add: expires_def unat_eq_0)
  obtain s1 where s1: "tcp_tick s = Some s1" "tcb_head s1 = filter (\<lambda>r. \<not> expires (tcbs s r)) (tcb_head s)"
    "net_ok s1 (without L (expired s)) n" "tcp_ok s1 (without L (expired s))"
    by (rule tcp_tick_ok [OF 0(1,2)]) (rule that)
  have "{r, tcb_buf s r} \<subseteq> expired s" using x 0(3) by (auto simp: freed_tcbs_def)
  then show ?case using s1 x by (intro exI [of _ s1] exI [of _ "expired s"]) simp
next
  case (Suc v)
  let ?t = "tcbs s r"
  obtain s1 where s1: "tcp_tick s = Some s1" "tcb_head s1 = filter (\<lambda>r. \<not> expires (tcbs s r)) (tcb_head s)"
    "\<And>r. r \<in> set (tcb_head s1) \<Longrightarrow> tcbs s1 r = ticked (tcbs s r)" "net_ok s1 (without L (expired s)) n" "tcp_ok s1 (without L (expired s))"
    by (rule tcp_tick_ok [OF Suc.prems(1,2)]) (rule that)
  have nz: "timeout ?t \<noteq> 0" using Suc.prems(6) by auto
  then have r1: "r \<in> set (tcb_head s1)" using Suc.prems(3) s1(2) by (simp add: expires_def)
  have t1: "tcbs s1 r = ?t\<lparr>timeout := timeout ?t - 1\<rparr>" using s1(3) [OF r1] Suc.prems(5) nz by (simp add: ticked_def)
  have "unat (timeout (tcbs s1 r)) = v"
    using Suc.prems(6) nz by (simp add: t1 unat_sub word_le_nat_alt Suc_leI)
  with Suc.IH [OF s1(4,5) r1] Suc.prems(4,5) obtain s2 X where s2: "tcp_ticks (Suc v) s1 = Some s2" "r \<notin> set (tcb_head s2)"
    "{r, tcb_buf s1 r} \<subseteq> X" "net_ok s2 (without (without L (expired s)) X) n" "tcp_ok s2 (without (without L (expired s)) X)"
    by (auto simp: t1)
  then show ?case
    using s1(1) by (intro exI [of _ s2] exI [of _ "expired s \<union> X"]) (simp add: t1 without_without)
qed

text \<open>C18: a connection in TIME_WAIT whose timer runs is kept for as many ticks as the timer has left and is
  gone after one more: TCB and receive buffer are given back to the heap. The other connections may expire
  at these ticks too; system and table stay sound.\<close>

theorem time_wait_reclaimed:
  assumes ok: "net_ok s L n" and tcp: "tcp_ok s L" and r: "r \<in> set (tcb_head s)"
    and t: "tcb_state (tcbs s r) = TIME_WAIT" "decrement_timeout (tcbs s r)" and v: "v = unat (timeout (tcbs s r))"
  shows "(\<forall>k \<le> v. \<exists>s' X. tcp_ticks k s = Some s' \<and> r \<in> set (tcb_head s') \<and> tcb_state (tcbs s' r) = TIME_WAIT \<and> r \<notin> X
        \<and> tcb_buf s r \<notin> X \<and> net_ok s' (without L X) n \<and> tcp_ok s' (without L X))
    \<and> (\<exists>s' X. tcp_ticks (v + 1) s = Some s' \<and> r \<notin> set (tcb_head s') \<and> {r, tcb_buf s r} \<subseteq> X
        \<and> net_ok s' (without L X) n \<and> tcp_ok s' (without L X))"
proof (intro conjI allI impI)
  fix k assume "k \<le> v"
  with tcp_ticks_keep [OF ok tcp r, of k] t v
  show "\<exists>s' X. tcp_ticks k s = Some s' \<and> r \<in> set (tcb_head s') \<and> tcb_state (tcbs s' r) = TIME_WAIT \<and> r \<notin> X
    \<and> tcb_buf s r \<notin> X \<and> net_ok s' (without L X) n \<and> tcp_ok s' (without L X)" by fastforce
next
  show "\<exists>s' X. tcp_ticks (v + 1) s = Some s' \<and> r \<notin> set (tcb_head s') \<and> {r, tcb_buf s r} \<subseteq> X
    \<and> net_ok s' (without L X) n \<and> tcp_ok s' (without L X)"
    using tcp_ticks_reclaim [OF ok tcp r t v [symmetric]] by simp
qed

text \<open>C40: a segment that arrives for a connection in TIME_WAIT or LAST_ACK, the last ACK of the peer or its
  repeated FIN for instance, stops the timer for good and does nothing else to the connection: it stays
  in its state and keeps its memory however many ticks follow.\<close>

theorem late_segment_leaks:
  assumes ok: "net_ok s L n" and p: "tcp_frame s L pkt F k lf" and tcp: "tcp_ok s L" and F: "F \<notin> tcp_owned s"
    and c: "find_tcb (segment_in s pkt) (pkt_src_ip (pkts s pkt)) s = Some r" and st: "tcb_state (tcbs s r) \<in> {TIME_WAIT, LAST_ACK}"
  shows "\<exists>s1. tcp_rx_packet pkt s = Some s1 \<and> (\<forall>j. \<exists>s2 L2 l. tcp_ticks j s1 = Some s2 \<and> r \<in> set (tcb_head s2)
    \<and> tcbs s2 r = timer_stopped (tcbs s r) \<and> net_ok s2 L2 n \<and> (unat r, l) \<in> L2)"
proof -
  let ?s = "after_header s pkt" and ?h = "segment_in s pkt"
  note f = after_header_fields [of s pkt]
  note a = after_header_tcp [OF ok p tcp F]
  note r = find_tcb_mem [OF c]
  have sw: "rx_switch ?h (pkt_src_ip (pkts ?s pkt)) (pkt_cur_data (pkts ?s pkt)) (tcp_dlen s pkt) (timer_stopped (tcbs ?s r)) (ram ?s) =
      (timer_stopped (tcbs s r), False, ram ?s)"
    using st by (auto simp: rx_switch_def f timer_stopped_def)
  show ?thesis
  proof (rule tcp_rx_for_silent [OF sw _ _ after_frame_ok(1) [OF ok p]], unfold f)
    fix s1
    let ?L = "without L (nodes (tcp_waitq s))"
    assume e: "tcp_rx_for pkt r ?h (tcp_dlen s pkt) ?s = Some s1" "tcbs s1 = (tcbs s)(r := timer_stopped (tcbs s r))"
      "tcb_head s1 = tcb_head s" "set (all_waits s1) \<subseteq> set (all_waits ?s)" "net_ok s1 ?L n" "keeps ?s s1 ?L"
    have own: "nodes (tcp_waitq s) \<inter> tcp_owned s = {}" using sleepers_not_owned [OF tcp] by blast
    have nb: "tcb_buf s r \<notin> nodes (tcp_waitq s)" using own r by (auto simp: tcp_owned_def)
    have "tcb_ok (tcbs s r) (ram ?s) L" using a(1) r by (simp add: tcp_ok_def f)
    then have "tcb_ok (tcbs s r) (ram s1) ?L"
      by (rule tcb_ok_keeps [OF _ e(6) net_okD(4) [OF after_frame_ok(1) [OF ok p]]])
        (use nb without_in in auto)
    then have t: "tcb_ok (timer_stopped (tcbs s r)) (ram s1) ?L" by (simp add: tcb_ok_def timer_ok_def timer_stopped_def)
    have "tcp_ok s1 ?L"
    proof (rule tcp_ok_step [OF a(1) net_okD(4) [OF after_frame_ok(1) [OF ok p]], of "{r}" s1 "nodes (tcp_waitq s)"])
      show "keeps ?s s1 (without L (tcb_buf ?s ` {r} \<union> nodes (tcp_waitq s)))"
        by (rule keeps_subset [OF e(6) without_mono]) blast
    qed (use r own e(2-4) t in \<open>simp_all add: f tcp_owned_def timer_stopped_def\<close>)
    moreover have "r \<in> set (tcb_head s1)" "tcbs s1 r = timer_stopped (tcbs s r)" using r e(2,3) by simp_all
    ultimately have "\<exists>s2 L2 l. tcp_ticks j s1 = Some s2 \<and> r \<in> set (tcb_head s2) \<and> tcbs s2 r = timer_stopped (tcbs s r)
        \<and> net_ok s2 L2 n \<and> (unat r, l) \<in> L2" for j
      using tcp_ticks_keep [OF e(5), of r j] by (fastforce simp: timer_stopped_def tcp_ok_def)
    then show ?thesis using tcp_rx_start [of pkt s] c e(1) by (intro exI [of _ s1]) simp
  qed (use st in auto)
qed

subsection \<open>An example\<close>

text \<open>The connection of \<open>example_tcp\<close> as an allocation of its own, with a timer.\<close>

definition example_conn :: "mem \<Rightarrow> u32 \<Rightarrow> u32 \<Rightarrow> u32 \<Rightarrow> tcp_state \<Rightarrow> bool \<Rightarrow> net" where
  "example_conn m f b r st dt = (example_tcp m f b st 20)\<lparr>tcb_head := [r],
     tcbs := (\<lambda>x. (tcbs (example_tcp m f b st 20) x)\<lparr>timeout := 250, decrement_timeout := dt\<rparr>)\<rparr>"

lemma example_conn_setup:
  assumes st: "dt \<longrightarrow> st = TIME_WAIT"
  obtains f b r :: u32 and m L lf where "net_ok (example_conn m f b r st dt) L 29000" "tcp_packet (example_conn m f b r st dt) L pkt f 0 lf"
    "tcp_ok (example_conn m f b r st dt) L" "f \<notin> tcp_owned (example_conn m f b r st dt)"
    "find_tcb (segment_in (example_conn m f b r st dt) pkt) (pkt_src_ip (pkts (example_conn m f b r st dt) pkt)) (example_conn m f b r st dt) = Some r"
    "\<not> fin (segment_in (example_conn m f b r st dt) pkt)" "ack (segment_in (example_conn m f b r st dt) pkt)"
    "ack_n (segment_in (example_conn m f b r st dt) pkt) = 1024"
proof (rule example_tcp_setup [of "[]" 20 st 16 pkt])
  fix f b :: u32 and m0 and lf lb :: nat
  let ?L = "{(unat b, lb), (unat f, lf)}" and ?e = "example_tcp m0 f b st 20"
  assume a: "net_ok ?e ?L 30000" "read_bytes m0 f 20 = take 20 (segment_bytes 16 [])" "tcp_packet ?e ?L pkt f 0 lf"
    "connection_gets ?e ?L pkt f 0x900 []"
  have "net_ok ?e ?L (29000 + block_size_of (unat (64 :: u32)))" by (rule net_ok_mono [OF a(1)]) (simp add: block_size_of_def)
  moreover have "request_ok 64" "(29000 :: nat) = 0 \<or> 16 \<le> (29000 :: nat)" by (simp_all add: request_ok_def)
  ultimately obtain r :: u32 and m l where g: "net_ok (?e\<lparr>ram := m\<rparr>) (insert (unat r, l) ?L) 29000" "\<And>k. (unat r, k) \<notin> ?L"
    "keeps ?e (?e\<lparr>ram := m\<rparr>) ?L" by (rule get_mem_net) (rule that)
  let ?s = "example_conn m f b r st dt" and ?K = "insert (unat r, l) ?L"
  have ok: "net_ok ?s ?K 29000" using g(1) by (rule net_ok_same) (simp_all add: example_conn_def example_tcp_def all_waits_def)
  have ex: "ram ?e = m0" "ram ?s = m" "all_waits ?s = []" "buffer (rx_buf (tcbs ?s x)) = b" for x
    by (simp_all add: example_conn_def example_tcp_def all_waits_def)
  have sg: "segment_in ?s pkt = segment_in (example_tcp m f b st 20) pkt"
    by (simp add: segment_in_def example_conn_def example_tcp_def)
  have fr: "20 \<le> lf" using a(3) by (auto simp: tcp_packet_def example_tcp_def)
  have "live_bytes ?L (f + of_nat 0) 20"
    by (rule live_bytes_mono [OF live_bytes_buf [OF net_okD(4) [OF a(1)], of f lf]]) (use fr in auto)
  then have rd: "read_bytes m f 20 = take 20 (segment_bytes 16 [])"
    using read_bytes_keeps [OF g(3), of f 20] a(2) ex(1) by (simp del: read_bytes_numeral)
  note h = example_segment [OF rd, of b st 20 pkt]
  have tp: "tcp_packet ?s ?K pkt f 0 lf"
    unfolding tcp_packet_def tcp_hlen_def sg h using fr by (simp add: example_conn_def example_tcp_def)
  have rep: "cb_rep (rx_buf (tcbs ?s r)) m []" "\<exists>lb. live_area ?L (rx_buf (tcbs ?s r)) lb" and "b \<noteq> f"
  proof -
    have c: "cb_rep (rx_buf (tcbs ?e 0x900)) m0 []" "live_area ?L (rx_buf (tcbs ?e 0x900)) lb'" "b \<noteq> f"
      if "live_area ?L (rx_buf (tcbs ?e 0x900)) lb'" for lb'
      using a(4) that by (auto simp: connection_gets_def ex(1)) (auto simp: example_tcp_def)
    have same: "rx_buf (tcbs ?s r) = rx_buf (tcbs ?e 0x900)" by (simp add: example_conn_def example_tcp_def)
    obtain lb' where lb': "live_area ?L (rx_buf (tcbs ?e 0x900)) lb'" using a(4) by (auto simp: connection_gets_def)
    note c = c [OF lb']
    have "(unat (buffer (rx_buf (tcbs ?e 0x900))), lb') \<in> ?L" using c(2) by (simp add: live_area_def)
    then have "cb_rep (rx_buf (tcbs ?e 0x900)) m []"
      using cb_rep_keeps [of _ ?e "[]", OF _ g(3) net_okD(4) [OF a(1)] c(2)] c(1) ex(1) by simp
    then show "cb_rep (rx_buf (tcbs ?s r)) m []" "\<exists>lb. live_area ?L (rx_buf (tcbs ?s r)) lb" "b \<noteq> f" using c unfolding same by auto
  qed
  have "r \<noteq> b" "r \<noteq> f" using g(2) by auto
  have "timer_ok (tcbs ?s r)" using st by (simp add: timer_ok_def example_conn_def example_tcp_def TCP_TIMEOUT_def)
  moreover have hd: "tcb_head ?s = [r]" by (simp add: example_conn_def)
  ultimately have "tcp_ok ?s ?K"
    using rep \<open>r \<noteq> b\<close> by (auto simp: tcp_ok_def tcb_ok_def tcp_owned_def ex nodes_def live_area_def)
  moreover have "f \<notin> tcp_owned ?s" using \<open>r \<noteq> f\<close> \<open>b \<noteq> f\<close> by (auto simp: tcp_owned_def hd ex(4))
  moreover have "find_tcb (segment_in ?s pkt) (pkt_src_ip (pkts ?s pkt)) ?s = Some r"
    unfolding sg h by (simp add: find_tcb_def example_conn_def example_tcp_def)
  moreover have "\<not> fin (segment_in ?s pkt)" "ack (segment_in ?s pkt)" "ack_n (segment_in ?s pkt) = 1024"
    unfolding sg h by simp_all
  ultimately show thesis using that [OF ok tp] by blast
qed simp_all

lemma tcp_connections_well_typed_witness:
  "\<exists>(s :: net) L r s' L'. tcp_ok s L \<and> tcb_head s = [r] \<and> tcb_state (tcbs s r) = FIN_WAIT1
    \<and> tcp_rx_packet 0x10 s = Some s' \<and> tcp_ok s' L' \<and> pkt_handler (pkts s' 0x10) = DROP"
proof (rule example_conn_setup [where dt = False and st = FIN_WAIT1 and pkt = "0x10"])
  fix f b r :: u32 and m L lf
  let ?s = "example_conn m f b r FIN_WAIT1 False"
  assume a: "net_ok ?s L 29000" "tcp_packet ?s L 0x10 f 0 lf" "tcp_ok ?s L" "f \<notin> tcp_owned ?s"
  have ok: "net_ok ?s L (20000 + tcp_demand 0)"
    by (rule net_ok_mono [OF a(1)]) (simp add: tcp_demand_def checksum_size_def block_size_of_def)
  have n: "(20000 :: nat) = 0 \<or> 16 \<le> (20000 :: nat)" by simp
  have st: "tcb_state (tcbs ?s x) \<noteq> CLOSE_WAIT" "tcb_state (tcbs ?s x) = FIN_WAIT1" for x
    by (simp_all add: example_conn_def example_tcp_def)
  obtain s' L' where "tcp_rx_packet 0x10 ?s = Some s'" "tcp_ok s' L'" "pkt_handler (pkts s' 0x10) = DROP"
    using tcp_connections_well_typed [OF ok n tcp_packet_frame [OF a(2)] a(3,4) st(1)] by (elim exE conjE) (rule that)
  moreover have "tcb_head ?s = [r]" by (simp add: example_conn_def)
  ultimately show ?thesis using a(3) st(2) by blast
qed simp

lemma time_wait_reclaimed_witness:
  "\<exists>(s :: net) s' r. tcb_head s = [r] \<and> tcp_ticks 251 s = Some s' \<and> r \<notin> set (tcb_head s')"
proof (rule example_conn_setup [where dt = True and st = TIME_WAIT and pkt = "0x10"])
  fix f b r :: u32 and m L
  let ?s = "example_conn m f b r TIME_WAIT True"
  assume a: "net_ok ?s L 29000" "tcp_ok ?s L"
  have h: "tcb_head ?s = [r]" "r \<in> set (tcb_head ?s)" "tcb_state (tcbs ?s r) = TIME_WAIT" "decrement_timeout (tcbs ?s r)"
    "250 = unat (timeout (tcbs ?s r))" by (simp_all add: example_conn_def example_tcp_def)
  have "\<exists>s' X. tcp_ticks (250 + 1) ?s = Some s' \<and> r \<notin> set (tcb_head s') \<and> {r, tcb_buf ?s r} \<subseteq> X
      \<and> net_ok s' (without L X) 29000 \<and> tcp_ok s' (without L X)"
    using time_wait_reclaimed [OF a h(2-5)] by (rule conjunct2)
  then show ?thesis using h(1) by (auto simp del: tcp_ticks.simps)
qed simp

lemma late_segment_leaks_witness:
  "\<exists>(s :: net) s1 s2 r. decrement_timeout (tcbs s r) \<and> tcp_rx_packet 0x10 s = Some s1
    \<and> tcp_ticks 1000 s1 = Some s2 \<and> r \<in> set (tcb_head s2)"
proof (rule example_conn_setup [where dt = True and st = TIME_WAIT and pkt = "0x10"])
  fix f b r :: u32 and m L lf
  let ?s = "example_conn m f b r TIME_WAIT True"
  assume a: "net_ok ?s L 29000" "tcp_packet ?s L 0x10 f 0 lf" "tcp_ok ?s L" "f \<notin> tcp_owned ?s"
    "find_tcb (segment_in ?s 0x10) (pkt_src_ip (pkts ?s 0x10)) ?s = Some r"
  have st: "tcb_state (tcbs ?s r) \<in> {TIME_WAIT, LAST_ACK}" "decrement_timeout (tcbs ?s r)"
    by (simp_all add: example_conn_def example_tcp_def)
  obtain s1 where s1: "tcp_rx_packet 0x10 ?s = Some s1" "\<forall>j. \<exists>s2 L2 l. tcp_ticks j s1 = Some s2 \<and> r \<in> set (tcb_head s2)
      \<and> tcbs s2 r = timer_stopped (tcbs ?s r) \<and> net_ok s2 L2 29000 \<and> (unat r, l) \<in> L2"
    using late_segment_leaks [OF a(1) tcp_packet_frame [OF a(2)] a(3-5) st(1)] by blast
  from s1(2) [THEN spec, of 1000] s1(1) st(2) show ?thesis by (auto simp del: tcp_ticks.simps)
qed simp



end
