(* ===== verification/Tcp_Runs.thy ===== *)
theory Tcp_Runs
  imports Tcp_States
begin

text \<open>
  Runs of TCP: the calls of applications, arriving segments and timer ticks in any order, with steps of
  the rest of the system in between. In every state of such a run the table of connections is well-formed.
\<close>

unbundle bit_operations_syntax

subsection \<open>Changes of a TCB\<close>

lemma tcb_changed:
  assumes ok: "net_ok s L n" and tcp: "tcp_ok s L" and r: "r \<in> set (tcb_head s)"
    and t: "rx_buf t = rx_buf (tcbs s r)" "timer_ok t"
  shows "tcp_ok (s\<lparr>tcbs := (tcbs s)(r := t)\<rparr>) L"
proof -
  have "tcb_ok (tcbs s r) (ram s) L" using tcp r by (simp add: tcp_ok_def)
  then have "tcb_ok t (ram s) L" using t by (simp add: tcb_ok_def)
  then show ?thesis
    by (intro tcp_ok_step [OF tcp net_okD(4) [OF ok], of "{r}" _ "{}" L]) (use r t in \<open>simp_all add: all_waits_def keeps_def\<close>)
qed

lemma owned_live: "tcp_ok s L \<Longrightarrow> x \<in> tcp_owned s \<Longrightarrow> \<exists>l. (unat x, l) \<in> L"
  by (auto simp: tcp_ok_def tcp_owned_def tcb_ok_def live_area_def)

text \<open>A TCB and a buffer that are fresh join the table; \<open>A\<close> is what else has been given back.\<close>

lemma tcb_added:
  assumes ok: "net_ok s L n" and tcp: "tcp_ok s L" and f: "tcbs s' = (tcbs s)(r := t)" "tcb_head s' = r # tcb_head s"
    "set (all_waits s') \<subseteq> set (all_waits s)" and fresh: "\<And>k. (unat r, k) \<notin> L" "\<And>k. (unat (buffer (rx_buf t)), k) \<notin> L"
    and ne: "r \<noteq> buffer (rx_buf t)" and A: "A \<inter> tcp_owned s = {}" and kp: "keeps s s' (without L A)" and L': "without L A \<subseteq> L'"
    and t: "(unat r, l) \<in> L'" "tcb_ok t (ram s') L'"
  shows "tcp_ok s' L'"
proof -
  let ?s = "s'\<lparr>tcbs := tcbs s, tcb_head := tcb_head s\<rparr>" and ?b = "buffer (rx_buf t)"
  have old: "tcp_ok ?s L'"
    by (rule tcp_ok_step [OF tcp net_okD(4) [OF ok], of "{}" ?s A])
      (use f(3) A kp L' in \<open>simp_all add: all_waits_def keeps_def\<close>)
  have own: "r \<notin> tcp_owned s" "?b \<notin> tcp_owned s" using owned_live [OF tcp] fresh by blast+
  have nd: "r \<notin> nodes (all_waits s')" "?b \<notin> nodes (all_waits s')"
    using fresh_not_node [OF ok fresh(1)] fresh_not_node [OF ok fresh(2)] f(3) by (auto simp: nodes_def)
  have nr: "x \<noteq> r" if "x \<in> set (tcb_head s)" for x using own(1) that by (auto simp: tcp_owned_def)
  then have im: "(\<lambda>x. buffer (rx_buf (if x = r then t else tcbs s x))) ` set (tcb_head s) = tcb_buf s ` set (tcb_head s)"
    by (intro image_cong) auto
  have w: "all_waits ?s = all_waits s'" by (simp add: all_waits_def)
  have inj: "inj_on (tcb_buf s) (set (tcb_head s))" using tcp by (simp add: tcp_ok_def)
  then have inj': "inj_on (tcb_buf s') (set (tcb_head s))" using nr by (auto simp: f(1) inj_on_def)
  have im': "tcb_buf s' ` set (tcb_head s) = tcb_buf s ` set (tcb_head s)" using im by (simp add: f(1) fun_upd_def)
  have tr: "tcbs s' r = t" "\<And>x. x \<in> set (tcb_head s) \<Longrightarrow> tcbs s' x = tcbs s x" using nr by (auto simp: f(1))
  have o': "tcp_owned s' = insert r (insert ?b (tcp_owned s))" unfolding tcp_owned_def f(2) by (auto simp: im' tr(1))
  show ?thesis
    using old own nd ne t inj' unfolding tcp_ok_def w o' f(2) by (auto simp: im' tr tcp_owned_def)
qed

subsection \<open>New connections\<close>

definition fresh_ring :: "u32 \<Rightarrow> circular_buf" where
  "fresh_ring b = \<lparr>buffer = b, head = b, tail = b, buf_sz = 127, free_space = 127\<rparr>"

definition create_demand :: nat where
  "create_demand = block_size_of 127 + block_size_of 64"

lemma tcb_create_ok:
  assumes ok: "net_ok s L (n + create_demand)" and n: "n = 0 \<or> 16 \<le> n"
  obtains r b :: u32 and m lr lb where "tcb_create s = Some (r, s\<lparr>ram := m, tcbs := (tcbs s)(r := zero_tcb\<lparr>rx_buf := fresh_ring b\<rparr>)\<rparr>)"
    "net_ok (s\<lparr>ram := m\<rparr>) (insert (unat b, lb) (insert (unat r, lr) L)) n" "keeps s (s\<lparr>ram := m\<rparr>) L" "127 \<le> lb"
    "\<And>k. (unat r, k) \<notin> L" "\<And>k. (unat b, k) \<notin> L" "r \<noteq> b" "\<And>m'. cb_rep (fresh_ring b) m' []"
proof -
  have ok1: "net_ok s L (n + block_size_of 127 + block_size_of (unat (64 :: u32)))" 
    using ok by (simp add: create_demand_def add.assoc)
  have rq: "request_ok 64" "request_ok 127" by (simp_all add: request_ok_def)
  have n1: "n + block_size_of 127 = 0 \<or> 16 \<le> n + block_size_of 127" using block_size_of_facts(1) [of 127] by linarith
  show thesis
  proof (rule get_mem_net [OF ok1 rq(1) n1])
    fix r :: u32 and m lr
    assume g: "get_mem 64 s = Some (r, s\<lparr>ram := m\<rparr>)" "net_ok (s\<lparr>ram := m\<rparr>) (insert (unat r, lr) L) (n + block_size_of 127)"
      "\<And>k. (unat r, k) \<notin> L" "keeps s (s\<lparr>ram := m\<rparr>) L"
    define s1 where "s1 = s\<lparr>ram := m, tcbs := (tcbs s)(r := zero_tcb)\<rparr>"
    have ok2: "net_ok s1 (insert (unat r, lr) L) (n + block_size_of (unat (127 :: u32)))"
      using net_ok_same [OF g(2), of s1] by (simp add: s1_def all_waits_def)
    show thesis
    proof (rule get_mem_net [OF ok2 rq(2) n])
      fix b :: u32 and m2 lb
      assume h: "get_mem 127 s1 = Some (b, s1\<lparr>ram := m2\<rparr>)" "unat (127 :: u32) \<le> lb"
        "net_ok (s1\<lparr>ram := m2\<rparr>) (insert (unat b, lb) (insert (unat r, lr) L)) n"
        "\<And>k. (unat b, k) \<notin> insert (unat r, lr) L" "keeps s1 (s1\<lparr>ram := m2\<rparr>) (insert (unat r, lr) L)"
      have "tcb_create s = Some (r, s\<lparr>ram := m2, tcbs := (tcbs s)(r := zero_tcb\<lparr>rx_buf := fresh_ring b\<rparr>)\<rparr>)"
        using g(1) h(1) by (simp add: tcb_create_def sizeof_tcb_def set_tcb_def s1_def circular_buf_init_def TCP_BUF_SZ_def
            fresh_ring_def zero_tcb_def Let_def)
      moreover have "net_ok (s\<lparr>ram := m2\<rparr>) (insert (unat b, lb) (insert (unat r, lr) L)) n"
        using h(3) by (rule net_ok_same) (simp_all add: s1_def all_waits_def)
      moreover have "keeps s (s\<lparr>ram := m2\<rparr>) L" using g(4) h(5) by (auto simp: keeps_def s1_def)
      moreover have "unat b + lb < 2 ^ 32" using heap_rep_bounds [OF net_okD(4) [OF h(3)], of "unat b" lb] by (simp add: heap_base_def heap_size_def)
      then have "cb_rep (fresh_ring b) m' []" for m'
        using h(2) by (auto simp: fresh_ring_def cb_rep_def ring_def area_ok_def cell_def intro!: exI [of _ 0])
      ultimately show thesis using that [of r b m2 lb lr] h(2,4) g(3) by auto
    qed
  qed
qed


text \<open>A TCB that \<open>tcb_create\<close> has made, set up as \<open>t\<close> and put into the table.\<close>

lemma created_added:
  assumes ok: "net_ok s L (n + create_demand)" and n: "n = 0 \<or> 16 \<le> n" and tcp: "tcp_ok s L"
    and u: "\<And>b. rx_buf (u (zero_tcb\<lparr>rx_buf := fresh_ring b\<rparr>)) = fresh_ring b" "\<And>b. timer_ok (u (zero_tcb\<lparr>rx_buf := fresh_ring b\<rparr>))"
  obtains r s0 s1 L1 where "tcb_create s = Some (r, s0)" "s1 = (set_tcb r u s0)\<lparr>tcb_head := r # tcb_head s\<rparr>" "tcb_head s0 = tcb_head s"
    "net_ok s1 L1 n" "tcp_ok s1 L1" "r \<in> set (tcb_head s1)"
proof (rule tcb_create_ok [OF ok n])
  fix r b :: u32 and m lr lb
  let ?t = "zero_tcb\<lparr>rx_buf := fresh_ring b\<rparr>" and ?K = "insert (unat b, lb) (insert (unat r, lr) L)"
  assume c: "tcb_create s = Some (r, s\<lparr>ram := m, tcbs := (tcbs s)(r := ?t)\<rparr>)" "net_ok (s\<lparr>ram := m\<rparr>) ?K n" "keeps s (s\<lparr>ram := m\<rparr>) L"
    "127 \<le> lb" "\<And>k. (unat r, k) \<notin> L" "\<And>k. (unat b, k) \<notin> L" "r \<noteq> b" "\<And>m'. cb_rep (fresh_ring b) m' []"
  define s1 where "s1 = (set_tcb r u (s\<lparr>ram := m, tcbs := (tcbs s)(r := ?t)\<rparr>))\<lparr>tcb_head := r # tcb_head s\<rparr>"
  have f: "tcbs s1 = (tcbs s)(r := u ?t)" "tcb_head s1 = r # tcb_head s" "all_waits s1 = all_waits s" "ram s1 = m"
    by (simp_all add: s1_def set_tcb_def all_waits_def)
  have ok1: "net_ok s1 ?K n" using c(2) by (rule net_ok_same) (simp_all add: s1_def set_tcb_def all_waits_def)
  have b: "buffer (rx_buf (u ?t)) = b" using u(1) [of b] by (simp add: fresh_ring_def)
  have t: "tcb_ok (u ?t) (ram s1) ?K"
    using c(4,8) u [of b] unfolding tcb_ok_def by (intro conjI exI [of _ "[]"] exI [of _ lb]) (simp_all add: f(4) live_area_def fresh_ring_def)
  have tk: "tcp_ok s1 ?K"
    by (rule tcb_added [OF ok tcp f(1,2), of "{}" ?K lr]) (use c(3,5-7) b t f in \<open>simp_all add: keeps_def subset_insertI2 subset_insertI\<close>)
  show thesis by (rule that [OF c(1) s1_def _ ok1 tk]) (simp_all add: f(2))
qed

lemma tcp_listen_ok:
  assumes "net_ok s L (n + create_demand)" "n = 0 \<or> 16 \<le> n" "tcp_ok s L"
  shows "\<exists>r s' L'. tcp_listen port s = Some (r, s') \<and> net_ok s' L' n \<and> tcp_ok s' L'"
proof (rule created_added [OF assms, where u = "\<lambda>t. t\<lparr>cur_seq_n := 1024, tcb_state := LISTEN, src_port := port, dst_port := 0, dst_ip := 0\<rparr>"])
  fix r s0 s1 L1
  assume a: "tcb_create s = Some (r, s0)" "s1 = (set_tcb r (\<lambda>t. t\<lparr>cur_seq_n := 1024, tcb_state := LISTEN, src_port := port,
      dst_port := 0, dst_ip := 0\<rparr>) s0)\<lparr>tcb_head := r # tcb_head s\<rparr>" "tcb_head s0 = tcb_head s" "net_ok s1 L1 n" "tcp_ok s1 L1"
  then have "tcp_listen port s = Some (r, s1)" by (simp add: tcp_listen_def set_tcb_def)
  with a(4,5) show ?thesis by blast
qed (simp_all add: timer_ok_def zero_tcb_def)

lemma prepopulated_checksum [simp]: "tcp_checksum (tcp_header_prepopulate t zero_header) = 0"
  by (simp add: tcp_header_prepopulate_def zero_header_def)

lemma tcp_connect_ok:
  assumes ok: "net_ok s L (n + tcp_demand 0 + create_demand)" and n: "n = 0 \<or> 16 \<le> n" and tcp: "tcp_ok s L"
  shows "\<exists>r s' L'. tcp_connect port ip hdr s = Some (r, s') \<and> net_ok s' L' n \<and> tcp_ok s' L'"
proof -
  have n1: "n + tcp_demand 0 = 0 \<or> 16 \<le> n + tcp_demand 0" using block_size_of_facts(1) [of 24] by (simp add: tcp_demand_def)
  let ?u = "\<lambda>t. t\<lparr>cur_seq_n := 1024, tcb_state := SYN_SENT, timeout := TCP_TIMEOUT, decrement_timeout := True,
    src_port := 65355, dst_port := port, last_msg := hdr, dst_ip := ip\<rparr>"
  show ?thesis
  proof (rule created_added [OF ok n1 tcp, where u = ?u])
    fix r s0 s1 L1
    assume a: "tcb_create s = Some (r, s0)" "s1 = (set_tcb r ?u s0)\<lparr>tcb_head := r # tcb_head s\<rparr>" "tcb_head s0 = tcb_head s"
      "net_ok s1 L1 (n + tcp_demand 0)" "tcp_ok s1 L1"
    define h where "h = (tcp_header_prepopulate (tcbs s1 r) zero_header)\<lparr>syn := True\<rparr>"
    have "net_ok s1 L1 (n + tcp_demand (unat (0 :: u32)))" "tcp_checksum h = 0" using a(4) by (simp_all add: h_def)
    with segment_sent [OF _ n a(5), of 0 0 h ip] obtain s' L' where "tcp_tx h ip 0 0 s1 = Some s'" "net_ok s' L' n" "tcp_ok s' L'" by auto
    moreover have "tcp_connect port ip hdr s = do { s \<leftarrow> tcp_tx h ip 0 0 s1; Some (r, s) }"
      using a(1,2,3) by (simp add: tcp_connect_def set_tcb_def h_def Let_def)
    ultimately show ?thesis by auto
  qed (simp_all add: timer_ok_def)
qed


subsection \<open>Calls on a connection\<close>

text \<open>The wait for a condition that holds is over at once.\<close>

lemma tcp_listen_wait_ok:
  assumes ok: "net_ok s L (n + tcp_demand 0)" and n: "n = 0 \<or> 16 \<le> n" and tcp: "tcp_ok s L"
    and st: "tcb_state (tcbs s r) = SYN_RECEIVED"
  shows "\<exists>s' L'. tcp_listen_wait r s = Some (True, s') \<and> net_ok s' L' n \<and> tcp_ok s' L'"
proof -
  have w: "wait_for_volatile_condition (\<lambda>s. tcb_state (tcbs s r) = SYN_RECEIVED) tcp_waitq (\<lambda>q s. s\<lparr>tcp_waitq := q\<rparr>) s = Some (True, s)"
    by (rule wait_true) (use st in simp)
  obtain s' L' where "tcp_tx (syn_ack_segment (tcbs s r)) (dst_ip (tcbs s r)) 0 0 s = Some s'" "net_ok s' L' n" "tcp_ok s' L'"
    using segment_sent [OF _ n tcp, of 0 0 "syn_ack_segment (tcbs s r)" "dst_ip (tcbs s r)"] ok by (auto simp: syn_ack_segment_def)
  then show ?thesis unfolding tcp_listen_wait_def w by (simp add: syn_ack_segment_def Let_def) blast
qed

lemma tcp_tx_data_ok:
  assumes ok: "net_ok s L (n + tcp_demand (unat len))" and n: "n = 0 \<or> 16 \<le> n" and tcp: "tcp_ok s L"
    and r: "r \<in> set (tcb_head s)" and src: "live_bytes L p (unat len)" "unat len \<le> 2048"
  shows "\<exists>s' L'. tcp_tx_data r p len s = Some s' \<and> net_ok s' L' n \<and> tcp_ok s' L'"
proof -
  let ?t = "(tcbs s r)\<lparr>unacked_byte_count := unacked_byte_count (tcbs s r) + len\<rparr>" and ?h = "(tcp_header_prepopulate (tcbs s r) zero_header)\<lparr>ack := True\<rparr>"
  have tm: "timer_ok ?t" by (rule tcp_okD [OF tcp r]) (simp add: timer_ok_def)
  have tcp1: "tcp_ok (s\<lparr>tcbs := (tcbs s)(r := ?t)\<rparr>) L" by (rule tcb_changed [OF ok tcp r _ tm]) simp
  have "net_ok (s\<lparr>tcbs := (tcbs s)(r := ?t)\<rparr>) L (n + tcp_demand (unat len))" using ok by simp
  from segment_sent [OF this n tcp1 src, of ?h "dst_ip (tcbs s r)"]
  show ?thesis by (simp add: tcp_tx_data_def set_tcb_def Let_def) blast
qed

text \<open>A FIN is sent and the TCB changes.\<close>

lemma fin_sent:
  assumes ok: "net_ok s L (n + tcp_demand 0)" and n: "n = 0 \<or> 16 \<le> n" and tcp: "tcp_ok s L" and r: "r \<in> set (tcb_head s)"
    and z: "tcp_checksum h = 0" and u: "rx_buf (u (tcbs s r)) = rx_buf (tcbs s r)" "\<not> decrement_timeout (u (tcbs s r))"
  shows "\<exists>s' L'. do { s \<leftarrow> tcp_tx h dest 0 0 s; Some (set_tcb r u s) } = Some s' \<and> net_ok s' L' n \<and> tcp_ok s' L'"
proof -
  obtain s1 L1 where s1: "tcp_tx h dest 0 0 s = Some s1" "net_ok s1 L1 n" "tcp_ok s1 L1" "tcbs s1 = tcbs s" "tcb_head s1 = tcb_head s"
    using segment_sent [OF _ n tcp _ _ z, of 0 0 dest] ok by auto
  have "tcp_ok (s1\<lparr>tcbs := (tcbs s1)(r := u (tcbs s r))\<rparr>) L1"
    by (rule tcb_changed [OF s1(2,3)]) (use r u s1(4,5) in \<open>simp_all add: timer_ok_def\<close>)
  then show ?thesis using s1(1,2,4) by (auto simp: set_tcb_def)
qed

lemma tcp_close_ok:
  assumes ok: "net_ok s L (n + tcp_demand 0)" and n: "n = 0 \<or> 16 \<le> n" and tcp: "tcp_ok s L" and r: "r \<in> set (tcb_head s)"
  shows "\<exists>s' L'. tcp_close r s = Some s' \<and> net_ok s' L' n \<and> tcp_ok s' L'"
proof -
  let ?h = "(tcp_header_prepopulate (tcbs s r) zero_header)\<lparr>fin := True, ack := True\<rparr>"
  note fs = fin_sent [OF ok n tcp r, where h = ?h]
  have z: "tcp_checksum ?h = 0" by simp
  have h: "(tcp_header_prepopulate (tcbs s r) zero_header)\<lparr>ack := True, fin := True\<rparr> = ?h" by simp
  have tm: "timer_ok (tcbs s r)" using tcp_okD [OF tcp r] by blast
  consider "tcb_state (tcbs s r) = CLOSE_WAIT" | "tcb_state (tcbs s r) = ESTABLISHED" | "tcb_state (tcbs s r) \<notin> {CLOSE_WAIT, ESTABLISHED}" by blast
  then show ?thesis
  proof cases
    case 1
    then have "\<not> decrement_timeout (tcbs s r)" using tm by (auto simp: timer_ok_def)
    then show ?thesis using fs [OF z, of "\<lambda>t. t\<lparr>tcb_state := LAST_ACK\<rparr>" "dst_ip (tcbs s r)"] 1 by (simp add: tcp_close_def Let_def)
  next
    case 2
    have two: "set_tcb r (\<lambda>t. t\<lparr>tcb_state := FIN_WAIT1\<rparr>) (set_tcb r (\<lambda>t. t\<lparr>cur_seq_n := cur_seq_n t + 1\<rparr>) x) =
        set_tcb r (\<lambda>t. t\<lparr>cur_seq_n := cur_seq_n t + 1, tcb_state := FIN_WAIT1\<rparr>) x" for x :: "'a net_scheme"
      by (simp add: set_tcb_def)
    have "\<not> decrement_timeout (tcbs s r)" using 2 tm by (auto simp: timer_ok_def)
    then show ?thesis
      using fs [OF z, of "\<lambda>t. t\<lparr>cur_seq_n := cur_seq_n t + 1, tcb_state := FIN_WAIT1\<rparr>" "dst_ip (tcbs s r)"] 2
      by (simp add: tcp_close_def Let_def two h)
  next
    case 3
    then show ?thesis using net_ok_mono [OF ok le_add1] tcp by (auto simp: tcp_close_def)
  qed
qed

text \<open>The bytes go to a live buffer that is not TCP's own.\<close>

lemma tcp_rx_data_turn_ok:
  assumes ok: "net_ok s L n" and tcp: "tcp_ok s L" and r: "r \<in> set (tcb_head s)" and len: "len \<noteq> 0"
    and D: "(unat D, ld) \<in> L" "D \<notin> tcp_owned s" "k + unat len \<le> ld"
    and ready: "circular_buf_cur_usage (rx_buf (tcbs s r)) \<noteq> 0 \<or> tcb_state (tcbs s r) = CLOSE_WAIT"
  shows "\<exists>x s' L'. tcp_rx_data_turn r (D + of_nat k) len s = Some (x, s') \<and> net_ok s' L' n \<and> tcp_ok s' L'"
proof (cases "tcb_state (tcbs s r) = CLOSE_WAIT")
  case True
  then show ?thesis using rx_data_turn_closed [OF _ len] ok tcp by blast
next
  case False
  obtain q lb where q: "cb_rep (rx_buf (tcbs s r)) (ram s) q" and a: "live_area L (rx_buf (tcbs s r)) lb" and tm: "timer_ok (tcbs s r)"
    by (rule tcp_okD [OF tcp r])
  have "unat (circular_buf_cur_usage (rx_buf (tcbs s r))) = length q" by (rule circular_buf_counts(1) [OF q])
  moreover have "circular_buf_cur_usage (rx_buf (tcbs s r)) \<noteq> 0" using ready False by blast
  ultimately have q0: "q \<noteq> []" by (metis list.size(3) unat_eq_0)
  have ne: "D \<noteq> tcb_buf s r" using D(2) r by (auto simp: tcp_owned_def)
  have out: "\<not> in_area (rx_buf (tcbs s r)) (D + of_nat k + of_nat i)" if "i < unat len" for i
    by (rule outside_area [OF net_okD(4) [OF ok] a D(1) ne D(3) that])
  show ?thesis
  proof (rule rx_data_turn [OF q len refl out False q0])
    fix cb
    let ?bs = "take (min (unat len) (length q)) q"
    let ?m = "write_bytes (D + of_nat k) ?bs (ram s)" and ?t = "(tcbs s r)\<lparr>rx_buf := cb\<rparr>"
    let ?s = "s\<lparr>ram := ?m, tcbs := (tcbs s)(r := ?t)\<rparr>"
    assume c: "tcp_rx_data_turn r (D + of_nat k) len s = Some (Rx_Goes_On (D + of_nat k + of_nat (min (unat len) (length q)))
        (len - of_nat (min (unat len) (length q))), (set_tcb r (\<lambda>t. t\<lparr>rx_buf := cb\<rparr>) s)\<lparr>ram := ?m\<rparr>)"
      "cb_rep cb ?m (drop (min (unat len) (length q)) q)" "buffer cb = tcb_buf s r" "buf_sz cb = buf_sz (rx_buf (tcbs s r))"
    have kl: "k + length ?bs \<le> ld" using D(3) by simp
    note w = write_net [OF ok D(1) kl]
    have ok': "net_ok ?s L n" using w(1) by (rule net_ok_same) (simp_all add: all_waits_def)
    have "keeps s ?s (without L {D})" using w(2) without_one [OF net_okD(4) [OF ok] D(1)] by (simp add: keeps_def)
    then have kp: "keeps s ?s (without L (tcb_buf s ` {r} \<union> {D}))" by (rule keeps_subset) (auto simp: without_def)
    have lv: "live_area L cb lb" using a c(3,4) by (simp add: live_area_def)
    have t: "tcb_ok ?t ?m L" unfolding tcb_ok_def using c(2) lv tm by (auto simp: timer_ok_def simp del: take_eq_Nil drop_eq_Nil)
    have "without L {D} \<subseteq> L" by (auto simp: without_def)
    then have "tcp_ok ?s L"
      by (intro tcp_ok_step [OF tcp net_okD(4) [OF ok] _ _ _ _ _ _ kp])
        (use r D(2) c(3) t in \<open>simp_all add: all_waits_def\<close>)
    moreover have "(set_tcb r (\<lambda>t. t\<lparr>rx_buf := cb\<rparr>) s)\<lparr>ram := ?m\<rparr> = ?s" by (simp add: set_tcb_def)
    ultimately show ?thesis using c(1) ok' by metis
  qed
qed

text \<open>A connection that could not be opened leaves the table; its buffer is not given back.\<close>

lemma tcp_connect_wait_ok:
  assumes ok: "net_ok s L n" and tcp: "tcp_ok s L" and r: "r \<in> set (tcb_head s)" and st: "tcb_state (tcbs s r) \<noteq> SYN_SENT"
  shows "\<exists>x s' L'. tcp_connect_wait r s = Some (x, s') \<and> net_ok s' L' n \<and> tcp_ok s' L'"
proof -
  have w: "wait_for_volatile_condition (\<lambda>s. tcb_state (tcbs s r) \<noteq> SYN_SENT) tcp_waitq (\<lambda>q s. s\<lparr>tcp_waitq := q\<rparr>) s = Some (True, s)"
    by (rule wait_true) (use st in simp)
  show ?thesis
  proof (cases "tcb_state (tcbs s r) = ESTABLISHED")
    case True
    then show ?thesis using ok tcp unfolding tcp_connect_wait_def w by auto
  next
    case False
    define s1 where "s1 = s\<lparr>tcb_head := remove1 r (tcb_head s)\<rparr>"
    obtain l where l: "(unat r, l) \<in> L" "r \<notin> nodes (all_waits s)" using tcp_okD [OF tcp r] by metis
    have ok1: "net_ok s1 L n" "r \<notin> nodes (all_waits s1)" using ok l(2) by (simp_all add: s1_def all_waits_def)
    obtain m where m: "free_mem r s1 = s1\<lparr>ram := m\<rparr>" "net_ok (s1\<lparr>ram := m\<rparr>) (without L {r}) n"
      "keeps s1 (s1\<lparr>ram := m\<rparr>) (without L {r})" by (rule free_mem_net [OF ok1(1) l(1) ok1(2)])
    have sub: "without L {r, tcb_buf s r} \<subseteq> without L {r}" by (rule without_mono) blast
    have kp: "keeps s (s1\<lparr>ram := m\<rparr>) (without L {r, tcb_buf s r})" using keeps_subset [OF m(3) sub] by (simp add: keeps_def s1_def)
    have "tcp_ok (s1\<lparr>ram := m\<rparr>) (without L {r})"
      by (rule tcp_ok_remove [OF tcp net_okD(4) [OF ok] r _ _ _ kp sub]) (simp_all add: s1_def all_waits_def)
    moreover have "tcp_connect_wait r s = Some (Some 0, s1\<lparr>ram := m\<rparr>)"
      using False r m(1) unfolding tcp_connect_wait_def w by (simp add: tcb_del_def s1_def)
    ultimately show ?thesis using m(2) by blast
  qed
qed


subsection \<open>Runs\<close>

text \<open>What can happen: a segment for TCP is handled, the timer ticks, an application makes a call up to
  its wait or makes the turn of a wait that is over.\<close>

datatype tcp_event = Segment u32 | Tick | Listen u16 | Connect u16 u32 u32 | Connected u32 | Answer u32
  | Send u32 u32 u32 | Receive u32 u32 u32 | Close u32

fun tcp_do :: "tcp_event \<Rightarrow> 'a net_scheme \<Rightarrow> 'a net_scheme option" where
  "tcp_do (Segment pkt) s = tcp_rx_packet pkt s"
| "tcp_do Tick s = tcp_tick s"
| "tcp_do (Listen port) s = map_option snd (tcp_listen port s)"
| "tcp_do (Connect port ip hdr) s = map_option snd (tcp_connect port ip hdr s)"
| "tcp_do (Connected c) s = map_option snd (tcp_connect_wait c s)"
| "tcp_do (Answer c) s = map_option snd (tcp_listen_wait c s)"
| "tcp_do (Send c payload len) s = tcp_tx_data c payload len s"
| "tcp_do (Receive c dst len) s = map_option snd (tcp_rx_data_turn c dst len s)"
| "tcp_do (Close c) s = tcp_close c s"

text \<open>The heap that it needs, at most.\<close>

fun demand :: "tcp_event \<Rightarrow> nat" where
  "demand (Segment pkt) = tcp_demand 0"
| "demand Tick = 0"
| "demand (Listen port) = create_demand"
| "demand (Connect port ip hdr) = tcp_demand 0 + create_demand"
| "demand (Connected c) = 0"
| "demand (Answer c) = tcp_demand 0"
| "demand (Send c payload len) = tcp_demand (unat len)"
| "demand (Receive c dst len) = 0"
| "demand (Close c) = tcp_demand 0"

text \<open>Calls are for connections of the table, buffers are live and not TCP's own, what is waited for holds,
  and no segment comes for a connection in CLOSE_WAIT.\<close>

fun enabled :: "tcp_event \<Rightarrow> 'a net_scheme \<Rightarrow> ledger \<Rightarrow> bool" where
  "enabled (Segment pkt) s L \<longleftrightarrow> (\<exists>F k lf. tcp_frame s L pkt F k lf \<and> F \<notin> tcp_owned s)
     \<and> (\<forall>r. find_tcb (segment_in s pkt) (pkt_src_ip (pkts s pkt)) s = Some r \<longrightarrow> tcb_state (tcbs s r) \<noteq> CLOSE_WAIT)"
| "enabled (Connected c) s L \<longleftrightarrow> c \<in> set (tcb_head s) \<and> tcb_state (tcbs s c) \<noteq> SYN_SENT"
| "enabled (Answer c) s L \<longleftrightarrow> tcb_state (tcbs s c) = SYN_RECEIVED"
| "enabled (Send c payload len) s L \<longleftrightarrow> c \<in> set (tcb_head s) \<and> live_bytes L payload (unat len) \<and> unat len \<le> 2048"
| "enabled (Receive c dst len) s L \<longleftrightarrow> c \<in> set (tcb_head s) \<and> len \<noteq> 0
     \<and> (circular_buf_cur_usage (rx_buf (tcbs s c)) \<noteq> 0 \<or> tcb_state (tcbs s c) = CLOSE_WAIT)
     \<and> (\<exists>D ld k. dst = D + of_nat k \<and> (unat D, ld) \<in> L \<and> D \<notin> tcp_owned s \<and> k + unat len \<le> ld)"
| "enabled (Close c) s L \<longleftrightarrow> c \<in> set (tcb_head s)"
| "enabled _ s L \<longleftrightarrow> True"

text \<open>Each event returns and keeps system and table sound.\<close>

lemma tcp_do_ok:
  assumes ok: "net_ok s L (demand e)" and tcp: "tcp_ok s L" and en: "enabled e s L"
  shows "\<exists>s' L'. tcp_do e s = Some s' \<and> net_ok s' L' 0 \<and> tcp_ok s' L'"
proof -
  have z: "(0 :: nat) = 0 \<or> 16 \<le> (0 :: nat)" by simp
  have ok0: "net_ok s L (0 + demand e)" using ok by simp
  show ?thesis
  proof (cases e)
    case (Segment pkt)
    then obtain F k lf where "tcp_frame s L pkt F k lf" "F \<notin> tcp_owned s" using en by auto
    with segment_handled [OF ok0 [unfolded Segment demand.simps] z _ tcp] en Segment show ?thesis by (simp; blast)
  next
    case Tick
    obtain s' where "tcp_tick s = Some s'" "net_ok s' (without L (expired s)) 0" "tcp_ok s' (without L (expired s))"
      by (rule tcp_tick_ok [OF ok [unfolded Tick demand.simps] tcp]) (rule that)
    then show ?thesis using Tick by auto
  next
    case (Listen port)
    then show ?thesis using tcp_listen_ok [OF ok0 [unfolded Listen demand.simps] z tcp, of port] by force
  next
    case (Connect port ip hdr)
    then show ?thesis
      using tcp_connect_ok [OF ok0 [unfolded Connect demand.simps add.assoc [symmetric]] z tcp, of port ip hdr] by force
  next
    case (Connected c)
    then show ?thesis using tcp_connect_wait_ok [OF ok [unfolded Connected demand.simps] tcp, of c] en by force
  next
    case (Answer c)
    then show ?thesis using tcp_listen_wait_ok [OF ok0 [unfolded Answer demand.simps] z tcp, of c] en by force
  next
    case (Send c payload len)
    then show ?thesis using tcp_tx_data_ok [OF ok0 [unfolded Send demand.simps] z tcp, of c payload] en by simp
  next
    case (Receive c dst len)
    then obtain D ld k where "dst = D + of_nat k" "(unat D, ld) \<in> L" "D \<notin> tcp_owned s" "k + unat len \<le> ld" using en by auto
    then show ?thesis
      using tcp_rx_data_turn_ok [OF ok [unfolded Receive demand.simps] tcp, of c len D ld k] en Receive by force
  next
    case (Close c)
    then show ?thesis using tcp_close_ok [OF ok0 [unfolded Close demand.simps] z tcp, of c] en by simp
  qed
qed

text \<open>A step of the rest of the system: it leaves the table, its TCBs and their buffers alone, does not
  give them back, puts no sleeper into them, and keeps the system sound.\<close>

definition elsewhere :: "'a net_scheme \<Rightarrow> ledger \<Rightarrow> 'a net_scheme \<Rightarrow> bool" where
  "elsewhere s L s' \<longleftrightarrow> tcbs s' = tcbs s \<and> tcb_head s' = tcb_head s \<and> tcp_owned s \<inter> nodes (all_waits s') = {}
     \<and> (\<exists>L'. net_ok s' L' 0 \<and> {(p, l) \<in> L. p \<in> unat ` tcp_owned s} \<subseteq> L')
     \<and> keeps s s' {(p, l) \<in> L. p \<in> unat ` tcp_owned s}"

lemma elsewhere_ok:
  assumes ok: "net_ok s L 0" and tcp: "tcp_ok s L" and e: "elsewhere s L s'"
  shows "\<exists>L'. net_ok s' L' 0 \<and> tcp_ok s' L'"
proof -
  let ?K = "{(p, l) \<in> L. p \<in> unat ` tcp_owned s}"
  obtain L' where L': "net_ok s' L' 0" "?K \<subseteq> L'" and f: "tcbs s' = tcbs s" "tcb_head s' = tcb_head s"
    "tcp_owned s \<inter> nodes (all_waits s') = {}" "keeps s s' ?K" using e by (auto simp: elsewhere_def)
  have own: "tcp_owned s' = tcp_owned s" by (simp add: tcp_owned_def f)
  have each: "(\<exists>l. (unat r, l) \<in> L') \<and> tcb_ok (tcbs s r) (ram s') L'" if r: "r \<in> set (tcb_head s)" for r
  proof
    have o: "r \<in> tcp_owned s" "tcb_buf s r \<in> tcp_owned s" using r by (auto simp: tcp_owned_def)
    show "\<exists>l. (unat r, l) \<in> L'" using owned_live [OF tcp o(1)] o(1) L'(2) by blast
    have "tcb_ok (tcbs s r) (ram s) L" using tcp r by (simp add: tcp_ok_def)
    then show "tcb_ok (tcbs s r) (ram s') L'"
      by (rule tcb_ok_keeps [OF _ f(4) net_okD(4) [OF ok]]) (use o(2) L'(2) in blast)
  qed
  have "tcp_ok s' L'" using tcp each f(3) unfolding tcp_ok_def own f(1,2) by blast
  with L'(1) show ?thesis by blast
qed

inductive tcp_run :: "'a net_scheme \<Rightarrow> 'a net_scheme \<Rightarrow> bool" for s0 where
  start: "tcp_run s0 s0"
| event: "tcp_run s0 s \<Longrightarrow> net_ok s L (demand e) \<Longrightarrow> enabled e s L \<Longrightarrow> tcp_do e s = Some s' \<Longrightarrow> tcp_run s0 s'"
| others: "tcp_run s0 s \<Longrightarrow> net_ok s L 0 \<Longrightarrow> elsewhere s L s' \<Longrightarrow> tcp_run s0 s'"

lemma net_ok_ledger: "net_ok s L n \<Longrightarrow> net_ok s K k \<Longrightarrow> L = K"
  by (rule heap_rep_unique) (auto dest: net_okD(4))

lemma tcp_run_ok:
  assumes "tcp_run s0 s" "net_ok s0 L0 0" "tcb_head s0 = []"
  shows "\<exists>L. net_ok s L 0 \<and> tcp_ok s L"
  using assms
proof (induction rule: tcp_run.induct)
  case start
  then have "tcp_ok s0 L0" by (simp add: tcp_ok_def tcp_owned_def)
  with start(1) show ?case by blast
next
  case (event s L e s')
  then obtain K where K: "net_ok s K 0" "tcp_ok s K" by blast
  then have "tcp_ok s L" using net_ok_ledger [OF event(2) K(1)] by simp
  with tcp_do_ok [OF event(2) _ event(3)] event(4) show ?case by auto
next
  case (others s L s')
  then obtain K where K: "net_ok s K 0" "tcp_ok s K" by blast
  then have "tcp_ok s L" using net_ok_ledger [OF others(2) K(1)] by simp
  with elsewhere_ok [OF others(2) _ others(3)] show ?case by blast
qed

text \<open>C6: TCP is safe in every run. Begin with an empty table in a sound system; let segments arrive, the
  timer tick, and applications open, use and close connections in any order, with steps of the rest of
  the system in between that leave TCP's memory alone. In every state the system is sound and the
  table well-formed: every TCB is an allocation and has a circular buffer of its own. And every event that
  is enabled there, and for whose allocations the heap has room, returns; it leads to a state of the run.\<close>

theorem tcp_runs_safe:
  assumes start: "net_ok s0 L0 0" "tcb_head s0 = []" and run: "tcp_run s0 s"
  shows "\<exists>L. net_ok s L 0 \<and> tcp_ok s L
    \<and> (\<forall>e. net_ok s L (demand e) \<longrightarrow> enabled e s L \<longrightarrow> (\<exists>s'. tcp_do e s = Some s' \<and> tcp_run s0 s'))"
proof -
  obtain L where L: "net_ok s L 0" "tcp_ok s L" using tcp_run_ok [OF run start] by blast
  have "\<exists>s'. tcp_do e s = Some s' \<and> tcp_run s0 s'" if e: "net_ok s L (demand e)" "enabled e s L" for e
    using tcp_do_ok [OF e(1) L(2) e(2)] tcp_run.event [OF run e] by blast
  with L show ?thesis by blast
qed

lemma tcp_runs_safe_witness:
  "\<exists>(s :: net) L. tcp_do (Listen 80) boot_net = Some s \<and> net_ok s L 0 \<and> tcp_ok s L \<and> (\<exists>s2. tcp_do Tick s = Some s2 \<and> tcp_run boot_net s2)"
proof -
  have ok: "net_ok (boot_net :: net) {} 0" "tcb_head (boot_net :: net) = []"
    "net_ok (boot_net :: net) {} (demand (Listen 80))"
    using boot_net_ok by (auto intro: net_ok_mono simp: create_demand_def block_size_of_def boot_net_def)
  obtain s :: net where s: "tcp_do (Listen 80) boot_net = Some s" "tcp_run boot_net s"
    using tcp_do_ok [OF ok(3)] ok(2) tcp_run.event [OF tcp_run.start ok(3)] by (auto simp: tcp_ok_def tcp_owned_def)
  obtain L where L: "net_ok s L 0" "tcp_ok s L"
    "\<And>e. net_ok s L (demand e) \<Longrightarrow> enabled e s L \<Longrightarrow> \<exists>s'. tcp_do e s = Some s' \<and> tcp_run boot_net s'"
    using tcp_runs_safe [OF ok(1,2) s(2)] by blast
  have "\<exists>s2. tcp_do Tick s = Some s2 \<and> tcp_run boot_net s2" by (rule L(3)) (use L(1) in simp_all)
  with s(1) L(1,2) show ?thesis by blast
qed

end
