(* ===== verification/Rx_Task.thy ===== *)
theory Rx_Task
  imports Udp Tcp
begin

text \<open>
  The receive task of \<open>protocol.c\<close>, which passes a packet from handler to handler until it is
  dropped, the functions behind the timer interrupt, and the initcalls.
\<close>

unbundle bit_operations_syntax

text \<open>\<open>proto->rx_pkt(pkt)\<close>: the function in the \<open>struct protocol_t\<close> of that type.\<close>

fun rx_pkt :: "protocol_type \<Rightarrow> u32 \<Rightarrow> 'a net_scheme \<Rightarrow> 'a net_scheme option" where
  "rx_pkt ETHERNET pkt s = Some (ethernet_rx_pkt pkt s)"
| "rx_pkt IPV4 pkt s = Some (ipv4_rx_packet pkt s)"
| "rx_pkt UDP pkt s = udp_rx_packet pkt s"
| "rx_pkt TCP pkt s = tcp_rx_packet pkt s"
| "rx_pkt ARP pkt s = arp_rx_packet pkt s"
| "rx_pkt DROP pkt s = None"

text \<open>The inner loop of \<open>rx_task\<close>.\<close>

partial_function (option) rx_process :: "u32 \<Rightarrow> 'a net_scheme \<Rightarrow> 'a net_scheme option" where
  "rx_process pkt s =
     do {
       s \<leftarrow> (case resolve_pkt_protocol pkt s of
               None \<Rightarrow> Some (set_pkt pkt (\<lambda>p. p\<lparr>pkt_handler := DROP\<rparr>) s)
             | Some proto \<Rightarrow> rx_pkt proto pkt s);
       if pkt_handler (pkts s pkt) = DROP then Some (packet_destroy pkt s) else rx_process pkt s
     }"

definition pkt_rx_pop :: "'a net_scheme \<Rightarrow> u32 \<times> 'a net_scheme" where
  "pkt_rx_pop s = (case pkt_rx_q s of [] \<Rightarrow> (0, s) | p # ps \<Rightarrow> (p, s\<lparr>pkt_rx_q := ps\<rparr>))"

text \<open>One turn of \<open>rx_task\<close>: \<open>False\<close> when it has gone to sleep.\<close>

definition rx_task_turn :: "'a net_scheme \<Rightarrow> (bool \<times> 'a net_scheme) option" where
  "rx_task_turn s =
     do {
       (awake, s) \<leftarrow> wait_for_volatile_condition (\<lambda>s. pkt_rx_q s \<noteq> []) rx_waitq (\<lambda>q s. s\<lparr>rx_waitq := q\<rparr>) s;
       if \<not> awake then Some (False, s)
       else do {
         let (flags, s) = irq_disable s;
         let (pkt, s) = pkt_rx_pop s;
         let s = irq_enable flags s;
         if pkt = 0 then Some (True, s)
         else do { s \<leftarrow> rx_process pkt s; Some (True, s) }
       }
     }"

text \<open>The timer interrupt with the two functions that register themselves.\<close>

fun tick_call :: "tick_fn \<Rightarrow> 'a net_scheme \<Rightarrow> 'a net_scheme option" where
  "tick_call ARP_TICK s = Some (arp_tick s)"
| "tick_call TCP_TICK s = tcp_tick s"

end
