(* ===== verification/Receive.thy ===== *)
theory Receive
  imports Ipv4_Properties Udp_Properties Rx_Task
begin

text \<open>
  The receive path as a whole: what each handler does to a packet, the loop that passes it from
  handler to handler until it is dropped, and the way of a UDP datagram from the Ethernet MAC to the
  buffer of its listener.
\<close>

unbundle bit_operations_syntax

subsection \<open>Which bytes a handler changes\<close>

lemma swap_frame:
  "\<not> in_range p 2 x \<Longrightarrow> swap_endian16 p m x = m x" "\<not> in_range p 4 x \<Longrightarrow> swap_endian32 p m x = m x"
  by (auto simp: bytes_simps in_range_def)

lemma ip4_swap_frame:
  assumes "\<not> in_range h 20 x"
  shows "ip4_swap_endian h m x = m x"
proof -
  have out: "\<not> in_range (h + of_nat k) n x" if "k + n \<le> 20" for k n
    using in_range_sub [of h k n x 20] that assms by auto
  show ?thesis
    using out [of 2 2] out [of 4 2] out [of 12 4] out [of 16 4]
    by (simp add: ip4_swap_endian_def Let_def swap_frame)
qed

text \<open>Bytes of a frame at different offsets.\<close>

lemma offset_out:
  assumes "k + n \<le> j" "j < 2 ^ 31"
  shows "\<not> in_range (F + of_nat k) n (F + of_nat j :: u32)"
proof -
  have "F + of_nat j - (F + of_nat k) = (of_nat (j - k) :: u32)" using assms(1) by (simp add: of_nat_diff)
  moreover have "unat (of_nat (j - k) :: u32) = j - k" by (rule unat_of_nat_u32) (use assms in simp)
  ultimately show ?thesis using assms by (simp add: in_range_def)
qed

subsection \<open>The handlers\<close>

definition ether_next :: "mem \<Rightarrow> u32 \<Rightarrow> protocol_type" where
  "ether_next m F = (if be16 m (F + 12) = 0x0806 then ARP else if be16 m (F + 12) = 0x0800 then IPV4 else DROP)"

lemma ethernet_rx_eq:
  assumes "pkt_cur_data (pkts s pkt) = F"
  shows "ethernet_rx_pkt pkt s = s\<lparr>ram := swap_endian16 (F + 12) (ram s), pkts := (pkts s)(pkt := (pkts s pkt)\<lparr>
      pkt_cur_data := F + 14, pkt_cur_data_length := pkt_cur_data_length (pkts s pkt) - 14, pkt_handler := ether_next (ram s) F\<rparr>),
    no_dropped_packets := no_dropped_packets s + (if ether_next (ram s) F = DROP then 1 else 0)\<rparr>"
  using assms
  by (simp add: ethernet_rx_pkt_def Let_def set_pkt_def sizeof_ethernet_header_def ETHERTYPE_ARP_def ETHERTYPE_IP_def
      load16_swap_endian16 ether_next_def)

lemma rx_process_step:
  assumes "pkt_handler (pkts s pkt) \<in> set (protocol_head s)" "rx_pkt (pkt_handler (pkts s pkt)) pkt s = Some s1"
  shows "rx_process pkt s = (if pkt_handler (pkts s1 pkt) = DROP then Some (packet_destroy pkt s1) else rx_process pkt s1)"
  using assms by (subst rx_process.simps) (simp add: resolve_pkt_protocol_eq)

text \<open>A packet that holds the whole frame \<open>F\<close>; both are allocations and neither is a wait queue's.\<close>

definition frame_packet :: "'a net_scheme \<Rightarrow> ledger \<Rightarrow> u32 \<Rightarrow> u32 \<Rightarrow> nat \<Rightarrow> nat \<Rightarrow> bool" where
  "frame_packet s L pkt F lp lf \<longleftrightarrow> (unat pkt, lp) \<in> L \<and> (unat F, lf) \<in> L \<and> F \<noteq> pkt
     \<and> pkt_data (pkts s pkt) = F \<and> pkt_cur_data (pkts s pkt) = F \<and> pkt_handler (pkts s pkt) = ETHERNET
     \<and> unat (pkt_cur_data_length (pkts s pkt)) \<le> lf \<and> pkt \<notin> nodes (all_waits s) \<and> F \<notin> nodes (all_waits s)"

text \<open>The frame is a UDP datagram for us in an IP packet. \<open>ip_len\<close> is the length of the IP header.\<close>

definition udp_in_ip :: "mem \<Rightarrow> u32 \<Rightarrow> bool" where
  "udp_in_ip m F \<longleftrightarrow> be16 m (F + 12) = 0x0800 \<and> m (F + 22) \<noteq> 0 \<and> m (F + 23) = 17 \<and> be32 m (F + 30) = 0xC0A800AB"

definition ip_len :: "mem \<Rightarrow> u32 \<Rightarrow> u32" where
  "ip_len m F = ucast (m (F + 14) AND 0xF) * 4"

text \<open>The Ethernet and the IP handler make a UDP packet of it.\<close>

lemma udp_in_ip_stages:
  assumes ok: "net_ok s L n" and fr: "frame_packet s L pkt F lp lf" and u: "udp_in_ip (ram s) F"
    and lf: "34 \<le> lf" and reg: "{ETHERNET, IPV4} \<subseteq> set (protocol_head s)" and hl: "hl = ip_len (ram s) F"
  obtains s2 m where "rx_process pkt s = rx_process pkt s2"
    "s2 = s\<lparr>ram := m, pkts := (pkts s)(pkt := (pkts s pkt)\<lparr>pkt_cur_data := F + 14 + hl,
       pkt_cur_data_length := pkt_cur_data_length (pkts s pkt) - 14 - hl, pkt_dst_ip := 0xC0A800AB,
       pkt_src_ip := be32 (ram s) (F + 26), pkt_handler := UDP\<rparr>)\<rparr>"
    "net_ok s2 L n" "keeps s s2 (L - {(unat F, lf)})" "\<And>j. 34 \<le> j \<Longrightarrow> j < 2 ^ 31 \<Longrightarrow> m (F + of_nat j) = ram s (F + of_nat j)"
proof -
  have f: "(unat F, lf) \<in> L" "pkt_cur_data (pkts s pkt) = F" "pkt_handler (pkts s pkt) = ETHERNET"
    using fr by (simp_all add: frame_packet_def)
  have nx: "ether_next (ram s) F = IPV4" using u by (simp add: ether_next_def udp_in_ip_def)
  let ?m1 = "swap_endian16 (F + 12) (ram s)"
  let ?m = "ip4_swap_endian (F + 14) ?m1"
  let ?len = "pkt_cur_data_length (pkts s pkt)"
  define s1 where "s1 = s\<lparr>ram := ?m1, pkts := (pkts s)(pkt := (pkts s pkt)\<lparr>pkt_cur_data := F + 14,
    pkt_cur_data_length := ?len - 14, pkt_handler := IPV4\<rparr>)\<rparr>"
  have s1: "ethernet_rx_pkt pkt s = s1" by (simp add: ethernet_rx_eq [OF f(2)] nx s1_def)
  have e1: "rx_process pkt s = rx_process pkt s1"
    using rx_process_step [of s pkt s1] f(3) reg s1 by (simp add: s1_def)
  have fld: "?m1 (F + 14) = ram s (F + 14)" "?m1 (F + 22) = ram s (F + 22)" "?m1 (F + 23) = ram s (F + 23)"
    "be32 ?m1 (F + 26) = be32 (ram s) (F + 26)" "be32 ?m1 (F + 30) = be32 (ram s) (F + 30)"
    by (simp_all add: bytes_simps)
  have acc: "ram s (F + 22) \<noteq> 0" "ram s (F + 23) = 17" "be32 (ram s) (F + 30) = 0xC0A800AB"
    using u by (simp_all add: udp_in_ip_def)
  define s2 where "s2 = s\<lparr>ram := ?m, pkts := (pkts s)(pkt := (pkts s pkt)\<lparr>pkt_cur_data := F + 14 + hl,
       pkt_cur_data_length := ?len - 14 - hl, pkt_dst_ip := 0xC0A800AB,
       pkt_src_ip := be32 (ram s) (F + 26), pkt_handler := UDP\<rparr>)\<rparr>"
  have s2: "ipv4_rx_packet pkt s1 = s2"
    using fld acc ip4_swap_endian_fields [of "F + 14" ?m1] unfolding hl
    by (simp add: ipv4_rx_packet_def Let_def set_pkt_def s1_def s2_def hl ip_len_def
        IP_PROTO_UDP_def IP_PROTO_TCP_def OUR_IP_ADDRESS_def add.assoc)
  have e2: "rx_process pkt s1 = rx_process pkt s2"
    using rx_process_step [of s1 pkt s2] reg s2 by (simp add: s1_def) (simp add: s2_def)
  have out: "?m x = ram s x" if "\<not> in_range (F + of_nat 12) 22 x" for x
  proof -
    have "\<not> in_range (F + of_nat 12 + of_nat 2) 20 x" "\<not> in_range (F + of_nat 12 + of_nat 0) 2 x"
      using in_range_sub [of "F + of_nat 12" 2 20 x 22] in_range_sub [of "F + of_nat 12" 0 2 x 22] that by auto
    then show ?thesis by (simp add: ip4_swap_frame swap_frame add.assoc)
  qed
  have fit: "12 + 22 \<le> lf" using lf by simp
  note c = change_net [OF ok f(1) fit out]
  have "net_ok s2 L n" by (rule net_ok_same [OF c(1)]) (simp_all add: s2_def all_waits_def)
  moreover have "keeps s s2 (L - {(unat F, lf)})" using c(2) by (simp add: keeps_def s2_def)
  moreover have "?m (F + of_nat j) = ram s (F + of_nat j)" if "34 \<le> j" "j < 2 ^ 31" for j
    by (rule out) (use offset_out [of 12 22 j F] that in simp)
  ultimately show thesis using that [of s2 ?m] e1 e2 s2_def by simp
qed

text \<open>The frame has an IP header without options.\<close>

definition udp_frame :: "mem \<Rightarrow> u32 \<Rightarrow> bool" where
  "udp_frame m F \<longleftrightarrow> udp_in_ip m F \<and> m (F + 14) AND 0xF = 5"

lemma udp_frame_stages:
  assumes ok: "net_ok s L n" and fr: "frame_packet s L pkt F lp lf" and u: "udp_frame (ram s) F"
    and len: "42 \<le> unat (pkt_cur_data_length (pkts s pkt))" and reg: "{ETHERNET, IPV4} \<subseteq> set (protocol_head s)"
  obtains s2 m where "rx_process pkt s = rx_process pkt s2"
    "s2 = s\<lparr>ram := m, pkts := (pkts s)(pkt := (pkts s pkt)\<lparr>pkt_cur_data := F + 34,
       pkt_cur_data_length := pkt_cur_data_length (pkts s pkt) - 34, pkt_dst_ip := 0xC0A800AB,
       pkt_src_ip := be32 (ram s) (F + 26), pkt_handler := UDP\<rparr>)\<rparr>"
    "net_ok s2 L n" "keeps s s2 (L - {(unat F, lf)})" "\<And>j. 34 \<le> j \<Longrightarrow> j < 2 ^ 31 \<Longrightarrow> m (F + of_nat j) = ram s (F + of_nat j)"
proof -
  have x: "udp_in_ip (ram s) F" "34 \<le> lf" "20 = ip_len (ram s) F"
    using u fr len by (simp_all add: udp_frame_def ip_len_def frame_packet_def)
  obtain s2 m where st: "rx_process pkt s = rx_process pkt s2"
    "s2 = s\<lparr>ram := m, pkts := (pkts s)(pkt := (pkts s pkt)\<lparr>pkt_cur_data := F + 14 + 20,
       pkt_cur_data_length := pkt_cur_data_length (pkts s pkt) - 14 - 20, pkt_dst_ip := 0xC0A800AB,
       pkt_src_ip := be32 (ram s) (F + 26), pkt_handler := UDP\<rparr>)\<rparr>"
    "net_ok s2 L n" "keeps s s2 (L - {(unat F, lf)})" "\<And>j. 34 \<le> j \<Longrightarrow> j < 2 ^ 31 \<Longrightarrow> m (F + of_nat j) = ram s (F + of_nat j)"
    by (rule udp_in_ip_stages [OF ok fr x(1,2) reg x(3)]) (rule that)
  show thesis by (rule that [OF st(1) _ st(3-5)]) (simp_all add: st(2) add.commute [of 34])
qed

lemma rx_task_turn_pop:
  assumes q: "pkt_rx_q s = pkt # rest" and "pkt \<noteq> 0"
  shows "rx_task_turn s = map_option (Pair True) (rx_process pkt (s\<lparr>pkt_rx_q := rest\<rparr>))"
proof -
  have wt: "wait_for_volatile_condition (\<lambda>s. pkt_rx_q s \<noteq> []) rx_waitq (\<lambda>q s. s\<lparr>rx_waitq := q\<rparr>) s = Some (True, s)"
    by (rule wait_true) (simp add: q)
  show ?thesis
    unfolding rx_task_turn_def wt
    by (cases "rx_process pkt (s\<lparr>pkt_rx_q := rest\<rparr>)") (use assms in \<open>simp_all add: pkt_rx_pop_def irq_defs\<close>)
qed

subsection \<open>A datagram on its way to a listener\<close>

text \<open>\<open>i\<close> is the only listener on the port of the datagram in \<open>F\<close>; its buffer is an allocation of its
  own with \<open>ul_dst_buf_sz\<close> bytes.\<close>

definition listens :: "'a net_scheme \<Rightarrow> ledger \<Rightarrow> u32 \<Rightarrow> u32 \<Rightarrow> u32 \<Rightarrow> nat \<Rightarrow> bool" where
  "listens s L pkt F i lb \<longleftrightarrow> i \<in> set (udp_rx_requests s) \<and> distinct (udp_rx_requests s)
     \<and> ul_port (listeners s i) = be16 (ram s) (F + 36)
     \<and> (\<forall>j \<in> set (udp_rx_requests s). j \<noteq> i \<longrightarrow> ul_port (listeners s j) \<noteq> be16 (ram s) (F + 36))
     \<and> ul_dst_buf_ptr (listeners s i) \<le> ul_dst_buf_sz (listeners s i)
     \<and> (unat (ul_dst_buf (listeners s i)), lb) \<in> L \<and> unat (ul_dst_buf_sz (listeners s i)) \<le> lb
     \<and> ul_dst_buf (listeners s i) \<notin> nodes (udp_waitq s) \<union> {pkt, F}"

lemma udp_frame_processed:
  assumes ok: "net_ok s L n" and fr: "frame_packet s L pkt F lp lf" and u: "udp_frame (ram s) F"
    and len: "42 \<le> unat (pkt_cur_data_length (pkts s pkt))" and reg: "{ETHERNET, IPV4, UDP} \<subseteq> set (protocol_head s)"
    and ls: "listens s L pkt F i lb" and l: "l = listeners s i"
    and c: "c = udp_take l (unat (pkt_cur_data_length (pkts s pkt)) - 42)"
  shows "\<exists>s'. rx_process pkt s = Some s' \<and> net_ok s' (without L ({pkt, F} \<union> nodes (udp_waitq s))) n
    \<and> read_bytes (ram s') (ul_dst_buf l + ucast (ul_dst_buf_ptr l)) c = read_bytes (ram s) (F + 42) c
    \<and> listeners s' = (listeners s)(i := l\<lparr>ul_dst_buf_ptr := ul_dst_buf_ptr l + of_nat c\<rparr>)
    \<and> pkt_rx_q s' = pkt_rx_q s \<and> udp_waitq s' = [] \<and> runqueue s' = rev (map snd (udp_waitq s)) @ runqueue s
    \<and> primask s' = primask s \<and> keeps s s' (without L ({pkt, F, ul_dst_buf l} \<union> nodes (udp_waitq s)))"
proof -
  let ?len = "pkt_cur_data_length (pkts s pkt)" and ?N = "nodes (udp_waitq s)"
  have f: "(unat pkt, lp) \<in> L" "(unat F, lf) \<in> L" "F \<noteq> pkt" "pkt_data (pkts s pkt) = F" "unat ?len \<le> lf"
    "pkt \<notin> nodes (all_waits s)" "F \<notin> nodes (all_waits s)"
    using fr by (simp_all add: frame_packet_def)
  have reg2: "{ETHERNET, IPV4} \<subseteq> set (protocol_head s)" using reg by simp
  obtain s2 m2 where st: "rx_process pkt s = rx_process pkt s2"
    "s2 = s\<lparr>ram := m2, pkts := (pkts s)(pkt := (pkts s pkt)\<lparr>pkt_cur_data := F + 34,
       pkt_cur_data_length := pkt_cur_data_length (pkts s pkt) - 34, pkt_dst_ip := 0xC0A800AB,
       pkt_src_ip := be32 (ram s) (F + 26), pkt_handler := UDP\<rparr>)\<rparr>"
    "net_ok s2 L n" "keeps s s2 (L - {(unat F, lf)})" "\<And>j. 34 \<le> j \<Longrightarrow> j < 2 ^ 31 \<Longrightarrow> m2 (F + of_nat j) = ram s (F + of_nat j)"
    by (rule udp_frame_stages [OF ok fr u len reg2]) (rule that)
  have ul: "unat (?len - 34) = unat ?len - 34" using len by (simp add: unat_sub word_le_nat_alt)
  have up: "udp_packet s2 L pkt F 34 lf"
    using f(2,5) len ul by (simp add: udp_packet_def st(2))
  have port: "be16 m2 (F + 36) = be16 (ram s) (F + 36)"
    using st(5) [of 36] st(5) [of 37] by (simp add: be16_le add.assoc)
  have li: "i \<in> set (udp_rx_requests s2)" "distinct (udp_rx_requests s2)" "listeners s2 i = l"
    "ul_port l = be16 (ram s2) (pkt_cur_data (pkts s2 pkt) + 2)"
    "\<forall>j \<in> set (udp_rx_requests s2). j \<noteq> i \<longrightarrow> ul_port (listeners s2 j) \<noteq> ul_port l" "ul_dst_buf_ptr l \<le> ul_dst_buf_sz l"
    "(unat (ul_dst_buf l), lb) \<in> L" "unat (ul_dst_buf_sz l) \<le> lb" "ul_dst_buf l \<notin> nodes (udp_waitq s2)"
    using ls port by (simp_all add: listens_def st(2) l add.assoc)
  have B: "ul_dst_buf l \<noteq> pkt" "ul_dst_buf l \<noteq> F" "ul_dst_buf l \<notin> ?N" using ls by (simp_all add: listens_def l)
  have c2: "c = udp_take l (unat (pkt_cur_data_length (pkts s2 pkt)) - 8)" using ul by (simp add: c st(2))
  obtain m3 pr s3 where d: "s3 = (woken (udp_waitq s2) m3 pr s2)\<lparr>pkts := (pkts s2)(pkt := (pkts s2 pkt)\<lparr>
      pkt_cur_data := pkt_cur_data (pkts s2 pkt) + 8, pkt_cur_data_length := pkt_cur_data_length (pkts s2 pkt) - 8, pkt_handler := DROP\<rparr>),
      listeners := (listeners s2)(i := l\<lparr>ul_dst_buf_ptr := ul_dst_buf_ptr l + of_nat c\<rparr>), udp_waitq := []\<rparr>"
    "udp_rx_packet pkt s2 = Some s3" "net_ok s3 (without L (nodes (udp_waitq s2))) n"
    "read_bytes m3 (ul_dst_buf l + ucast (ul_dst_buf_ptr l)) c = read_bytes (ram s2) (pkt_cur_data (pkts s2 pkt) + 8) c"
    "keeps s2 s3 (without L ({F, ul_dst_buf l} \<union> nodes (udp_waitq s2)))"
    using udp_rx_packet_ok [OF st(3) up li(3) li(1,2,4-9) c2 refl] by (elim exE conjE) (rule that)
  have w: "udp_waitq s2 = udp_waitq s" by (simp add: st(2))
  have e3: "rx_process pkt s2 = Some (packet_destroy pkt s3)"
    using rx_process_step [of s2 pkt s3] reg d(2) by (simp add: st(2)) (simp add: d(1))
  have p3: "pkt_data (pkts s3 pkt) = F" using f(4) by (simp add: d(1) st(2))
  have sub: "nodes (all_waits s3) \<subseteq> nodes (all_waits s)" by (auto simp: d(1) st(2) all_waits_def nodes_def)
  have N: "pkt \<notin> ?N" "F \<notin> ?N" using f(6,7) by (auto simp: all_waits_def nodes_def)
  obtain m4 where m4: "packet_destroy pkt s3 = s3\<lparr>ram := m4\<rparr>"
    "net_ok (s3\<lparr>ram := m4\<rparr>) (without (without L ?N) {pkt, F}) n" "keeps s3 (s3\<lparr>ram := m4\<rparr>) (without (without L ?N) {pkt, F})"
    using packet_destroy_ok [OF d(3), of pkt lp lf, unfolded w p3] without_in [OF f(1) N(1)] without_in [OF f(2) N(2)] f(3,6,7) sub
    by blast
  have LL: "without (without L ?N) {pkt, F} = without L ({pkt, F} \<union> ?N)" by (simp add: without_without Un_commute)
  have Bw: "(unat (ul_dst_buf l), lb) \<in> without L ({pkt, F} \<union> ?N)" by (rule without_in [OF li(7)]) (use B in auto)
  have fit: "unat (ul_dst_buf_ptr l) + c \<le> lb" using li(6,8) by (simp add: c udp_take_def word_le_nat_alt)
  have lv: "live_bytes (without L ({pkt, F} \<union> ?N)) (ul_dst_buf l + ucast (ul_dst_buf_ptr l)) c"
    using live_bytes_mono [OF live_bytes_buf [OF net_okD(4) [OF ok] li(7) fit]] Bw by simp
  have "read_bytes m4 (ul_dst_buf l + ucast (ul_dst_buf_ptr l)) c = read_bytes m3 (ul_dst_buf l + ucast (ul_dst_buf_ptr l)) c"
    using read_bytes_keeps [OF m4(3) [unfolded LL] lv] by (simp add: d(1))
  also have "\<dots> = read_bytes m2 (F + 42) c" using d(4) by (simp add: st(2) add.assoc)
  also have "\<dots> = read_bytes (ram s) (F + 42) c"
  proof (rule read_bytes_cong)
    fix j assume "j < c"
    then have "j < 2 ^ 16" using unat16 [of "ul_dst_buf_sz l"] by (simp add: c udp_take_def) linarith
    then show "m2 (F + 42 + of_nat j) = ram s (F + 42 + of_nat j)" using st(5) [of "42 + j"] by (simp add: add.assoc)
  qed
  finally have rd: "read_bytes m4 (ul_dst_buf l + ucast (ul_dst_buf_ptr l)) c = read_bytes (ram s) (F + 42) c" .
  have K: "keeps s (s3\<lparr>ram := m4\<rparr>) (without L ({pkt, F, ul_dst_buf l} \<union> ?N))"
  proof -
    let ?K = "without L ({pkt, F, ul_dst_buf l} \<union> ?N)"
    have "?K \<subseteq> L - {(unat F, lf)}" "?K \<subseteq> without L ({F, ul_dst_buf l} \<union> ?N)" "?K \<subseteq> without L ({pkt, F} \<union> ?N)"
      by (auto simp: without_def)
    then show ?thesis
      using keeps_trans [OF keeps_trans [OF keeps_subset [OF st(4)] keeps_subset [OF d(5) [unfolded w]]] keeps_subset [OF m4(3) [unfolded LL]]]
      by blast
  qed
  have fields: "listeners (s3\<lparr>ram := m4\<rparr>) = (listeners s)(i := l\<lparr>ul_dst_buf_ptr := ul_dst_buf_ptr l + of_nat c\<rparr>)"
    "pkt_rx_q (s3\<lparr>ram := m4\<rparr>) = pkt_rx_q s" "udp_waitq (s3\<lparr>ram := m4\<rparr>) = []"
    "runqueue (s3\<lparr>ram := m4\<rparr>) = rev (map snd (udp_waitq s)) @ runqueue s" "primask (s3\<lparr>ram := m4\<rparr>) = primask s"
    by (simp_all add: d(1) st(2))
  show ?thesis
    by (rule exI [of _ "s3\<lparr>ram := m4\<rparr>"]) (use st(1) e3 m4(1,2) rd K in \<open>simp add: fields LL del: Un_insert_left\<close>)
qed

text \<open>C9: when a received frame with a UDP datagram for us is at the head of the packet queue, a turn of
  \<open>rx_task\<close> takes it through the Ethernet, IP and UDP handlers: as much of the payload as the listener
  of its port still has room for is appended to the listener's buffer, the sleepers on UDP are woken,
  and packet and frame are given back to the heap. All other memory in use is as before.\<close>

theorem udp_frame_received:
  assumes ok: "net_ok s L n" and q: "pkt_rx_q s = pkt # rest" and reg: "{ETHERNET, IPV4, UDP} \<subseteq> set (protocol_head s)"
    and fr: "frame_packet s L pkt F lp lf" and u: "udp_frame (ram s) F" and len: "42 \<le> unat (pkt_cur_data_length (pkts s pkt))"
    and ls: "listens s L pkt F i lb"
  shows "let l = listeners s i; N = nodes (udp_waitq s); c = udp_take l (unat (pkt_cur_data_length (pkts s pkt)) - 42) in
    \<exists>s'. rx_task_turn s = Some (True, s') \<and> pkt_rx_q s' = rest
      \<and> read_bytes (ram s') (ul_dst_buf l + ucast (ul_dst_buf_ptr l)) c = read_bytes (ram s) (F + 42) c
      \<and> listeners s' = (listeners s)(i := l\<lparr>ul_dst_buf_ptr := ul_dst_buf_ptr l + of_nat c\<rparr>)
      \<and> udp_waitq s' = [] \<and> runqueue s' = rev (map snd (udp_waitq s)) @ runqueue s
      \<and> net_ok s' (without L ({pkt, F} \<union> N)) n \<and> keeps s s' (without L ({pkt, F, ul_dst_buf l} \<union> N))"
proof -
  let ?s = "s\<lparr>pkt_rx_q := rest\<rparr>"
  have "pkt \<noteq> 0" using live_nonzero [OF ok] fr by (auto simp: frame_packet_def)
  then have turn: "rx_task_turn s = map_option (Pair True) (rx_process pkt ?s)" by (rule rx_task_turn_pop [OF q])
  have a: "net_ok ?s L n" "frame_packet ?s L pkt F lp lf" "listens ?s L pkt F i lb" "{ETHERNET, IPV4, UDP} \<subseteq> set (protocol_head ?s)"
    "udp_frame (ram ?s) F" "42 \<le> unat (pkt_cur_data_length (pkts ?s pkt))"
    using ok fr ls reg u len by (simp_all add: frame_packet_def listens_def all_waits_def)
  show ?thesis
    using udp_frame_processed [OF a(1,2,5,6,4,3) refl refl] unfolding Let_def turn by (auto simp: keeps_def)
qed

text \<open>A datagram of four bytes from 192.168.0.1 for port 53.\<close>

definition dns_frame :: "u8 list" where
  "dns_frame = [0, 1, 2, 3, 4, 5, 6, 7, 8, 9, 10, 11, 8, 0, 0x45, 0, 0, 32, 0, 0, 0, 0, 10, 17, 0, 0, 192, 168, 0, 1, 192, 168, 0, 171,
     3, 232, 0, 53, 0, 12, 0, 0, 1, 2, 3, 4]"

lemma dns_frame_read:
  "udp_frame (write_bytes F dns_frame m) F" "be16 (write_bytes F dns_frame m) (F + 36) = 53"
  "read_bytes (write_bytes F dns_frame m) (F + 42) 4 = [1, 2, 3, 4]"
proof -
  have l: "length dns_frame = 46" by (simp add: dns_frame_def)
  then have "length dns_frame \<le> 2 ^ 32" by simp
  from read_write_bytes [OF this, of F m] have "read_bytes (write_bytes F dns_frame m) F 46 = dns_frame" unfolding l .
  then have at: "write_bytes F dns_frame m (F + of_nat i) = dns_frame ! i" if "i < 46" for i
    using that by (metis read_bytes_nth)
  have b: "write_bytes F dns_frame m (F + 12) = 8" "write_bytes F dns_frame m (F + 13) = 0" "write_bytes F dns_frame m (F + 14) = 0x45"
    "write_bytes F dns_frame m (F + 22) = 10" "write_bytes F dns_frame m (F + 23) = 17" "write_bytes F dns_frame m (F + 30) = 192"
    "write_bytes F dns_frame m (F + 31) = 168" "write_bytes F dns_frame m (F + 32) = 0" "write_bytes F dns_frame m (F + 33) = 171"
    "write_bytes F dns_frame m (F + 36) = 0" "write_bytes F dns_frame m (F + 37) = 53"
    "write_bytes F dns_frame m (F + 42) = 1" "write_bytes F dns_frame m (F + 43) = 2" "write_bytes F dns_frame m (F + 44) = 3" "write_bytes F dns_frame m (F + 45) = 4"
    using at [of 12] at [of 13] at [of 14] at [of 22] at [of 23] at [of 30] at [of 31] at [of 32] at [of 33] at [of 36] at [of 37]
      at [of 42] at [of 43] at [of 44] at [of 45] by (simp_all add: dns_frame_def)
  show "udp_frame (write_bytes F dns_frame m) F"
    by (simp add: udp_frame_def udp_in_ip_def b be16_le be32_le add.assoc) (simp add: of_le16_def of_le32_def)
  show "be16 (write_bytes F dns_frame m) (F + 36) = 53" by (simp add: be16_le add.assoc b of_le16_def)
  show "read_bytes (write_bytes F dns_frame m) (F + 42) 4 = [1, 2, 3, 4]" by (simp add: add.assoc b)
qed

lemma udp_frame_received_witness:
  "\<exists>(s :: net) s'. rx_task_turn s = Some (True, s') \<and> pkt_rx_q s' = [] \<and> ul_dst_buf_ptr (listeners s' 0x300) = 6
    \<and> read_bytes (ram s') (ul_dst_buf (listeners s' 0x300) + 2) 4 = [1, 2, 3, 4]"
proof (rule boot_net_two [of 64])
  fix p q :: u32 and m and l k :: nat
  assume two: "net_ok (boot_net\<lparr>ram := m\<rparr>) {(unat q, k), (unat p, l)} 30000" "unat (64 :: u32) \<le> l" "unat (64 :: u32) \<le> k" "p \<noteq> q"
  have r: "request_ok 64" by (simp add: request_ok_def)
  have ok0: "net_ok (boot_net\<lparr>ram := m\<rparr>) {(unat q, k), (unat p, l)} (28000 + block_size_of (unat (64 :: u32)))"
    using net_ok_mono [OF two(1)] by (simp add: block_size_of_def)
  have n: "(28000 :: nat) = 0 \<or> 16 \<le> (28000 :: nat)" by simp
  show ?thesis
  proof (rule get_mem_net [OF ok0 r n])
    fix F :: u32 and m1 and lf :: nat
    let ?L = "insert (unat F, lf) {(unat q, k), (unat p, l)}"
    assume g: "net_ok (boot_net\<lparr>ram := m\<rparr>\<lparr>ram := m1\<rparr>) ?L 28000" "unat (64 :: u32) \<le> lf" "\<And>j. (unat F, j) \<notin> {(unat q, k), (unat p, l)}"
    let ?m = "write_bytes F dns_frame m1"
    let ?P = "\<lparr>pkt_data = F, pkt_cur_data = F, pkt_data_length = 46, pkt_cur_data_length = 46, pkt_handler = ETHERNET, pkt_src_ip = 0, pkt_dst_ip = 0\<rparr>"
    let ?l = "\<lparr>ul_dst_buf = q, ul_dst_buf_sz = 16, ul_dst_buf_ptr = 2, ul_port = 53\<rparr>"
    let ?s = "boot_net\<lparr>ram := ?m, pkts := (\<lambda>_. ?P), pkt_rx_q := [p], listeners := (\<lambda>_. ?l), udp_rx_requests := [0x300]\<rparr>"
    have ok1: "net_ok (boot_net\<lparr>ram := m1\<rparr>) ?L 28000" using g(1) by simp
    have fl: "(unat F, lf) \<in> ?L" "0 + length dns_frame \<le> lf" using g(2) by (simp_all add: dns_frame_def)
    have "net_ok (boot_net\<lparr>ram := ?m\<rparr>) ?L 28000"
      using write_net(1) [OF ok1 fl] by (simp del: write_bytes.simps)
    then have ok: "net_ok ?s ?L 28000" by (rule net_ok_same) (simp_all add: all_waits_def)
    have "F \<noteq> p" "F \<noteq> q" using g(3) [of l] g(3) [of k] by auto
    then have fr: "frame_packet ?s ?L p F l lf" and ls: "listens ?s ?L p F 0x300 k"
      using g(2) two(3,4) dns_frame_read(2) [of F m1] by (simp_all add: frame_packet_def listens_def nodes_def all_waits_def del: write_bytes.simps)
    have u: "udp_frame (ram ?s) F" using dns_frame_read(1) by (simp del: write_bytes.simps)
    have reg: "{ETHERNET, IPV4, UDP} \<subseteq> set (protocol_head ?s)" and len: "42 \<le> unat (pkt_cur_data_length (pkts ?s p))" and qq: "pkt_rx_q ?s = p # []"
      by simp_all
    have c: "udp_take (listeners ?s 0x300) (unat (pkt_cur_data_length (pkts ?s p)) - 42) = 4" by (simp add: udp_take_def)
    obtain s' where s': "rx_task_turn ?s = Some (True, s')" "pkt_rx_q s' = []"
      "read_bytes (ram s') (ul_dst_buf (listeners ?s 0x300) + ucast (ul_dst_buf_ptr (listeners ?s 0x300))) 4 = read_bytes (ram ?s) (F + 42) 4"
      "listeners s' = (listeners ?s)(0x300 := (listeners ?s 0x300)\<lparr>ul_dst_buf_ptr := ul_dst_buf_ptr (listeners ?s 0x300) + of_nat 4\<rparr>)"
      using udp_frame_received [OF ok qq reg fr u len ls, unfolded Let_def c] by (elim exE conjE) (rule that)
    have "read_bytes (ram ?s) (F + 42) 4 = [1, 2, 3, 4]" using dns_frame_read(3) by (simp del: write_bytes.simps read_bytes_numeral)
    then show ?thesis
      by (intro exI [of _ ?s] exI [of _ s']) (use s' in \<open>simp del: write_bytes.simps read_bytes_numeral\<close>)
  qed
qed (simp_all add: request_ok_def)

subsection \<open>A header length that lies\<close>

text \<open>A UDP packet that nobody listens for only has the header swapped where it stands.\<close>

lemma udp_no_listener:
  assumes "udp_rx_requests s = []" "pkt_cur_data (pkts s pkt) = h"
  shows "udp_rx_packet pkt s = Some (s\<lparr>ram := udp_swap_endian h (ram s), pkts := (pkts s)(pkt := (pkts s pkt)\<lparr>
    pkt_cur_data := h + 8, pkt_cur_data_length := pkt_cur_data_length (pkts s pkt) - 8, pkt_handler := DROP\<rparr>)\<rparr>)"
  using assms by (simp add: udp_rx_packet_def Let_def set_pkt_def sizeof_udp_header_def irq_defs)

text \<open>C23: nothing checks that the IP header length of a received packet lies within the frame. When it
  points behind it, the UDP handler swaps four bytes of whatever buffer is there, without any
  listener: a remote host changes memory that is in use for something else. The system goes on
  with the changed bytes.\<close>

theorem ip_header_length_corrupts:
  assumes ok: "net_ok s L n" and q: "pkt_rx_q s = pkt # rest" and reg: "{ETHERNET, IPV4, UDP} \<subseteq> set (protocol_head s)"
    and fr: "frame_packet s L pkt F lp lf" and u: "udp_in_ip (ram s) F" and lf: "34 \<le> lf" and nl: "udp_rx_requests s = []"
    and v: "(unat p, l) \<in> L" "p \<noteq> F" "p \<noteq> pkt" and j: "j + 4 \<le> l" "p + of_nat j = F + 14 + ip_len (ram s) F + 2"
  shows "\<exists>s'. rx_task_turn s = Some (True, s') \<and> (unat p, l) \<in> without L {pkt, F} \<and> net_ok s' (without L {pkt, F}) n
    \<and> read_bytes (ram s') (p + of_nat j) 4 = (case read_bytes (ram s) (p + of_nat j) 4 of [a, b, c, d] \<Rightarrow> [b, a, d, c])"
proof -
  let ?s = "s\<lparr>pkt_rx_q := rest\<rparr>" and ?h = "F + 14 + ip_len (ram s) F" and ?x = "p + of_nat j"
  have f: "(unat pkt, lp) \<in> L" "(unat F, lf) \<in> L" "F \<noteq> pkt" "pkt_data (pkts s pkt) = F" "pkt \<notin> nodes (all_waits s)" "F \<notin> nodes (all_waits s)"
    using fr by (simp_all add: frame_packet_def)
  have aw: "all_waits ?s = all_waits s" by (simp add: all_waits_def)
  have a: "net_ok ?s L n" "frame_packet ?s L pkt F lp lf" "udp_in_ip (ram ?s) F" "{ETHERNET, IPV4} \<subseteq> set (protocol_head ?s)"
    "ip_len (ram s) F = ip_len (ram ?s) F" using ok fr u reg by (simp_all add: frame_packet_def aw)
  obtain s2 m where st: "rx_process pkt ?s = rx_process pkt s2"
    "s2 = ?s\<lparr>ram := m, pkts := (pkts ?s)(pkt := (pkts ?s pkt)\<lparr>pkt_cur_data := ?h,
       pkt_cur_data_length := pkt_cur_data_length (pkts ?s pkt) - 14 - ip_len (ram s) F, pkt_dst_ip := 0xC0A800AB,
       pkt_src_ip := be32 (ram ?s) (F + 26), pkt_handler := UDP\<rparr>)\<rparr>"
    "net_ok s2 L n" "keeps ?s s2 (L - {(unat F, lf)})" "\<And>j. 34 \<le> j \<Longrightarrow> j < 2 ^ 31 \<Longrightarrow> m (F + of_nat j) = ram ?s (F + of_nat j)"
    by (rule udp_in_ip_stages [OF a(1-3) lf a(4,5)]) (rule that)
  let ?m3 = "udp_swap_endian ?h m"
  define s3 where "s3 = s2\<lparr>ram := ?m3, pkts := (pkts s2)(pkt := (pkts s2 pkt)\<lparr>pkt_cur_data := ?h + 8,
      pkt_cur_data_length := pkt_cur_data_length (pkts s2 pkt) - 8, pkt_handler := DROP\<rparr>)\<rparr>"
  have "udp_rx_packet pkt s2 = Some s3" unfolding s3_def using udp_no_listener [of s2 pkt ?h] nl by (simp add: st(2))
  moreover have "pkt_handler (pkts s2 pkt) = UDP" "UDP \<in> set (protocol_head s2)" using reg by (simp_all add: st(2))
  ultimately have e3: "rx_process pkt s2 = Some (packet_destroy pkt s3)"
    using rx_process_step [of s2 pkt s3] by (simp add: s3_def)
  let ?w = "[m (?h + 3), m (?h + 2), m (?h + 5), m (?h + 4)]"
  have m3: "?m3 = write_bytes ?x ?w (ram s2)" by (simp add: udp_swap_endian_eq st(2) j(2) add.assoc del: write_bytes.simps)
  have "j + length ?w \<le> l" using j(1) by simp
  note w = write_net [OF st(3) v(1) this]
  have ok3: "net_ok s3 L n" using w(1) unfolding m3 [symmetric] by (rule net_ok_same) (simp_all add: s3_def all_waits_def)
  have p3: "pkt_data (pkts s3 pkt) = F" "all_waits s3 = all_waits s" using f(4) by (simp_all add: s3_def st(2) all_waits_def)
  obtain m4 where m4: "packet_destroy pkt s3 = s3\<lparr>ram := m4\<rparr>" "net_ok (s3\<lparr>ram := m4\<rparr>) (without L {pkt, F}) n"
    "keeps s3 (s3\<lparr>ram := m4\<rparr>) (without L {pkt, F})"
    using packet_destroy_ok [OF ok3 f(1), of lf, unfolded p3] f(2,3,5,6) by blast
  have vL: "(unat p, l) \<in> without L {pkt, F}" by (rule without_in [OF v(1)]) (use v(2,3) in simp)
  have lv: "live_bytes K ?x 4" if "(unat p, l) \<in> K" for K
    by (rule live_bytes_mono [OF live_bytes_buf [OF net_okD(4) [OF ok] v(1) j(1)]]) (use that in simp)
  have "(unat p, l) \<in> L - {(unat F, lf)}" using v(1,2) by (auto simp: word_unat_eq_iff)
  from read_bytes_keeps [OF st(4) lv [OF this]] have old: "read_bytes m ?x 4 = read_bytes (ram s) ?x 4" by (simp add: st(2) del: read_bytes_numeral)
  have "length ?w \<le> 2 ^ 32" and l4: "length ?w = 4" by simp_all
  from read_write_bytes [OF this(1), of ?x "ram s2", folded m3] have wr: "read_bytes ?m3 ?x 4 = ?w" unfolding l4 .
  have "read_bytes m4 ?x 4 = read_bytes ?m3 ?x 4"
    using read_bytes_keeps [OF m4(3) lv [OF vL]] by (simp add: s3_def del: read_bytes_numeral)
  also note wr
  also have "?w = (case read_bytes m ?x 4 of [a, b, c, d] \<Rightarrow> [b, a, d, c])" by (simp add: j(2) add.assoc)
  finally have rd: "read_bytes m4 ?x 4 = (case read_bytes (ram s) ?x 4 of [a, b, c, d] \<Rightarrow> [b, a, d, c])" unfolding old .
  have "pkt \<noteq> 0" using live_nonzero [OF ok f(1)] by auto
  then have "rx_task_turn s = map_option (Pair True) (rx_process pkt ?s)" by (rule rx_task_turn_pop [OF q])
  then have "rx_task_turn s = Some (True, s3\<lparr>ram := m4\<rparr>)" using st(1) e3 m4(1) by simp
  then show ?thesis using vL m4(2) rd by (intro exI [of _ "s3\<lparr>ram := m4\<rparr>"]) (simp del: read_bytes_numeral)
qed

text \<open>A frame with an IP header length of 52.\<close>

definition options_frame :: "u8 list" where
  "options_frame = [0, 1, 2, 3, 4, 5, 6, 7, 8, 9, 10, 11, 8, 0, 0x4D, 0, 0, 60, 0, 0, 0, 0, 10, 17, 0, 0, 192, 168, 0, 1, 192, 168, 0, 171]"

lemma options_frame_read:
  assumes "read_bytes m F 34 = options_frame"
  shows "udp_in_ip m F" "ip_len m F = 52"
proof -
  have at: "m (F + of_nat i) = options_frame ! i" if "i < 34" for i
    using assms that by (metis read_bytes_nth)
  have b: "m (F + 12) = 8" "m (F + 13) = 0" "m (F + 14) = 0x4D" "m (F + 22) = 10" "m (F + 23) = 17"
    "m (F + 30) = 192" "m (F + 31) = 168" "m (F + 32) = 0" "m (F + 33) = 171"
    using at [of 12] at [of 13] at [of 14] at [of 22] at [of 23] at [of 30] at [of 31] at [of 32] at [of 33]
    by (simp_all add: options_frame_def)
  show "udp_in_ip m F"
    by (simp add: udp_in_ip_def b be16_le be32_le add.assoc) (simp add: of_le16_def of_le32_def)
  show "ip_len m F = 52" by (simp add: ip_len_def b)
qed

lemma ip_header_length_corrupts_witness:
  "\<exists>(s :: net) s' L. rx_task_turn s = Some (True, s') \<and> net_ok s L 30000 \<and> (0x2007C090, 64) \<in> L \<and> pkt_rx_q s = [0x2007C004]
    \<and> read_bytes (ram s) 0x2007C090 4 = [1, 2, 3, 4] \<and> read_bytes (ram s') 0x2007C090 4 = [2, 1, 4, 3]"
proof (rule boot_net_three)
  fix m
  let ?L = "{(0x2007C004, 64), (0x2007C04C, 60), (0x2007C090, 64)} :: ledger"
  assume ok0: "net_ok (boot_net\<lparr>ram := m\<rparr>) ?L 30000"
  let ?F = "0x2007C04C :: u32" and ?V = "0x2007C090 :: u32" and ?p = "0x2007C004 :: u32"
  let ?m1 = "write_bytes ?V [1, 2, 3, 4] m"
  let ?m = "write_bytes ?F options_frame ?m1"
  have l: "length options_frame = 34" by (simp add: options_frame_def)
  have F: "(unat ?F, 60) \<in> ?L" "0 + length options_frame \<le> 60" and V: "(unat ?V, 64) \<in> ?L" "0 + length [1, 2, 3, 4 :: u8] \<le> 64"
    and P: "(unat ?p, 64) \<in> ?L" by (simp_all add: l)
  have ok1: "net_ok (boot_net\<lparr>ram := ?m1\<rparr>) ?L 30000" using write_net(1) [OF ok0 V] by simp
  have w: "net_ok (boot_net\<lparr>ram := ?m\<rparr>) ?L 30000" "keeps (boot_net\<lparr>ram := ?m1\<rparr>) (boot_net\<lparr>ram := ?m\<rparr>) (?L - {(unat ?F, 60)})"
    using write_net [OF ok1 F] by (simp_all del: write_bytes.simps)
  let ?P = "\<lparr>pkt_data = ?F, pkt_cur_data = ?F, pkt_data_length = 60, pkt_cur_data_length = 60, pkt_handler = ETHERNET, pkt_src_ip = 0, pkt_dst_ip = 0\<rparr>"
  let ?s = "boot_net\<lparr>ram := ?m, pkts := (\<lambda>_. ?P), pkt_rx_q := [?p]\<rparr>"
  have ok: "net_ok ?s ?L 30000" by (rule net_ok_same [OF w(1)]) (simp_all add: all_waits_def)
  have "length options_frame \<le> 2 ^ 32" by (simp add: l)
  from read_write_bytes [OF this, of ?F ?m1] have "read_bytes ?m ?F 34 = options_frame" unfolding l .
  note fr = options_frame_read [OF this]
  have lv: "live_bytes (?L - {(unat ?F, 60)}) (?V + of_nat 0) 4"
    by (rule live_bytes_mono [OF live_bytes_buf [OF net_okD(4) [OF ok0] V(1)]]) auto
  then have old: "read_bytes (ram ?s) ?V 4 = [1, 2, 3, 4]"
    using read_bytes_keeps [OF w(2), of ?V 4] by simp
  have h: "pkt_rx_q ?s = ?p # []" "{ETHERNET, IPV4, UDP} \<subseteq> set (protocol_head ?s)" "frame_packet ?s ?L ?p ?F 64 60"
    "udp_in_ip (ram ?s) ?F" "(34 :: nat) \<le> 60" "udp_rx_requests ?s = []" "?V \<noteq> ?F" "?V \<noteq> ?p" "(0 :: nat) + 4 \<le> 64"
    "?V + of_nat 0 = ?F + 14 + ip_len (ram ?s) ?F + 2"
    using fr by (simp_all add: frame_packet_def nodes_def all_waits_def del: write_bytes.simps)
  obtain s' where "rx_task_turn ?s = Some (True, s')"
    "read_bytes (ram s') (?V + of_nat 0) 4 = (case read_bytes (ram ?s) (?V + of_nat 0) 4 of [a, b, c, d] \<Rightarrow> [b, a, d, c])"
    using ip_header_length_corrupts [OF ok h(1-6) V(1) h(7-10)] by (elim exE conjE) (rule that)
  moreover have "(0x2007C090, 64) \<in> ?L" by simp
  ultimately show ?thesis using old ok by (intro exI [of _ ?s] exI [of _ s'] exI [of _ ?L]) (simp del: read_bytes_numeral write_bytes.simps)
qed

end
