(* ===== verification/Emac_Properties.thy ===== *)
theory Emac_Properties
  imports Receive
begin

text \<open>
  From the descriptors of the Ethernet MAC to the packet queue: the interrupt handler on a frame that
  came in one fragment, and on a second fragment.
\<close>

unbundle bit_operations_syntax

subsection \<open>Copying a fragment into a fresh buffer\<close>

lemma get_copy_one:
  assumes ok: "net_ok s L (n + block_size_of (unat len))" and len: "request_ok len" and n: "n = 0 \<or> 16 \<le> n"
    and src: "live_bytes L src (unat len)"
  obtains p m0 l where "get_mem len s = Some (p, s\<lparr>ram := m0\<rparr>)" "unat len \<le> l"
    "net_ok (s\<lparr>ram := memcpy p src (unat len) m0\<rparr>) (insert (unat p, l) L) n" "\<And>k. (unat p, k) \<notin> L"
    "read_bytes (memcpy p src (unat len) m0) p (unat len) = read_bytes (ram s) src (unat len)"
    "keeps s (s\<lparr>ram := memcpy p src (unat len) m0\<rparr>) L"
proof -
  obtain p m0 l where g: "get_mem len s = Some (p, s\<lparr>ram := m0\<rparr>)" "unat len \<le> l"
    "net_ok (s\<lparr>ram := m0\<rparr>) (insert (unat p, l) L) n" "\<And>k. (unat p, k) \<notin> L" "keeps s (s\<lparr>ram := m0\<rparr>) L"
    by (rule get_mem_net [OF ok len n]) (rule that)
  let ?bs = "read_bytes m0 src (unat len)"
  have w: "net_ok (s\<lparr>ram := memcpy p src (unat len) m0\<rparr>) (insert (unat p, l) L) n"
    "keeps (s\<lparr>ram := m0\<rparr>) (s\<lparr>ram := memcpy p src (unat len) m0\<rparr>) (insert (unat p, l) L - {(unat p, l)})"
    using write_net [OF g(3), of p l 0 ?bs] g(2) by (simp_all add: memcpy_def)
  have "?bs = read_bytes (ram s) src (unat len)" using read_bytes_keeps [OF g(5) src] by simp
  moreover have "read_bytes (memcpy p src (unat len) m0) p (unat len) = ?bs"
    using read_write_bytes [of ?bs p m0] unat_bound [of len] by (simp add: memcpy_def)
  moreover have "L \<subseteq> insert (unat p, l) L - {(unat p, l)}" using g(4) by auto
  ultimately show thesis
    using that [OF g(1,2) w(1) g(4)] keeps_trans [OF g(5) keeps_subset [OF w(2)]] by simp
qed

subsection \<open>A frame in one fragment\<close>

lemma frag_len_bounds:
  "request_ok ((st AND 0x7FF) + 1)" "0 < unat ((st AND 0x7FF) + 1 :: u32)" "unat ((st AND 0x7FF) + 1 :: u32) \<le> 2048"
proof -
  have "(0x7FF :: u32) = mask 11" by (simp add: mask_eq_exp_minus_1)
  then have "unat (st AND 0x7FF) < 2048"
    by (simp only: take_bit_eq_mask [symmetric]) (simp add: take_bit_eq_mod unat_mod_distrib)
  then have "unat ((st AND 0x7FF) + 1) = unat (st AND 0x7FF) + 1"
    by (simp add: unat_word_ariths)
  with \<open>unat (st AND 0x7FF) < 2048\<close> show "request_ok ((st AND 0x7FF) + 1)" "0 < unat ((st AND 0x7FF) + 1 :: u32)"
    "unat ((st AND 0x7FF) + 1 :: u32) \<le> 2048"
    by (auto simp: request_ok_def)
qed

text \<open>C14: a frame that the MAC has received into one fragment buffer is copied to a buffer of its own, and
  a packet with it is put at the head of the packet queue for the Ethernet handler; \<open>rx_task\<close> is woken
  and the MAC gets the descriptor back. The frame is the one \<open>rx_task\<close> expects, and no memory in use
  changes.\<close>

theorem frame_gathered:
  assumes ok: "net_ok s L (n + block_size_of 36 + block_size_of (unat fl))" and n: "n = 0 \<or> 16 \<le> n"
    and i: "i = unat (rx_consume_index s)" and fl: "fl = (rx_status s ! i AND 0x7FF) + 1" and last: "bit (rx_status s ! i) 30"
    and frag: "frag = fst (rx_desc s ! i)" "live_bytes L frag (unat fl)" and fresh: "current_frame s = 0"
    and q: "\<forall>p \<in> set (pkt_rx_q s). \<exists>l. (unat p, l) \<in> L"
  shows "\<exists>s' pkt F lp lf. let K = insert (unat pkt, lp) (insert (unat F, lf) (without L (nodes (rx_waitq s)))) in
    irq_enet_turn s = Some s' \<and> pkt_rx_q s' = pkt # pkt_rx_q s \<and> frame_packet s' K pkt F lp lf
    \<and> pkt_cur_data_length (pkts s' pkt) = fl \<and> read_bytes (ram s') F (unat fl) = read_bytes (ram s) frag (unat fl)
    \<and> rx_consume_index s' = of_nat ((i + 1) mod 12) \<and> current_frame s' = 0
    \<and> rx_waitq s' = [] \<and> runqueue s' = rev (map snd (rx_waitq s)) @ runqueue s
    \<and> net_ok s' K n \<and> keeps s s' (without L (nodes (rx_waitq s)))"
proof -
  let ?N = "nodes (rx_waitq s)"
  have r: "request_ok fl" "0 < unat fl" unfolding fl by (rule frag_len_bounds)+
  have n36: "n + block_size_of 36 = 0 \<or> 16 \<le> n + block_size_of 36" by (simp add: block_size_of_def)
  obtain F m0 lf where a: "get_mem fl s = Some (F, s\<lparr>ram := m0\<rparr>)" "unat fl \<le> lf"
    "net_ok (s\<lparr>ram := memcpy F frag (unat fl) m0\<rparr>) (insert (unat F, lf) L) (n + block_size_of 36)" "\<And>k. (unat F, k) \<notin> L"
    "read_bytes (memcpy F frag (unat fl) m0) F (unat fl) = read_bytes (ram s) frag (unat fl)"
    "keeps s (s\<lparr>ram := memcpy F frag (unat fl) m0\<rparr>) L"
    by (rule get_copy_one [OF ok r(1) n36 frag(2)]) (rule that)
  define s1 where "s1 = s\<lparr>ram := memcpy F frag (unat fl) m0, current_frame := F, current_frame_len := fl\<rparr>"
  have gather: "gather_fragment frag fl s = Some s1"
    using fresh a(1) by (simp add: gather_fragment_def s1_def)
  have ok1: "net_ok s1 (insert (unat F, lf) L) (n + block_size_of 36)" using a(3) by (simp add: s1_def)
  obtain pkt m2 lp where b: "packet_create F fl s1 = Some (pkt, s1\<lparr>ram := m2, pkts := (pkts s1)(pkt := (pkts s1 pkt)\<lparr>pkt_data := F,
      pkt_cur_data := F, pkt_data_length := fl, pkt_cur_data_length := fl\<rparr>)\<rparr>)"
    "36 \<le> lp" "net_ok (s1\<lparr>ram := m2\<rparr>) (insert (unat pkt, lp) (insert (unat F, lf) L)) n" "\<And>k. (unat pkt, k) \<notin> insert (unat F, lf) L"
    "keeps s1 (s1\<lparr>ram := m2\<rparr>) (insert (unat F, lf) L)"
    by (rule packet_create_ok [OF ok1 n]) (rule that)
  define s2 where "s2 = s1\<lparr>ram := m2, pkts := (pkts s1)(pkt := (pkts s1 pkt)\<lparr>pkt_data := F,
      pkt_cur_data := F, pkt_data_length := fl, pkt_cur_data_length := fl\<rparr>)\<rparr>"
  let ?M = "insert (unat pkt, lp) (insert (unat F, lf) L)"
  have ok2: "net_ok s2 ?M n" using b(3) by (simp add: s2_def)
  have new: "pkt \<notin> set (pkt_rx_q s2)" using q b(4) by (auto simp: s2_def s1_def)
  have w: "rx_waitq s2 = rx_waitq s" "pkt_rx_q s2 = pkt_rx_q s" "runqueue s2 = runqueue s" by (simp_all add: s2_def s1_def)
  let ?f = "\<lambda>p. p\<lparr>pkt_handler := ETHERNET\<rparr>"
  obtain m pr where c: "packet_inject pkt ETHERNET s2 =
      Some ((woken (rx_waitq s) m pr (set_pkt pkt ?f s2))\<lparr>pkt_rx_q := pkt # pkt_rx_q s, rx_waitq := []\<rparr>)"
    "net_ok ((woken (rx_waitq s) m pr (set_pkt pkt ?f s2))\<lparr>pkt_rx_q := pkt # pkt_rx_q s, rx_waitq := []\<rparr>) (without ?M ?N) n"
    "keeps s2 ((woken (rx_waitq s) m pr (set_pkt pkt ?f s2))\<lparr>pkt_rx_q := pkt # pkt_rx_q s, rx_waitq := []\<rparr>) (without ?M ?N)"
    by (rule packet_inject_ok [OF ok2 new, of ETHERNET, unfolded w]) (rule that)
  define s3 where "s3 = (woken (rx_waitq s) m pr (set_pkt pkt ?f s2))\<lparr>pkt_rx_q := pkt # pkt_rx_q s, rx_waitq := []\<rparr>"
  let ?s = "s3\<lparr>current_frame := 0, current_frame_len := 0, rx_consume_index := of_nat ((i + 1) mod 12)\<rparr>"
  have run: "irq_enet_turn s = Some ?s"
    using gather b(1) c(1) last
    unfolding irq_enet_turn_def Let_def i [symmetric] fl [symmetric] frag(1) [symmetric]
    by (simp add: s2_def [symmetric] s3_def [symmetric] DESC_LEN_def) (simp add: s1_def s2_def [symmetric] s3_def [symmetric])
  have waits: "pkt \<notin> nodes (all_waits s)" "F \<notin> nodes (all_waits s)"
    using fresh_not_node [OF ok] a(4) b(4) by blast+
  have "set (all_waits ?s) \<subseteq> set (all_waits s)" by (auto simp: s3_def s2_def s1_def all_waits_def set_pkt_def)
  then have waits': "pkt \<notin> nodes (all_waits ?s)" "F \<notin> nodes (all_waits ?s)" using waits by (auto simp: nodes_def)
  have N: "pkt \<notin> ?N" "F \<notin> ?N" using waits by (auto simp: nodes_def all_waits_def)
  let ?K = "insert (unat pkt, lp) (insert (unat F, lf) (without L ?N))"
  have K: "without ?M ?N = ?K" using N by (simp add: without_insert)
  have "F \<noteq> pkt" using b(4) [of lf] by auto
  then have fr: "frame_packet ?s ?K pkt F lp lf"
    using a(2) waits' by (simp add: frame_packet_def s3_def s2_def set_pkt_def)
  have kp: "keeps s ?s (without L ?N)"
    using a(6) b(5) c(3) unfolding K by (auto simp: keeps_def s3_def s2_def s1_def dest: in_without)
  have ok3: "net_ok ?s ?K n"
    by (rule net_ok_same [OF c(2) [folded s3_def, unfolded K]]) (simp_all add: all_waits_def)
  have "(unat F, lf) \<in> insert (unat F, lf) L" by simp
  then have lv: "live_bytes (insert (unat F, lf) L) F (unat fl)"
    using live_bytes_buf [OF net_okD(4) [OF ok1], of F lf 0 "unat fl"] a(2) by (simp add: live_bytes_def)
  have lv2: "live_bytes ?K F (unat fl)"
    using live_bytes_buf [OF net_okD(4) [OF ok3], of F lf 0 "unat fl"] a(2) by (simp add: live_bytes_def)
  have "read_bytes (ram ?s) F (unat fl) = read_bytes (ram s1) F (unat fl)"
    using read_bytes_keeps [OF b(5) lv] read_bytes_keeps [OF c(3) [folded s3_def, unfolded K] lv2] by (simp add: s2_def)
  then have rd: "read_bytes (ram ?s) F (unat fl) = read_bytes (ram s) frag (unat fl)" using a(5) by (simp add: s1_def)
  show ?thesis
    unfolding Let_def
    by (rule exI [of _ ?s], rule exI [of _ pkt], rule exI [of _ F], rule exI [of _ lp], rule exI [of _ lf])
      (use run fr kp ok3 rd in \<open>simp add: s3_def s2_def s1_def set_pkt_def\<close>)
qed

lemma frame_gathered_witness:
  "\<exists>(s :: net) s' pkt. irq_enet_turn s = Some s' \<and> pkt_rx_q s' = [pkt] \<and> pkt_cur_data_length (pkts s' pkt) = 60
    \<and> rx_consume_index s' = 1"
proof (rule boot_net_buffer [of 64])
  fix p :: u32 and m and l :: nat
  assume b: "net_ok (boot_net\<lparr>ram := m\<rparr>) {(unat p, l)} 32000" "unat (64 :: u32) \<le> l" "live_bytes {(unat p, l)} p (unat (64 :: u32))"
  let ?s = "boot_net\<lparr>ram := m, rx_desc := replicate 12 (p, 0x8000007E), rx_status := replicate 12 0x4000003B, rx_produce_index := 1\<rparr>"
  have f: "0 = unat (rx_consume_index ?s)" "60 = (rx_status ?s ! 0 AND 0x7FF) + 1" "bit (rx_status ?s ! 0) 30"
    "p = fst (rx_desc ?s ! 0)" "current_frame ?s = 0" "\<forall>x \<in> set (pkt_rx_q ?s). \<exists>k. (unat x, k) \<in> {(unat p, l)}"
    by (simp_all add: bit_iff_odd)
  have "net_ok ?s {(unat p, l)} 32000" by (rule net_ok_same [OF b(1)]) (simp_all add: all_waits_def)
  then have ok: "net_ok ?s {(unat p, l)} (31000 + block_size_of 36 + block_size_of (unat (60 :: u32)))"
    by (rule net_ok_mono) (simp add: block_size_of_def)
  have n: "(31000 :: nat) = 0 \<or> 16 \<le> (31000 :: nat)" by simp
  have lv: "live_bytes {(unat p, l)} p (unat (60 :: u32))" using b(3) by (simp add: live_bytes_def)
  have w: "rx_waitq ?s = []" "pkt_rx_q ?s = []" by simp_all
  obtain s' pkt where "irq_enet_turn ?s = Some s'" "pkt_rx_q s' = [pkt]" "pkt_cur_data_length (pkts s' pkt) = 60"
    "rx_consume_index s' = of_nat ((0 + 1) mod 12)"
    using frame_gathered [OF ok n f(1-4) lv f(5,6), unfolded Let_def w] by (elim exE conjE) (rule that)
  then show ?thesis by (intro exI [of _ ?s] exI [of _ s'] exI [of _ pkt]) simp
qed (simp_all add: request_ok_def)

subsection \<open>A second fragment\<close>

lemma read_bytes_overlay:
  assumes k: "k \<le> length xs" and n: "length xs \<le> 2 ^ 32" "k + length ys \<le> 2 ^ 32"
  shows "read_bytes (write_bytes (p + of_nat k) ys (write_bytes p xs m)) p (k + length ys) = take k xs @ ys"
proof -
  let ?m = "write_bytes (p + of_nat k) ys (write_bytes p xs m)"
  have "read_bytes ?m p k = read_bytes (write_bytes p xs m) p k"
  proof (rule read_bytes_cong)
    fix i assume i: "i < k"
    show "?m (p + of_nat i) = write_bytes p xs m (p + of_nat i)"
    proof (rule write_bytes_other)
      fix j assume "j < length ys"
      then show "p + of_nat i \<noteq> p + of_nat k + of_nat j"
        using i n offset_eq [of i "k + j" p] by (simp add: add.assoc)
    qed (use n in simp)
  qed
  also have "\<dots> = take k xs"
    by (rule nth_equalityI) (use k n in \<open>simp_all add: read_bytes_nth write_bytes_nth\<close>)
  finally show ?thesis
    unfolding read_bytes_append using read_write_bytes [of ys "p + of_nat k"] n by simp
qed

text \<open>C39: a second fragment, no longer than what has been gathered, is not put behind it: it is written
  to the offset of its own length, over the gathered bytes from there on. So the frame is right only if
  both parts have the same length. The old buffer is given back.\<close>

theorem second_fragment_misplaced:
  assumes ok: "net_ok s L (n + block_size_of (unat (current_frame_len s + fl)))" and n: "n = 0 \<or> 16 \<le> n"
    and C: "C = current_frame s" "(unat C, lc) \<in> L" "unat (current_frame_len s) \<le> lc" "C \<notin> nodes (all_waits s)"
    and len: "0 < unat fl" "unat fl \<le> unat (current_frame_len s)" "unat (current_frame_len s) \<le> 2 ^ 16"
    and frag: "live_bytes L frag (unat fl)"
  shows "\<exists>s' F lf. gather_fragment frag fl s = Some s' \<and> current_frame s' = F \<and> current_frame_len s' = current_frame_len s + fl
    \<and> read_bytes (ram s') F (unat fl + unat fl)
        = take (unat fl) (read_bytes (ram s) C (unat (current_frame_len s))) @ read_bytes (ram s) frag (unat fl)
    \<and> net_ok s' (insert (unat F, lf) (without L {C})) n \<and> keeps s s' (without L {C})"
proof -
  let ?c = "current_frame_len s"
  have sum: "unat (?c + fl) = unat ?c + unat fl" using len by (simp add: unat_word_ariths)
  then have "unat (?c + fl) \<noteq> 0" "unat (?c + fl) \<le> 2 ^ 32 - 12" using len by simp_all
  then have r: "request_ok (?c + fl)" unfolding request_ok_def by auto
  obtain F m0 lf where g: "get_mem (?c + fl) s = Some (F, s\<lparr>ram := m0\<rparr>)" "unat (?c + fl) \<le> lf"
    "net_ok (s\<lparr>ram := m0\<rparr>) (insert (unat F, lf) L) n" "\<And>k. (unat F, k) \<notin> L" "keeps s (s\<lparr>ram := m0\<rparr>) L"
    by (rule get_mem_net [OF ok r n]) (rule that)
  let ?K = "insert (unat F, lf) L" and ?xs = "read_bytes m0 C (unat ?c)"
  have F: "(unat F, lf) \<in> ?K" "L \<subseteq> ?K - {(unat F, lf)}" "F \<noteq> C" using g(4) C(2) by auto
  define m1 where "m1 = write_bytes F ?xs m0"
  have w1: "net_ok (s\<lparr>ram := m1\<rparr>) ?K n" "keeps (s\<lparr>ram := m0\<rparr>) (s\<lparr>ram := m1\<rparr>) L"
    using write_net [OF g(3) F(1), of 0 ?xs] keeps_subset [OF _ F(2)] g(2) sum by (simp_all add: m1_def)
  define ys where "ys = read_bytes m1 frag (unat fl)"
  define m2 where "m2 = write_bytes (F + of_nat (unat fl)) ys m1"
  have w2: "net_ok (s\<lparr>ram := m2\<rparr>) ?K n" "keeps (s\<lparr>ram := m1\<rparr>) (s\<lparr>ram := m2\<rparr>) L"
    using write_net [OF w1(1) F(1), of "unat fl" ys] keeps_subset [OF _ F(2)] g(2) sum len(2) by (simp_all add: m2_def ys_def)
  have "C \<notin> nodes (all_waits (s\<lparr>ram := m2\<rparr>))" "(unat C, lc) \<in> ?K" using C(2,4) by (simp_all add: all_waits_def)
  from free_mem_net [OF w2(1) this(2,1)]
  obtain m3 where f: "free_mem C (s\<lparr>ram := m2\<rparr>) = s\<lparr>ram := m3\<rparr>" "net_ok (s\<lparr>ram := m3\<rparr>) (without ?K {C}) n"
    "keeps (s\<lparr>ram := m2\<rparr>) (s\<lparr>ram := m3\<rparr>) (without ?K {C})" by auto
  let ?s = "s\<lparr>ram := m3, current_frame_len := ?c + fl, current_frame := F\<rparr>"
  have "C \<noteq> 0" using live_nonzero [OF ok C(2)] by auto
  then have run: "gather_fragment frag fl s = Some ?s"
    using g(1) f(1) C(1) by (simp add: gather_fragment_def memcpy_def m2_def m1_def ys_def)
  have K: "without ?K {C} = insert (unat F, lf) (without L {C})" using F(3) by (simp add: without_insert)
  have kp: "keeps s ?s (without L {C})"
    using g(5) w1(2) w2(2) f(3) unfolding K by (auto simp: keeps_def dest: in_without)
  have ok3: "net_ok ?s (insert (unat F, lf) (without L {C})) n"
    by (rule net_ok_same [OF f(2) [unfolded K]]) (simp_all add: all_waits_def)
  have xs: "?xs = read_bytes (ram s) C (unat ?c)"
    using read_bytes_keeps [OF g(5)] live_bytes_mono [OF live_bytes_buf [OF net_okD(4) [OF ok] C(2), of 0 "unat ?c"]] C(2,3) by simp
  have ys: "ys = read_bytes (ram s) frag (unat fl)"
    using read_bytes_keeps [OF g(5) frag] read_bytes_keeps [OF w1(2) frag] by (simp add: ys_def)
  have "live_bytes (insert (unat F, lf) (without L {C})) F (unat fl + unat fl)"
    using live_bytes_mono [OF live_bytes_buf [OF net_okD(4) [OF ok3], of F lf 0 "unat fl + unat fl"]] g(2) sum len(2) by simp
  from read_bytes_keeps [OF f(3) [unfolded K] this]
  have "read_bytes m3 F (unat fl + unat fl) = read_bytes m2 F (unat fl + length ys)" by (simp add: ys_def)
  also have "\<dots> = take (unat fl) ?xs @ ys"
    unfolding m2_def m1_def by (rule read_bytes_overlay) (use len in \<open>simp_all add: ys_def\<close>)
  finally have rd: "read_bytes (ram ?s) F (unat fl + unat fl) = take (unat fl) (read_bytes (ram s) C (unat ?c)) @ read_bytes (ram s) frag (unat fl)"
    by (simp add: xs ys)
  show ?thesis
    by (rule exI [of _ ?s], rule exI [of _ F], rule exI [of _ lf], intro conjI) (use run rd ok3 kp in simp_all)
qed

lemma second_fragment_misplaced_witness:
  "\<exists>(s :: net) s' C frag. current_frame s = C \<and> current_frame_len s = 8 \<and> gather_fragment frag 4 s = Some s'
    \<and> read_bytes (ram s') (current_frame s') 8 = take 4 (read_bytes (ram s) C 8) @ read_bytes (ram s) frag 4"
proof (rule boot_net_two [of 64])
  fix p q :: u32 and m and l k :: nat
  assume two: "net_ok (boot_net\<lparr>ram := m\<rparr>) {(unat q, k), (unat p, l)} 30000" "unat (64 :: u32) \<le> l" "unat (64 :: u32) \<le> k" "p \<noteq> q"
  let ?L = "{(unat q, k), (unat p, l)}" and ?s = "boot_net\<lparr>ram := m, current_frame := p, current_frame_len := 8\<rparr>"
  have "net_ok ?s ?L 30000" by (rule net_ok_same [OF two(1)]) (simp_all add: all_waits_def)
  then have ok: "net_ok ?s ?L (29000 + block_size_of (unat (current_frame_len ?s + 4)))"
    by (rule net_ok_mono) (simp add: block_size_of_def)
  have n: "(29000 :: nat) = 0 \<or> 16 \<le> (29000 :: nat)" by simp
  have C: "p = current_frame ?s" "(unat p, l) \<in> ?L" "unat (current_frame_len ?s) \<le> l" "p \<notin> nodes (all_waits ?s)"
    using two(2) by (simp_all add: all_waits_def nodes_def)
  have len: "0 < unat (4 :: u32)" "unat (4 :: u32) \<le> unat (current_frame_len ?s)" "unat (current_frame_len ?s) \<le> 2 ^ 16" by simp_all
  have "live_bytes ?L (q + of_nat 0) (unat (4 :: u32))"
    by (rule live_bytes_mono [OF live_bytes_buf [OF net_okD(4) [OF two(1)]]]) (use two(3) in auto)
  then have frag: "live_bytes ?L q (unat (4 :: u32))" by simp
  obtain s' F where "gather_fragment q 4 ?s = Some s'" "current_frame s' = F"
    "read_bytes (ram s') F (unat (4 :: u32) + unat (4 :: u32))
       = take (unat (4 :: u32)) (read_bytes (ram ?s) p (unat (current_frame_len ?s))) @ read_bytes (ram ?s) q (unat (4 :: u32))"
    using second_fragment_misplaced [OF ok n C len frag] by (elim exE conjE) (rule that)
  then show ?thesis
    by (intro exI [of _ ?s] exI [of _ s'] exI [of _ p] exI [of _ q]) (simp del: read_bytes_numeral)
qed (simp_all add: request_ok_def)

end
