(* ===== verification/Register_Map.thy ===== *)
theory Register_Map
  imports Prelude
begin

text \<open>
  The register map of \<open>lpc17xx.h\<close> and \<open>lpc17xx.c\<close>. A struct is the list of its members with their
  sizes in bytes, in the order of the header; all members are aligned without padding (words, one
  12-byte array of bytes and arrays of words), so the offset of a member is the sum of the sizes
  before it. A peripheral is the address of its struct together with the struct.
\<close>

type_synonym layout = "(string \<times> nat) list"
type_synonym peripheral = "u32 \<times> layout"

fun offset_of :: "layout \<Rightarrow> string \<Rightarrow> nat option" where
  "offset_of [] f = None"
| "offset_of ((g, n) # fs) f = (if g = f then Some 0 else map_option (\<lambda>k. n + k) (offset_of fs f))"

definition struct_size :: "layout \<Rightarrow> nat" where
  "struct_size l = sum_list (map snd l)"

subsection \<open>lpc17xx.h\<close>

definition lpc_periph_emac_t :: layout where
  "lpc_periph_emac_t =
    [(''MAC1'', 4), (''MAC2'', 4), (''IPGT'', 4), (''IPGR'', 4), (''CLRT'', 4), (''MAXF'', 4), (''SUPP'', 4),
     (''TEST'', 4), (''MCFG'', 4), (''MCMD'', 4), (''MADR'', 4), (''MWTD'', 4), (''MRDD'', 4), (''MIND'', 4),
     (''__reserved_0_'', 8), (''SA0'', 4), (''SA1'', 4), (''SA2'', 4), (''__reserved_1_'', 180),
     (''Command'', 4), (''Status'', 4), (''RxDescriptor'', 4), (''RxStatus'', 4),
     (''RxDescriptorNumber'', 4), (''RxProduceIndex'', 4), (''RxConsumeIndex'', 4), (''TxDescriptor'', 4),
     (''TxStatus'', 4), (''TxDescriptorNumber'', 4), (''TxProduceIndex'', 4), (''TxConsumeIndex'', 4),
     (''__reserved_2_'', 40), (''TSV0'', 4), (''TSV1'', 4), (''RSV'', 4), (''__reserved_3_'', 12),
     (''FlowControlCounter'', 4), (''FlowControlStatus'', 4), (''__reserved_4_'', 136),
     (''RxFilterCtrl'', 4), (''RxFilterWoLStatus'', 4), (''RxFilterWoLClear'', 4), (''__reserved_5_'', 4),
     (''HashFilterL'', 4), (''HashFilterH'', 4), (''__reserved_6_'', 3528), (''IntStatus'', 4),
     (''IntEnable'', 4), (''IntClear'', 4), (''IntSet'', 4), (''__reserved_7_'', 4), (''PowerDown'', 4),
     (''__reserved_8_'', 4), (''Module_ID'', 4)]"

definition lpc_periph_timer_t :: layout where
  "lpc_periph_timer_t =
    [(''IR'', 4), (''TCR'', 4), (''TC'', 4), (''PR'', 4), (''PC'', 4), (''MCR'', 4), (''MR0'', 4),
     (''MR1'', 4), (''MR2'', 4), (''MR3'', 4), (''CCR'', 4), (''CR0'', 4), (''CR1'', 4),
     (''__reserved_0_'', 8), (''EMR'', 4), (''__reserved_1_'', 48), (''CTCR'', 4)]"

definition lpc_periph_sc_t :: layout where
  "lpc_periph_sc_t =
    [(''FLASHCFG'', 4), (''__reserved_0_'', 124), (''PLL0CON'', 4), (''PLL0CFG'', 4), (''PLL0STAT'', 4),
     (''PLL0FEED'', 4), (''__reserved_1_'', 16), (''PLL1CON'', 4), (''PLL1CFG'', 4), (''PLL1STAT'', 4),
     (''PLL1FEED'', 4), (''__reserved_2_'', 16), (''PCON'', 4), (''PCONP'', 4), (''__reserved_3_'', 60),
     (''CCLKCFG'', 4), (''USBCLKCFG'', 4), (''CLKSRCSEL'', 4), (''CANSLEEPCLR'', 4), (''CANWAKEFLAGS'', 4),
     (''__reserved_4_'', 40), (''EXTINT'', 4), (''__reserved_5_'', 4), (''EXTMODE'', 4), (''EXTPOLAR'', 4),
     (''__reserved_6_'', 48), (''RSID'', 4), (''__reserved_7_'', 28), (''SCS'', 4), (''IRCTRIM'', 4),
     (''PCLKSEL0'', 4), (''PCLKSEL1'', 4), (''__reserved_8_'', 16), (''USBIntSt'', 4), (''DMAREQSEL'', 4),
     (''CLKOUTCFG'', 4)]"

definition lpc_periph_pincon_t :: layout where
  "lpc_periph_pincon_t =
    [(''PINSEL0'', 4), (''PINSEL1'', 4), (''PINSEL2'', 4), (''PINSEL3'', 4), (''PINSEL4'', 4),
     (''PINSEL5'', 4), (''PINSEL6'', 4), (''PINSEL7'', 4), (''PINSEL8'', 4), (''PINSEL9'', 4),
     (''PINSEL10'', 4), (''__reserved_0_'', 20), (''PINMODE0'', 4), (''PINMODE1'', 4), (''PINMODE2'', 4),
     (''PINMODE3'', 4), (''PINMODE4'', 4), (''PINMODE5'', 4), (''PINMODE6'', 4), (''PINMODE7'', 4),
     (''PINMODE8'', 4), (''PINMODE9'', 4), (''PINMODE_OD0'', 4), (''PINMODE_OD1'', 4), (''PINMODE_OD2'', 4),
     (''PINMODE_OD3'', 4), (''PINMODE_OD4'', 4), (''I2CPADCFG'', 4)]"

definition lpc_core_nvic_t :: layout where
  "lpc_core_nvic_t =
    [(''ISER0'', 4), (''ISER1'', 4), (''ISER2'', 4), (''ISER3'', 4), (''__reserved_0_'', 112),
     (''ICER0'', 4), (''ICER1'', 4), (''ICER2'', 4), (''ICER3'', 4), (''__reserved_1_'', 112),
     (''ISPR0'', 4), (''ISPR1'', 4), (''ISPR2'', 4), (''ISPR3'', 4), (''__reserved_2_'', 112),
     (''ICPR0'', 4), (''ICPR1'', 4), (''ICPR2'', 4), (''ICPR3'', 4), (''__reserved_3_'', 112),
     (''IABR0'', 4), (''IABR1'', 4), (''IABR2'', 4), (''IABR3'', 4), (''__reserved_4_'', 240), (''IPR0'', 4),
     (''IPR1'', 4), (''IPR2'', 4), (''IPR3'', 4), (''IPR4'', 4), (''IPR5'', 4), (''IPR6'', 4), (''IPR7'', 4),
     (''IPR8'', 4), (''IPR9'', 4), (''IPR10'', 4), (''IPR11'', 4), (''IPR12'', 4), (''IPR13'', 4),
     (''IPR14'', 4), (''IPR15'', 4), (''IPR16'', 4), (''IPR17'', 4), (''IPR18'', 4), (''IPR19'', 4),
     (''IPR20'', 4), (''IPR21'', 4), (''IPR22'', 4), (''IPR23'', 4), (''IPR24'', 4), (''IPR25'', 4),
     (''IPR26'', 4), (''IPR27'', 4), (''__reserved_5_'', 2704), (''STIR'', 4)]"

definition lpc_core_scb_t :: layout where
  "lpc_core_scb_t =
    [(''CPUID'', 4), (''ICSR'', 4), (''VTOR'', 4), (''AIRCR'', 4), (''SCR'', 4), (''CCR'', 4), (''SHP'', 12),
     (''SHCSR'', 4), (''CFSR'', 4), (''HFSR'', 4), (''DFSR'', 4), (''MMFAR'', 4), (''BFAR'', 4),
     (''AFSR'', 4), (''PFR'', 8), (''DFR'', 4), (''ADR'', 4), (''MMFR'', 16), (''ISAR'', 20)]"

definition ICSR_PENDSVSET_MASK :: u32 where
  "ICSR_PENDSVSET_MASK = 0x10000000"

subsection \<open>lpc17xx.c\<close>

definition LPC_EMAC :: peripheral where
  "LPC_EMAC = (0x50000000, lpc_periph_emac_t)"

definition LPC_SC :: peripheral where
  "LPC_SC = (0x400FC000, lpc_periph_sc_t)"

definition LPC_PINCON :: peripheral where
  "LPC_PINCON = (0x4002C000, lpc_periph_pincon_t)"

definition LPC_TIM0 :: peripheral where
  "LPC_TIM0 = (0x40004000, lpc_periph_timer_t)"

definition LPC_TIM1 :: peripheral where
  "LPC_TIM1 = (0x40008000, lpc_periph_timer_t)"

definition LPC_TIM2 :: peripheral where
  "LPC_TIM2 = (0x40090000, lpc_periph_timer_t)"

definition LPC_TIM3 :: peripheral where
  "LPC_TIM3 = (0x40094000, lpc_periph_timer_t)"

definition LPC_NVIC :: peripheral where
  "LPC_NVIC = (0xE000E100, lpc_core_nvic_t)"

definition LPC_SCB :: peripheral where
  "LPC_SCB = (0xE000ED00, lpc_core_scb_t)"

text \<open>The address of a register: \<open>&p->f\<close>.\<close>

definition reg :: "peripheral \<Rightarrow> string \<Rightarrow> u32" where
  "reg p f = fst p + of_nat (the (offset_of (snd p) f))"

subsection \<open>The addresses of the registers the code uses\<close>

lemma reg_EMAC [simp]:
  "reg LPC_EMAC ''MAC1'' = 0x50000000" "reg LPC_EMAC ''MAC2'' = 0x50000004" "reg LPC_EMAC ''IPGT'' = 0x50000008"
  "reg LPC_EMAC ''IPGR'' = 0x5000000C" "reg LPC_EMAC ''SUPP'' = 0x50000018" "reg LPC_EMAC ''MCMD'' = 0x50000024"
  "reg LPC_EMAC ''MADR'' = 0x50000028" "reg LPC_EMAC ''MWTD'' = 0x5000002C" "reg LPC_EMAC ''MRDD'' = 0x50000030"
  "reg LPC_EMAC ''MIND'' = 0x50000034" "reg LPC_EMAC ''SA0'' = 0x50000040" "reg LPC_EMAC ''SA1'' = 0x50000044"
  "reg LPC_EMAC ''SA2'' = 0x50000048" "reg LPC_EMAC ''Command'' = 0x50000100"
  "reg LPC_EMAC ''RxDescriptor'' = 0x50000108" "reg LPC_EMAC ''RxStatus'' = 0x5000010C"
  "reg LPC_EMAC ''RxDescriptorNumber'' = 0x50000110" "reg LPC_EMAC ''RxProduceIndex'' = 0x50000114"
  "reg LPC_EMAC ''RxConsumeIndex'' = 0x50000118" "reg LPC_EMAC ''TxDescriptor'' = 0x5000011C"
  "reg LPC_EMAC ''TxStatus'' = 0x50000120" "reg LPC_EMAC ''TxDescriptorNumber'' = 0x50000124"
  "reg LPC_EMAC ''TxProduceIndex'' = 0x50000128" "reg LPC_EMAC ''TxConsumeIndex'' = 0x5000012C"
  "reg LPC_EMAC ''IntEnable'' = 0x50000FE4" "reg LPC_EMAC ''IntClear'' = 0x50000FE8"
  by (simp_all add: reg_def LPC_EMAC_def lpc_periph_emac_t_def)

lemma reg_SC [simp]:
  "reg LPC_SC ''PLL0CON'' = 0x400FC080" "reg LPC_SC ''PLL0CFG'' = 0x400FC084"
  "reg LPC_SC ''PLL0STAT'' = 0x400FC088" "reg LPC_SC ''PLL0FEED'' = 0x400FC08C"
  "reg LPC_SC ''PCONP'' = 0x400FC0C4" "reg LPC_SC ''CCLKCFG'' = 0x400FC104"
  "reg LPC_SC ''CLKSRCSEL'' = 0x400FC10C" "reg LPC_SC ''SCS'' = 0x400FC1A0"
  by (simp_all add: reg_def LPC_SC_def lpc_periph_sc_t_def)

lemma reg_PINCON [simp]:
  "reg LPC_PINCON ''PINSEL2'' = 0x4002C008" "reg LPC_PINCON ''PINSEL3'' = 0x4002C00C"
  by (simp_all add: reg_def LPC_PINCON_def lpc_periph_pincon_t_def)

lemma reg_TIM0 [simp]:
  "reg LPC_TIM0 ''IR'' = 0x40004000" "reg LPC_TIM0 ''TCR'' = 0x40004004" "reg LPC_TIM0 ''TC'' = 0x40004008"
  "reg LPC_TIM0 ''PR'' = 0x4000400C" "reg LPC_TIM0 ''PC'' = 0x40004010" "reg LPC_TIM0 ''MCR'' = 0x40004014"
  "reg LPC_TIM0 ''MR0'' = 0x40004018"
  by (simp_all add: reg_def LPC_TIM0_def lpc_periph_timer_t_def)

lemma reg_NVIC [simp]:
  "reg LPC_NVIC ''ISER0'' = 0xE000E100"
  by (simp_all add: reg_def LPC_NVIC_def lpc_core_nvic_t_def)

lemma reg_SCB [simp]:
  "reg LPC_SCB ''ICSR'' = 0xE000ED04"
  by (simp_all add: reg_def LPC_SCB_def lpc_core_scb_t_def)

subsection \<open>The map as a whole\<close>

text \<open>The reserved words of the structs put the registers behind them at the addresses of the LPC17xx
  and Cortex-M3 manuals; the register block of the Ethernet MAC fills one page exactly, the other
  peripherals end within theirs.\<close>

theorem register_map_documented:
  "map (reg LPC_EMAC) [''SA0'', ''Command'', ''TSV0'', ''FlowControlCounter'', ''RxFilterCtrl'', ''IntStatus'', ''PowerDown'', ''Module_ID'']
     = [0x50000040, 0x50000100, 0x50000158, 0x50000170, 0x50000200, 0x50000FE0, 0x50000FF4, 0x50000FFC]
   \<and> map (reg LPC_SC) [''PLL0CON'', ''PLL1CON'', ''PCON'', ''CCLKCFG'', ''EXTINT'', ''EXTMODE'', ''RSID'', ''SCS'', ''USBIntSt'']
     = [0x400FC080, 0x400FC0A0, 0x400FC0C0, 0x400FC104, 0x400FC140, 0x400FC148, 0x400FC180, 0x400FC1A0, 0x400FC1C0]
   \<and> map (reg LPC_TIM0) [''EMR'', ''CTCR''] = [0x4000403C, 0x40004070] \<and> map (reg LPC_TIM3) [''EMR'', ''CTCR''] = [0x4009403C, 0x40094070]
   \<and> map (reg LPC_PINCON) [''PINMODE0'', ''I2CPADCFG''] = [0x4002C040, 0x4002C07C]
   \<and> map (reg LPC_NVIC) [''ICER0'', ''ISPR0'', ''ICPR0'', ''IABR0'', ''IPR0'', ''STIR'']
     = [0xE000E180, 0xE000E200, 0xE000E280, 0xE000E300, 0xE000E400, 0xE000EF00]
   \<and> map (reg LPC_SCB) [''SHP'', ''SHCSR'', ''PFR'', ''ISAR''] = [0xE000ED18, 0xE000ED24, 0xE000ED40, 0xE000ED60]
   \<and> map struct_size [lpc_periph_emac_t, lpc_periph_timer_t, lpc_periph_sc_t, lpc_periph_pincon_t, lpc_core_nvic_t, lpc_core_scb_t]
     = [4096, 0x74, 0x1CC, 0x80, 0xE04, 0x74]"
  by (simp add: reg_def struct_size_def LPC_EMAC_def LPC_SC_def LPC_TIM0_def LPC_TIM3_def LPC_PINCON_def LPC_NVIC_def LPC_SCB_def
      lpc_periph_emac_t_def lpc_periph_timer_t_def lpc_periph_sc_t_def lpc_periph_pincon_t_def lpc_core_nvic_t_def lpc_core_scb_t_def)

end
