(* ===== verification/Device.thy ===== *)
theory Device
  imports Register_Map Emac Tick
begin

text \<open>
  The registers as the start-up code sees them. The hardware behind them is a function that answers
  a read of a register from the accesses made so far; it is an argument of every operation that
  reads one. The state logs the accesses in order. Of the registers only the two indices that the
  driver owns have a copy in the state of the driver.

  A busy loop on a register is a partial function: \<open>None\<close> when it never ends.
\<close>

unbundle bit_operations_syntax

datatype access = Rd u32 u32 | Wr u32 u32

type_synonym device = "access list \<Rightarrow> u32 \<Rightarrow> u32"

record board = net +
  accesses :: "access list"

definition reg_read :: "device \<Rightarrow> u32 \<Rightarrow> 'a board_scheme \<Rightarrow> u32 \<times> 'a board_scheme" where
  "reg_read D r s = (let v = D (accesses s) r in (v, s\<lparr>accesses := accesses s @ [Rd r v]\<rparr>))"

definition reg_write :: "u32 \<Rightarrow> u32 \<Rightarrow> 'a board_scheme \<Rightarrow> 'a board_scheme" where
  "reg_write r v s =
     (let s = s\<lparr>accesses := accesses s @ [Wr r v]\<rparr>
      in if r = reg LPC_EMAC ''RxConsumeIndex'' then s\<lparr>rx_consume_index := v\<rparr>
         else if r = reg LPC_EMAC ''TxProduceIndex'' then s\<lparr>tx_produce_index := v\<rparr> else s)"

text \<open>Assignments to several registers, one after the other, and \<open>r op= v\<close>.\<close>

definition reg_writes :: "(u32 \<times> u32) list \<Rightarrow> 'a board_scheme \<Rightarrow> 'a board_scheme" where
  "reg_writes ws s = fold (\<lambda>(r, v). reg_write r v) ws s"

definition reg_update :: "device \<Rightarrow> u32 \<Rightarrow> (u32 \<Rightarrow> u32) \<Rightarrow> 'a board_scheme \<Rightarrow> 'a board_scheme" where
  "reg_update D r f s = (let (v, s) = reg_read D r s in reg_write r (f v) s)"

text \<open>\<open>while (!stop(rd())) {}\<close>\<close>

partial_function (option) wait_until :: "('s \<Rightarrow> ('v \<times> 's) option) \<Rightarrow> ('v \<Rightarrow> bool) \<Rightarrow> 's \<Rightarrow> 's option" where
  "wait_until rd stop s = do { (v, s) \<leftarrow> rd s; if stop v then Some s else wait_until rd stop s }"

definition wait_reg :: "device \<Rightarrow> u32 \<Rightarrow> (u32 \<Rightarrow> bool) \<Rightarrow> 'a board_scheme \<Rightarrow> 'a board_scheme option" where
  "wait_reg D r stop s = wait_until (\<lambda>s. Some (reg_read D r s)) stop s"

subsection \<open>The PHY\<close>

definition PHY_ADDR :: u32 where
  "PHY_ADDR = 1"

definition phy_write :: "device \<Rightarrow> u32 \<Rightarrow> u32 \<Rightarrow> 'a board_scheme \<Rightarrow> 'a board_scheme option" where
  "phy_write D r writeval s =
     (let s = reg_write (reg LPC_EMAC ''MCMD'') 0 s;
          s = reg_write (reg LPC_EMAC ''MADR'') (r OR push_bit 8 PHY_ADDR) s;
          s = reg_write (reg LPC_EMAC ''MWTD'') writeval s
      in wait_reg D (reg LPC_EMAC ''MIND'') (\<lambda>v. v AND 0x1 = 0) s)"

definition phy_read :: "device \<Rightarrow> u8 \<Rightarrow> 'a board_scheme \<Rightarrow> (u16 \<times> 'a board_scheme) option" where
  "phy_read D r s =
     do {
       let s = reg_write (reg LPC_EMAC ''MCMD'') 0x1 s;
       let s = reg_write (reg LPC_EMAC ''MADR'') (ucast r OR push_bit 8 PHY_ADDR) s;
       s \<leftarrow> wait_reg D (reg LPC_EMAC ''MIND'') (\<lambda>v. v AND 0x1 = 0) s;
       let s = reg_write (reg LPC_EMAC ''MCMD'') 0 s;
       let (v, s) = reg_read D (reg LPC_EMAC ''MRDD'') s;
       Some (ucast v, s)
     }"

end
