(* ===== verification/Startup.thy ===== *)
theory Startup
  imports Complex_Main Device Rx_Task
begin

text \<open>
  From reset to the first context switch: \<open>init.c\<close>, the start-up of the Ethernet MAC in \<open>emac.c\<close> and of
  the timer in \<open>tick.c\<close>, and the entry of the demo program \<open>main.c\<close>. What the linker decides (the
  section bounds of \<open>linker.ld\<close>, the addresses of the descriptor arrays, the order of the initcalls
  and threads) is a record of its own.
\<close>

unbundle bit_operations_syntax

datatype initcall_t = ARP_INIT | ETHERNET_INIT | EMAC_INIT | TICK_INIT | IPV4_INIT | UDP_INIT | TCP_INIT

record linker =
  lk_etext :: u32
  lk_sdata :: u32
  lk_edata :: u32
  lk_sbss :: u32
  lk_ebss :: u32
  lk_rx_desc :: u32
  lk_tx_desc :: u32
  lk_tx_status :: u32
  lk_rx_status :: u32
  lk_initcalls :: "initcall_t list"
  lk_threads :: "u32 list"

subsection \<open>emac.c\<close>

text \<open>The link parameters decide the speed and the duplex mode of the MAC.\<close>

definition emac_set_link :: "device \<Rightarrow> u16 \<Rightarrow> 'a board_scheme \<Rightarrow> 'a board_scheme" where
  "emac_set_link D link_params s =
     (let s = (if link_params AND 0x2 = 0 then reg_write (reg LPC_EMAC ''SUPP'') 0x100 s
               else reg_write (reg LPC_EMAC ''SUPP'') 0 s)
      in if link_params AND 0x4 \<noteq> 0 then reg_update D (reg LPC_EMAC ''Command'') (\<lambda>v. v OR 0x400) s
         else reg_update D (reg LPC_EMAC ''Command'') (\<lambda>v. v AND NOT 0x400) s)"

definition mac_half :: "nat \<Rightarrow> u32" where
  "mac_half i = push_bit 8 (ucast (mac_address ! i)) OR ucast (mac_address ! (i + 1))"

text \<open>The descriptor arrays are handed to the MAC and reception is enabled.\<close>

definition emac_enable :: "linker \<Rightarrow> device \<Rightarrow> 'a board_scheme \<Rightarrow> 'a board_scheme" where
  "emac_enable lk D s =
     (let s = reg_writes [(reg LPC_EMAC ''RxDescriptor'', lk_rx_desc lk), (reg LPC_EMAC ''TxDescriptor'', lk_tx_desc lk),
            (reg LPC_EMAC ''TxStatus'', lk_tx_status lk), (reg LPC_EMAC ''RxStatus'', lk_rx_status lk),
            (reg LPC_EMAC ''RxDescriptorNumber'', of_nat DESC_LEN - 1), (reg LPC_EMAC ''TxDescriptorNumber'', of_nat DESC_LEN - 1),
            (reg LPC_EMAC ''RxConsumeIndex'', 0), (reg LPC_EMAC ''TxProduceIndex'', 0)] s;
          s = reg_update D (reg LPC_EMAC ''MAC1'') (\<lambda>v. v OR 1) s;
          s = reg_update D (reg LPC_EMAC ''IntEnable'') (\<lambda>v. v OR 0x8) s;
          s = reg_update D (reg LPC_EMAC ''Command'') (\<lambda>v. v OR (3 OR 0x200 OR 0x80)) s
      in reg_write (reg LPC_NVIC ''ISER0'') 0x10000000 s)"

text \<open>Power, pins and MAC are set up, the PHY is reset and brought up; its link parameters are read.\<close>

definition emac_probe :: "device \<Rightarrow> 'a board_scheme \<Rightarrow> (u16 \<times> 'a board_scheme) option" where
  "emac_probe D s =
     do {
       let s = reg_update D (reg LPC_SC ''PCONP'') (\<lambda>v. v OR 0x40000000) s;
       let s = reg_writes [(reg LPC_PINCON ''PINSEL2'', 0x50150105), (reg LPC_PINCON ''PINSEL3'', 0x5),
                 (reg LPC_EMAC ''MAC1'', 0)] s;
       let s = reg_update D (reg LPC_EMAC ''MAC2'') (\<lambda>v. v OR (1 OR 0x10 OR 0x20)) s;
       let s = reg_writes [(reg LPC_EMAC ''IPGT'', 0x15), (reg LPC_EMAC ''IPGR'', 0x12 OR push_bit 8 0xC)] s;
       let s = reg_update D (reg LPC_EMAC ''Command'') (\<lambda>v. v OR 0x200) s;
       s \<leftarrow> phy_write D 0 0x8000 s;
       s \<leftarrow> wait_until (phy_read D 0) (\<lambda>v. v AND 0x8000 = 0) s;
       s \<leftarrow> phy_write D 0 0x1000 s;
       s \<leftarrow> wait_until (phy_read D 0x10) (\<lambda>v. v AND 0x11 \<noteq> 0) s;
       phy_read D 0x10 s
     }"

definition emac_init :: "linker \<Rightarrow> device \<Rightarrow> 'a board_scheme \<Rightarrow> 'a board_scheme option" where
  "emac_init lk D s =
     do {
       (link_params, s) \<leftarrow> emac_probe D s;
       let s = emac_set_link D link_params s;
       let s = reg_writes [(reg LPC_EMAC ''SA0'', mac_half 0), (reg LPC_EMAC ''SA1'', mac_half 2), (reg LPC_EMAC ''SA2'', mac_half 4)] s;
       s \<leftarrow> alloc_rx_bufs [0..<DESC_LEN] s;
       let s = s\<lparr>ether_addr := map (\<lambda>i. mac_address ! i) [0..<ETHER_ADDR_LEN]\<rparr>;
       Some (emac_enable lk D s)
     }"

subsection \<open>tick.c\<close>

text \<open>The C constants are doubles whose quotient is exact; the register gets its integer part.\<close>

definition TICK_PERIOD :: rat where
  "TICK_PERIOD = 5 / 1000"

definition PCLOCK_FREQ :: rat where
  "PCLOCK_FREQ = 25 * 10 ^ 6"

definition TICK_FREQ :: rat where
  "TICK_FREQ = 1 / TICK_PERIOD"

definition TIMER_COUNTER_INIT_VALUE :: rat where
  "TIMER_COUNTER_INIT_VALUE = PCLOCK_FREQ / TICK_FREQ"

definition tick_init :: "'a board_scheme \<Rightarrow> 'a board_scheme" where
  "tick_init s = reg_writes [(reg LPC_TIM0 ''PR'', 0), (reg LPC_TIM0 ''MR0'', of_int \<lfloor>TIMER_COUNTER_INIT_VALUE\<rfloor>),
     (reg LPC_TIM0 ''TC'', 0), (reg LPC_TIM0 ''PC'', 0), (reg LPC_TIM0 ''MCR'', 0x3),
     (reg LPC_NVIC ''ISER0'', 0x2), (reg LPC_TIM0 ''TCR'', 0x1)] s"

subsection \<open>init.c\<close>

definition run_initcall :: "linker \<Rightarrow> device \<Rightarrow> initcall_t \<Rightarrow> 'a board_scheme \<Rightarrow> 'a board_scheme option" where
  "run_initcall lk D f s =
     (case f of ARP_INIT \<Rightarrow> arp_init s | ETHERNET_INIT \<Rightarrow> ethernet_init s | EMAC_INIT \<Rightarrow> emac_init lk D s
      | TICK_INIT \<Rightarrow> Some (tick_init s) | IPV4_INIT \<Rightarrow> ipv4_init s | UDP_INIT \<Rightarrow> udp_init s | TCP_INIT \<Rightarrow> tcp_init s)"

fun call_initcalls :: "linker \<Rightarrow> device \<Rightarrow> initcall_t list \<Rightarrow> 'a board_scheme \<Rightarrow> 'a board_scheme option" where
  "call_initcalls lk D [] s = Some s"
| "call_initcalls lk D (cur # cs) s = do { s \<leftarrow> run_initcall lk D cur s; call_initcalls lk D cs s }"

text \<open>The feed sequence that makes a write to a PLL0 register take effect.\<close>

definition pll0_feed :: "(u32 \<times> u32) list" where
  "pll0_feed = [(reg LPC_SC ''PLL0FEED'', 0xAA), (reg LPC_SC ''PLL0FEED'', 0x55)]"

definition init_clocking :: "device \<Rightarrow> 'a board_scheme \<Rightarrow> 'a board_scheme option" where
  "init_clocking D s =
     do {
       let s = reg_write (reg LPC_SC ''SCS'') 0x20 s;
       s \<leftarrow> wait_reg D (reg LPC_SC ''SCS'') (\<lambda>v. v AND 0x40 \<noteq> 0) s;
       let s = reg_writes ([(reg LPC_SC ''CLKSRCSEL'', 0x1), (reg LPC_SC ''CCLKCFG'', 0x2),
                 (reg LPC_SC ''PLL0CFG'', 24 OR 0x10000)] @ pll0_feed @ [(reg LPC_SC ''PLL0CON'', 0x01)] @ pll0_feed) s;
       s \<leftarrow> wait_reg D (reg LPC_SC ''PLL0STAT'') (\<lambda>v. v AND 0x4000000 \<noteq> 0) s;
       let s = reg_writes ([(reg LPC_SC ''PLL0CON'', 0x3)] @ pll0_feed) s;
       wait_reg D (reg LPC_SC ''PLL0STAT'') (\<lambda>v. v AND (0x2000000 OR 0x1000000) \<noteq> 0) s
     }"

lemma unat_next: "a < (b :: u32) \<Longrightarrow> unat (a + 1) = unat a + 1"
proof -
  assume "a < b"
  moreover have "unat b < 2 ^ LENGTH(32)" by (rule unsigned_less)
  ultimately show ?thesis by (simp add: word_less_nat_alt unat_word_ariths)
qed

function copy_data :: "u32 \<Rightarrow> u32 \<Rightarrow> u32 \<Rightarrow> mem \<Rightarrow> mem" where
  "copy_data src dst edata m = (if dst < edata then copy_data (src + 1) (dst + 1) edata (m(dst := m src)) else m)"
  by pat_completeness auto
termination
  by (relation "measure (\<lambda>(src, dst, edata, m). unat edata - unat dst)") (auto simp: unat_next word_less_nat_alt)

declare copy_data.simps [simp del]

function zero_bss :: "u32 \<Rightarrow> u32 \<Rightarrow> mem \<Rightarrow> mem" where
  "zero_bss dst ebss m = (if dst < ebss then zero_bss (dst + 1) ebss (m(dst := 0)) else m)"
  by pat_completeness auto
termination
  by (relation "measure (\<lambda>(dst, ebss, m). unat ebss - unat dst)") (auto simp: unat_next word_less_nat_alt)

declare zero_bss.simps [simp del]

text \<open>
  Copying \<open>.data\<close> and clearing \<open>.bss\<close> gives the statics their initial values: the lists made by
  \<open>LIST\<close> and the wait queues are empty, pointers and counters are 0.
\<close>

definition init_statics :: "'a board_scheme \<Rightarrow> 'a board_scheme" where
  "init_statics s = s\<lparr>runqueue := [], waitqueue := [], deadqueue := [], current_tsk := 0, idle_tsk := 0,
     pkt_rx_q := [], rx_waitq := [], protocol_head := [], ether_tx_queue := [], ether_tx_waitq := [],
     ether_addr := replicate ETHER_ADDR_LEN 0, no_dropped_packets := 0, arp_table_head := [],
     arp_pending_requests := [], arp_waitqueue := [], ip4_tx_queue := [], ip4_tx_waitq := [],
     udp_rx_requests := [], udp_waitq := [], tcb_head := [], tcp_waitq := [],
     rx_desc := replicate DESC_LEN (0, 0), rx_status := replicate DESC_LEN 0, current_frame := 0, current_frame_len := 0,
     tx_desc := replicate DESC_LEN (0, 0), tick_work := [], timer0_irq_wakeups := 0\<rparr>"

text \<open>\<open>_start\<close>, up to the branch to itself in which it waits for the first context switch.\<close>

definition start :: "linker \<Rightarrow> device \<Rightarrow> 'a board_scheme \<Rightarrow> 'a board_scheme option" where
  "start lk D s =
     do {
       let s = s\<lparr>ram := copy_data (lk_etext lk) (lk_sdata lk) (lk_edata lk) (ram s)\<rparr>;
       let s = s\<lparr>ram := zero_bss (lk_sbss lk) (lk_ebss lk) (ram s)\<rparr>;
       let s = init_statics s;
       s \<leftarrow> init_clocking D s;
       let s = mem_setup s;
       s \<leftarrow> call_initcalls lk D (lk_initcalls lk) s;
       s \<leftarrow> process_init (lk_threads lk) s;
       Some (cpsie s)
     }"

subsection \<open>main.c\<close>

text \<open>
  The demo thread, between the points at which its calls wait: before the connection, waiting in
  \<open>tcp_connect\<close> or \<open>tcp_tx_data\<close> for the connection at an address, in the final loop. \<open>hdr\<close> is the
  address of the local of \<open>tcp_connect\<close>, \<open>str\<close> that of the string. A NULL connection is not checked
  for: writing through it faults.
\<close>

definition main_str :: string where
  "main_str = ''Hello, UDP!'' @ [CHR 0x0A]"

datatype main_at = Main_Entry | Main_Connecting u32 | Main_Sending u32 | Main_Wfi

definition main_turn :: "u32 \<Rightarrow> u32 \<Rightarrow> main_at \<Rightarrow> 'a net_scheme \<Rightarrow> (main_at \<times> 'a net_scheme) option" where
  "main_turn hdr str pc s =
     (case pc of
        Main_Entry \<Rightarrow> do { (c, s) \<leftarrow> tcp_connect 5757 0xC0A80476 hdr s; Some (Main_Connecting c, s) }
      | Main_Connecting c \<Rightarrow> do {
          (r, s) \<leftarrow> tcp_connect_wait c s;
          case r of None \<Rightarrow> Some (Main_Connecting c, s)
          | Some tcp_connection \<Rightarrow>
              if tcp_connection = 0 then None
              else do { s \<leftarrow> tcp_tx_data tcp_connection str (of_nat (length main_str)) s; Some (Main_Sending tcp_connection, s) } }
      | Main_Sending c \<Rightarrow> do { (done, s) \<leftarrow> tcp_tx_data_wait c s; Some (if done then Main_Wfi else pc, s) }
      | Main_Wfi \<Rightarrow> Some (Main_Wfi, s))"

end
