(* ===== verification/Device_Correct.thy ===== *)
theory Device_Correct
  imports Device
begin

text \<open>
  Reasoning about register accesses: what an operation adds to the log, when a busy loop ends, and
  what a transaction with the PHY does, for hardware that settles.
\<close>

unbundle bit_operations_syntax

subsection \<open>The log of accesses\<close>

text \<open>\<open>s\<close> with the accesses \<open>a\<close> added to its log; the writes among some accesses.\<close>

definition logged :: "'a board_scheme \<Rightarrow> access list \<Rightarrow> 'a board_scheme" where
  "logged s a = s\<lparr>accesses := accesses s @ a\<rparr>"

fun writes :: "access list \<Rightarrow> (u32 \<times> u32) list" where
  "writes [] = []"
| "writes (Rd r v # a) = writes a"
| "writes (Wr r v # a) = (r, v) # writes a"

lemma writes_append [simp]: "writes (a @ b) = writes a @ writes b"
  by (induction a rule: writes.induct) simp_all

lemma logged_logged [simp]: "logged (logged s a) b = logged s (a @ b)"
  by (simp add: logged_def)

lemma logged_nil [simp]: "logged s [] = s"
  by (simp add: logged_def)

lemma accesses_logged [simp]: "accesses (logged s a) = accesses s @ a"
  by (simp add: logged_def)

lemma reg_read_logged: "reg_read D r s = (D (accesses s) r, logged s [Rd r (D (accesses s) r)])"
  by (simp add: reg_read_def logged_def Let_def)

definition plain :: "u32 \<Rightarrow> bool" where
  "plain r \<longleftrightarrow> r \<noteq> reg LPC_EMAC ''RxConsumeIndex'' \<and> r \<noteq> reg LPC_EMAC ''TxProduceIndex''"

lemma reg_write_logged: "plain r \<Longrightarrow> reg_write r v s = logged s [Wr r v]"
  by (simp add: reg_write_def logged_def plain_def)

lemma reg_update_logged:
  "plain r \<Longrightarrow> reg_update D r f s = logged s [Rd r (D (accesses s) r), Wr r (f (D (accesses s) r))]"
  by (simp add: reg_update_def reg_read_logged reg_write_logged)

lemma reg_writes_logged:
  "list_all (\<lambda>w. plain (fst w)) ws \<Longrightarrow> reg_writes ws s = logged s (map (\<lambda>(r, v). Wr r v) ws)"
  by (induction ws arbitrary: s) (auto simp: reg_writes_def reg_write_logged)

lemma writes_map [simp]: "writes (map (\<lambda>(r, v). Wr r v) ws) = ws"
  by (induction ws) auto

subsection \<open>Busy loops\<close>

text \<open>The log after \<open>n\<close> reads of a register, and hardware that settles: whatever was accessed before,
  a register that is read over and over at some time has a value that satisfies \<open>stop\<close>.\<close>

fun polled :: "device \<Rightarrow> u32 \<Rightarrow> nat \<Rightarrow> access list \<Rightarrow> access list" where
  "polled D r 0 h = h"
| "polled D r (Suc n) h = polled D r n (h @ [Rd r (D h r)])"

definition settles :: "device \<Rightarrow> u32 \<Rightarrow> (u32 \<Rightarrow> bool) \<Rightarrow> bool" where
  "settles D r stop \<longleftrightarrow> (\<forall>h. \<exists>n. stop (D (polled D r n h) r))"

text \<open>The accesses of a busy loop: reads of the register until a value satisfies \<open>stop\<close>.\<close>

definition polls :: "u32 \<Rightarrow> (u32 \<Rightarrow> bool) \<Rightarrow> access list \<Rightarrow> bool" where
  "polls r stop a \<longleftrightarrow> (\<exists>vs v. a = map (Rd r) vs @ [Rd r v] \<and> stop v \<and> (\<forall>x \<in> set vs. \<not> stop x))"

lemma polls_Cons: "polls r stop a \<Longrightarrow> \<not> stop v \<Longrightarrow> polls r stop (Rd r v # a)"
  unfolding polls_def by (elim exE conjE) (rule exI [of _ "v # _"], auto)

lemma polls_writes: "polls r stop a \<Longrightarrow> writes a = []"
proof -
  have "writes (map (Rd r) vs) = []" for vs by (induction vs) simp_all
  then show "polls r stop a \<Longrightarrow> writes a = []" by (auto simp: polls_def)
qed

lemma wait_reg_polls:
  assumes "stop (D (polled D r n (accesses s)) r)"
  shows "\<exists>a. wait_reg D r stop s = Some (logged s a) \<and> polls r stop a"
  using assms
proof (induction n arbitrary: s)
  case 0
  then have "wait_reg D r stop s = Some (logged s [Rd r (D (accesses s) r)])"
    unfolding wait_reg_def by (subst wait_until.simps) (simp add: reg_read_logged)
  moreover have "polls r stop [Rd r (D (accesses s) r)]" using 0 by (simp add: polls_def)
  ultimately show ?case by blast
next
  case (Suc n)
  let ?v = "D (accesses s) r"
  let ?s = "logged s [Rd r ?v]"
  have step: "wait_reg D r stop s = (if stop ?v then Some ?s else wait_reg D r stop ?s)"
    unfolding wait_reg_def by (subst wait_until.simps) (simp add: reg_read_logged)
  show ?case
  proof (cases "stop ?v")
    case True
    then have "polls r stop [Rd r ?v]" by (simp add: polls_def)
    with step True show ?thesis by auto
  next
    case False
    obtain a where a: "wait_reg D r stop ?s = Some (logged ?s a)" "polls r stop a"
      using Suc.IH [of ?s] Suc.prems by auto
    with step False polls_Cons [OF a(2) False] show ?thesis by auto
  qed
qed

lemma wait_reg_settles:
  assumes "settles D r stop"
  obtains a where "wait_reg D r stop s = Some (logged s a)" "polls r stop a"
  using assms wait_reg_polls unfolding settles_def by blast

text \<open>A register that never has such a value keeps the processor in the loop for ever.\<close>

lemma wait_until_stop:
  "wait_until rd stop s = Some t \<Longrightarrow> \<exists>s0 v. rd s0 = Some (v, t) \<and> stop v"
  by (rule wait_until.raw_induct [where P = "\<lambda>rd stop s t. \<exists>s0 v. rd s0 = Some (v, t) \<and> stop v"])
    (auto split: bind_splits if_splits, blast)

lemma wait_reg_hangs:
  assumes "\<forall>h. \<not> stop (D h r)"
  shows "wait_reg D r stop s = None"
proof (rule ccontr)
  assume "wait_reg D r stop s \<noteq> None"
  then obtain t where "wait_until (\<lambda>s. Some (reg_read D r s)) stop s = Some t" by (auto simp: wait_reg_def)
  from wait_until_stop [OF this] assms show False by (auto simp: reg_read_logged)
qed

subsection \<open>The PHY\<close>

lemma plain_regs [simp]:
  "plain (reg LPC_EMAC ''MCMD'')" "plain (reg LPC_EMAC ''MADR'')" "plain (reg LPC_EMAC ''MWTD'')"
  "plain (reg LPC_EMAC ''MAC1'')" "plain (reg LPC_EMAC ''MAC2'')" "plain (reg LPC_EMAC ''Command'')"
  "plain (reg LPC_EMAC ''SUPP'')" "plain (reg LPC_EMAC ''IntEnable'')" "plain (reg LPC_SC ''PCONP'')"
  "plain (reg LPC_NVIC ''ISER0'')"
  by (simp_all add: plain_def)

text \<open>The management interface of the MAC becomes idle again after every transaction.\<close>

abbreviation mii_settles :: "device \<Rightarrow> bool" where
  "mii_settles D \<equiv> settles D (reg LPC_EMAC ''MIND'') (\<lambda>v. v AND 0x1 = 0)"

lemma phy_write_ok:
  assumes "mii_settles D"
  obtains a where "phy_write D r v s = Some (logged s a)"
proof -
  let ?w = "[Wr (reg LPC_EMAC ''MCMD'') 0, Wr (reg LPC_EMAC ''MADR'') (r OR push_bit 8 PHY_ADDR), Wr (reg LPC_EMAC ''MWTD'') v]"
  obtain a where a: "wait_reg D (reg LPC_EMAC ''MIND'') (\<lambda>v. v AND 0x1 = 0) (logged s ?w) = Some (logged (logged s ?w) a)"
    by (rule wait_reg_settles [OF assms])
  show thesis
    by (rule that [of "?w @ a"]) (use a in \<open>simp add: phy_write_def Let_def reg_write_logged plain_regs del: reg_EMAC\<close>)
qed

lemma phy_read_ok:
  assumes "mii_settles D"
  shows "\<exists>v a. phy_read D r s = Some (v, logged s a)"
proof -
  let ?w = "[Wr (reg LPC_EMAC ''MCMD'') 0x1, Wr (reg LPC_EMAC ''MADR'') (ucast r OR push_bit 8 PHY_ADDR)]"
  obtain a where a: "wait_reg D (reg LPC_EMAC ''MIND'') (\<lambda>v. v AND 0x1 = 0) (logged s ?w) = Some (logged (logged s ?w) a)"
    by (rule wait_reg_settles [OF assms])
  let ?v = "\<lambda>s. D (accesses s) (reg LPC_EMAC ''MRDD'')"
  let ?b = "?w @ a @ [Wr (reg LPC_EMAC ''MCMD'') 0]"
  show ?thesis
    by (rule exI [of _ "ucast (?v (logged s ?b))"], rule exI [of _ "?b @ [Rd (reg LPC_EMAC ''MRDD'') (?v (logged s ?b))]"])
      (use a in \<open>simp add: phy_read_def Let_def reg_write_logged reg_read_logged plain_regs del: reg_EMAC\<close>)
qed

text \<open>Reading a register of the PHY over and over at some time gives a value that satisfies \<open>stop\<close>,
  whatever was accessed before.\<close>

fun reread :: "('s \<Rightarrow> ('v \<times> 's) option) \<Rightarrow> nat \<Rightarrow> 's \<Rightarrow> 's option" where
  "reread rd 0 s = Some s"
| "reread rd (Suc n) s = do { (v, s) \<leftarrow> rd s; reread rd n s }"

definition phy_settles :: "device \<Rightarrow> u8 \<Rightarrow> (u16 \<Rightarrow> bool) \<Rightarrow> 'a board_scheme \<Rightarrow> bool" where
  "phy_settles D r stop s \<longleftrightarrow> (\<forall>a. \<exists>n s1 v s2. reread (phy_read D r) n (logged s a) = Some s1
     \<and> phy_read D r s1 = Some (v, s2) \<and> stop v)"

lemma wait_until_logged:
  assumes "\<And>s. \<exists>v a. rd s = Some (v, logged s a)" "reread rd n s = Some s1" "rd s1 = Some (v, s2)" "stop v"
  shows "\<exists>a. wait_until rd stop s = Some (logged s a)"
  using assms(2-)
proof (induction n arbitrary: s)
  case 0
  then obtain v a where v: "rd s = Some (v, logged s a)" "stop v" using assms(1) [of s] by auto
  then show ?case by (subst wait_until.simps) auto
next
  case (Suc n)
  obtain w a where w: "rd s = Some (w, logged s a)" using assms(1) by blast
  then have "reread rd n (logged s a) = Some s1" using Suc.prems(1) by simp
  from Suc.IH [OF this Suc.prems(2,3)] w show ?case by (subst wait_until.simps) auto
qed

lemma phy_wait_ok:
  assumes "mii_settles D" "phy_settles D r stop s"
  obtains b where "wait_until (phy_read D r) stop (logged s a) = Some (logged s b)"
proof -
  obtain n s1 v s2 where "reread (phy_read D r) n (logged s a) = Some s1" "phy_read D r s1 = Some (v, s2)" "stop v"
    using assms(2) unfolding phy_settles_def by blast
  then have "\<exists>b. wait_until (phy_read D r) stop (logged s a) = Some (logged (logged s a) b)"
    by (intro wait_until_logged [where rd = "phy_read D r"] phy_read_ok [OF assms(1)])
  then show thesis by (auto intro: that)
qed

end
