(* ===== verification/Startup_Correct.thy ===== *)
theory Startup_Correct
  imports Startup Boot Device_Correct
begin

text \<open>
  What the parts of the start-up code do: the clock, the Ethernet MAC and its buffers, the creation of
  the threads, the initcalls. \<open>system_ready\<close> describes the system they leave.
\<close>

unbundle bit_operations_syntax

subsection \<open>The clock\<close>

definition feed :: "(u32 \<times> u32) list" where
  "feed = [(0x400FC08C, 0xAA), (0x400FC08C, 0x55)]"

lemma pll0_feed_eq: "pll0_feed = feed"
  by (simp add: pll0_feed_def feed_def)

lemma plain_feed: "list_all (\<lambda>w. plain (fst w)) pll0_feed"
  by (simp add: pll0_feed_def plain_def)

text \<open>The accesses of \<open>init_clocking\<close>: the oscillator is switched on and waited for (bit 6 of SCS), then clock source,
  divider and PLL are set up and the PLL enabled; it is waited for the lock (bit 26 of PLL0STAT), only
  then the PLL is connected, and one of the bits 24 and 25 ends the last loop.\<close>

definition clocking_log :: "access list \<Rightarrow> bool" where
  "clocking_log a \<longleftrightarrow> (\<exists>p1 p2 p3. a = [Wr 0x400FC1A0 0x20] @ p1
       @ map (\<lambda>(r, v). Wr r v) ([(0x400FC10C, 0x1), (0x400FC104, 0x2), (0x400FC084, 0x10018)] @ feed @ [(0x400FC080, 0x1)] @ feed) @ p2
       @ map (\<lambda>(r, v). Wr r v) ([(0x400FC080, 0x3)] @ feed) @ p3
     \<and> polls 0x400FC1A0 (\<lambda>v. bit v 6) p1 \<and> polls 0x400FC088 (\<lambda>v. bit v 26) p2
     \<and> polls 0x400FC088 (\<lambda>v. bit v 24 \<or> bit v 25) p3)"

lemma status_bits:
  fixes v :: u32
  shows "v AND 0x40 \<noteq> 0 \<longleftrightarrow> bit v 6" "v AND 0x4000000 \<noteq> 0 \<longleftrightarrow> bit v 26" "v AND 0x3000000 \<noteq> 0 \<longleftrightarrow> bit v 24 \<or> bit v 25"
proof -
  have one: "v AND 2 ^ k \<noteq> 0 \<longleftrightarrow> bit v k" for k
    by (simp add: bit_iff_and_push_bit_not_eq_0 push_bit_eq_mult)
  show "v AND 0x40 \<noteq> 0 \<longleftrightarrow> bit v 6" using one [of 6] by simp
  show "v AND 0x4000000 \<noteq> 0 \<longleftrightarrow> bit v 26" using one [of 26] by simp
  have "v AND 0x3000000 = (v AND 0x1000000) OR (v AND 0x2000000)" by (simp add: bit.conj_disj_distrib [symmetric])
  then show "v AND 0x3000000 \<noteq> 0 \<longleftrightarrow> bit v 24 \<or> bit v 25" using one [of 24] one [of 25] by (simp add: or_eq_0_iff)
qed

lemma init_clocking_log:
  assumes osc: "settles D (reg LPC_SC ''SCS'') (\<lambda>v. v AND 0x40 \<noteq> 0)"
    and lock: "settles D (reg LPC_SC ''PLL0STAT'') (\<lambda>v. v AND 0x4000000 \<noteq> 0)"
    and on: "settles D (reg LPC_SC ''PLL0STAT'') (\<lambda>v. v AND 0x3000000 \<noteq> 0)"
  shows "\<exists>a. init_clocking D s = Some (logged s a) \<and> clocking_log a"
proof -
  let ?SCS = "reg LPC_SC ''SCS''" and ?STAT = "reg LPC_SC ''PLL0STAT''"
  let ?w1 = "[(reg LPC_SC ''CLKSRCSEL'', 0x1), (reg LPC_SC ''CCLKCFG'', 0x2), (reg LPC_SC ''PLL0CFG'', 24 OR 0x10000)]
    @ pll0_feed @ [(reg LPC_SC ''PLL0CON'', 0x01)] @ pll0_feed"
  let ?w2 = "[(reg LPC_SC ''PLL0CON'', 0x3)] @ pll0_feed"
  define s1 where "s1 = logged s [Wr ?SCS 0x20]"
  obtain a1 where a1: "wait_reg D ?SCS (\<lambda>v. v AND 0x40 \<noteq> 0) s1 = Some (logged s1 a1)" "polls ?SCS (\<lambda>v. v AND 0x40 \<noteq> 0) a1"
    by (rule wait_reg_settles [OF osc])
  define s2 where "s2 = logged (logged s1 a1) (map (\<lambda>(r, v). Wr r v) ?w1)"
  obtain a2 where a2: "wait_reg D ?STAT (\<lambda>v. v AND 0x4000000 \<noteq> 0) s2 = Some (logged s2 a2)" "polls ?STAT (\<lambda>v. v AND 0x4000000 \<noteq> 0) a2"
    by (rule wait_reg_settles [OF lock])
  define s3 where "s3 = logged (logged s2 a2) (map (\<lambda>(r, v). Wr r v) ?w2)"
  obtain a3 where a3: "wait_reg D ?STAT (\<lambda>v. v AND 0x3000000 \<noteq> 0) s3 = Some (logged s3 a3)" "polls ?STAT (\<lambda>v. v AND 0x3000000 \<noteq> 0) a3"
    by (rule wait_reg_settles [OF on])
  have w: "list_all (\<lambda>w. plain (fst w)) ?w1" "list_all (\<lambda>w. plain (fst w)) ?w2" "plain ?SCS"
    using plain_feed by (simp_all add: plain_def)
  have m: "0x2000000 OR 0x1000000 = (0x3000000 :: u32)" by simp
  have run: "init_clocking D s = Some (logged s3 a3)"
    unfolding init_clocking_def m reg_writes_logged [OF w(1)] reg_writes_logged [OF w(2)] reg_write_logged [OF w(3)] s1_def [symmetric]
    by (simp only: Let_def a1(1) bind.bind_lunit s2_def [symmetric] a2(1) s3_def [symmetric] a3(1))
  have "clocking_log ([Wr ?SCS 0x20] @ a1 @ map (\<lambda>(r, v). Wr r v) ?w1 @ a2 @ map (\<lambda>(r, v). Wr r v) ?w2 @ a3)"
    unfolding clocking_log_def
    by (rule exI [of _ a1], rule exI [of _ a2], rule exI [of _ a3])
      (use a1(2) a2(2) a3(2) in \<open>simp add: pll0_feed_eq status_bits\<close>)
  then show ?thesis using run by (auto simp: s1_def s2_def s3_def)
qed

subsection \<open>The MAC\<close>

lemma net_ok_logged [simp]: "net_ok (logged s a) L n = net_ok s L n"
  by (rule iffI; rule net_ok_same, assumption) (simp_all add: logged_def all_waits_def)

text \<open>The receive buffers: allocations of their own, each large enough for a fragment.\<close>

definition buffers :: "u32 list \<Rightarrow> nat list \<Rightarrow> ledger" where
  "buffers ps ls = set (zip (map unat ps) ls)"

definition rx_control :: u32 where
  "rx_control = (RX_FRAG_BUF_SZ - 1) OR 0x80000000"

lemma alloc_rx_bufs_ok:
  assumes ok: "net_ok s L (n + length is * block_size_of 127)" and n: "n = 0 \<or> 16 \<le> n"
    and "distinct is" "\<forall>i \<in> set is. i < length (rx_desc s)"
  shows "\<exists>m ps ls. alloc_rx_bufs is s = Some (s\<lparr>ram := m, rx_desc := fold (\<lambda>(i, p) d. d[i := (p, rx_control)]) (zip is ps) (rx_desc s)\<rparr>)
    \<and> length ps = length is \<and> length ls = length is \<and> distinct ps \<and> (\<forall>l \<in> set ls. 127 \<le> l)
    \<and> (\<forall>p \<in> set ps. \<forall>k. (unat p, k) \<notin> L)
    \<and> net_ok (s\<lparr>ram := m\<rparr>) (buffers ps ls \<union> L) n \<and> keeps s (s\<lparr>ram := m\<rparr>) L"
  using ok assms(3-)
proof (induction "is" arbitrary: s L)
  case Nil
  have "s = s\<lparr>ram := ram s, rx_desc := rx_desc s\<rparr>" by simp
  then show ?case using Nil by (intro exI [of _ "ram s"] exI [of _ "[]"]) (simp add: buffers_def)
next
  case (Cons i "is")
  have r: "request_ok RX_FRAG_BUF_SZ" by (simp add: request_ok_def RX_FRAG_BUF_SZ_def)
  have bs: "unat RX_FRAG_BUF_SZ = 127" by (simp add: RX_FRAG_BUF_SZ_def)
  have ge: "16 \<le> block_size_of 127" by (simp add: block_size_of_def)
  have ok: "net_ok s L ((n + length is * block_size_of 127) + block_size_of (unat RX_FRAG_BUF_SZ))"
    using Cons.prems(1) by (simp add: bs ac_simps)
  have n': "n + length is * block_size_of 127 = 0 \<or> 16 \<le> n + length is * block_size_of 127"
    using n ge by (cases "is") auto
  obtain p m l where g: "get_mem RX_FRAG_BUF_SZ s = Some (p, s\<lparr>ram := m\<rparr>)" "127 \<le> l"
    "net_ok (s\<lparr>ram := m\<rparr>) (insert (unat p, l) L) (n + length is * block_size_of 127)" "\<And>k. (unat p, k) \<notin> L" "keeps s (s\<lparr>ram := m\<rparr>) L"
    by (rule get_mem_net [OF ok r n']) (simp add: bs)
  let ?s = "s\<lparr>ram := m\<rparr>\<lparr>rx_desc := (rx_desc s)[i := (p, rx_control)]\<rparr>"
  have ok1: "net_ok ?s (insert (unat p, l) L) (n + length is * block_size_of 127)" using g(3) by simp
  have pr: "distinct is" "\<forall>i \<in> set is. i < length (rx_desc ?s)" using Cons.prems(2,3) by simp_all
  obtain m' ps ls where ih: "alloc_rx_bufs is ?s = Some (?s\<lparr>ram := m', rx_desc := fold (\<lambda>(i, p) d. d[i := (p, rx_control)]) (zip is ps) (rx_desc ?s)\<rparr>)"
    "length ps = length is" "length ls = length is" "distinct ps" "\<forall>l \<in> set ls. 127 \<le> l" "\<forall>q \<in> set ps. \<forall>k. (unat q, k) \<notin> insert (unat p, l) L"
    "net_ok (?s\<lparr>ram := m'\<rparr>) (buffers ps ls \<union> insert (unat p, l) L) n" "keeps ?s (?s\<lparr>ram := m'\<rparr>) (insert (unat p, l) L)"
    using Cons.IH [OF ok1 pr] by (elim exE conjE) (rule that)
  show ?case
  proof (rule exI [of _ m'], rule exI [of _ "p # ps"], rule exI [of _ "l # ls"], intro conjI)
    show "alloc_rx_bufs (i # is) s = Some (s\<lparr>ram := m', rx_desc := fold (\<lambda>(i, p) d. d[i := (p, rx_control)]) (zip (i # is) (p # ps)) (rx_desc s)\<rparr>)"
      using g(1) ih(1) by (simp add: rx_control_def)
    have "net_ok (s\<lparr>ram := m'\<rparr>) (buffers ps ls \<union> insert (unat p, l) L) n"
      by (rule net_ok_same [OF ih(7)]) (simp_all add: all_waits_def)
    then show "net_ok (s\<lparr>ram := m'\<rparr>) (buffers (p # ps) (l # ls) \<union> L) n" by (simp add: buffers_def)
    show "keeps s (s\<lparr>ram := m'\<rparr>) L" using g(5) ih(8) by (auto simp: keeps_def)
  qed (use g(2,4) ih(2-6) in auto)
qed

lemma fill_desc:
  "length ps \<le> length d \<Longrightarrow> fold (\<lambda>(i, p) d. d[i := (p, c)]) (zip [0..<length ps] ps) d = map (\<lambda>p. (p, c)) ps @ drop (length ps) d"
proof (induction ps rule: rev_induct)
  case (snoc p ps)
  then show ?case by (simp add: list_update_append Cons_nth_drop_Suc [symmetric])
qed simp

text \<open>The hardware that \<open>emac_init\<close> needs: transactions with the PHY end, the PHY comes out of reset, and
  the link comes up or auto-negotiation completes.\<close>

definition phy_ready :: "device \<Rightarrow> 'a board_scheme \<Rightarrow> bool" where
  "phy_ready D s \<longleftrightarrow> mii_settles D \<and> phy_settles D 0 (\<lambda>v. v AND 0x8000 = 0) s \<and> phy_settles D 0x10 (\<lambda>v. v AND 0x11 \<noteq> 0) s"

text \<open>The writes from the link parameters on.\<close>

definition mac_writes :: "linker \<Rightarrow> u16 \<Rightarrow> u32 \<Rightarrow> u32 \<Rightarrow> u32 \<Rightarrow> u32 \<Rightarrow> (u32 \<times> u32) list" where
  "mac_writes lk lp c m i c' =
    [(0x50000018, if lp AND 0x2 = 0 then 0x100 else 0), (0x50000100, if lp AND 0x4 \<noteq> 0 then c OR 0x400 else c AND NOT 0x400),
     (0x50000040, 0x0001), (0x50000044, 0x0203), (0x50000048, 0x0405),
     (0x50000108, lk_rx_desc lk), (0x5000011C, lk_tx_desc lk), (0x50000120, lk_tx_status lk), (0x5000010C, lk_rx_status lk),
     (0x50000110, 11), (0x50000124, 11), (0x50000118, 0), (0x50000128, 0),
     (0x50000000, m OR 1), (0x50000FE4, i OR 0x8), (0x50000100, c' OR 0x283), (0xE000E100, 0x10000000)]"

lemma emac_set_link_ok:
  "\<exists>a c. emac_set_link D lp s = logged s a
    \<and> writes a = [(0x50000018, if lp AND 0x2 = 0 then 0x100 else 0), (0x50000100, if lp AND 0x4 \<noteq> 0 then c OR 0x400 else c AND NOT 0x400)]"
proof -
  let ?S = "reg LPC_EMAC ''SUPP''" and ?C = "reg LPC_EMAC ''Command''"
  let ?x = "if lp AND 0x2 = 0 then 0x100 else (0 :: u32)"
  let ?c = "D (accesses s @ [Wr ?S ?x]) ?C"
  have "emac_set_link D lp s = logged s [Wr ?S ?x, Rd ?C ?c, Wr ?C (if lp AND 0x4 \<noteq> 0 then ?c OR 0x400 else ?c AND NOT 0x400)]"
    by (simp add: emac_set_link_def Let_def reg_write_logged reg_update_logged plain_regs del: reg_EMAC)
  then show ?thesis by (intro exI conjI) (assumption, simp)
qed

lemma reg_update_ok:
  assumes "plain r"
  obtains a v where "reg_update D r f s = logged s a" "writes a = [(r, f v)]"
  using that [of "[Rd r (D (accesses s) r), Wr r (f (D (accesses s) r))]" "D (accesses s) r"] reg_update_logged [OF assms, of D f s]
  by simp

lemma emac_enable_ok:
  "\<exists>a m i c. emac_enable lk D s = (logged s a)\<lparr>rx_consume_index := 0, tx_produce_index := 0\<rparr>
    \<and> writes a = drop 5 (mac_writes lk 0 0 m i c)"
proof -
  let ?w = "[(reg LPC_EMAC ''RxDescriptor'', lk_rx_desc lk), (reg LPC_EMAC ''TxDescriptor'', lk_tx_desc lk),
    (reg LPC_EMAC ''TxStatus'', lk_tx_status lk), (reg LPC_EMAC ''RxStatus'', lk_rx_status lk),
    (reg LPC_EMAC ''RxDescriptorNumber'', of_nat DESC_LEN - 1), (reg LPC_EMAC ''TxDescriptorNumber'', of_nat DESC_LEN - 1),
    (reg LPC_EMAC ''RxConsumeIndex'', 0), (reg LPC_EMAC ''TxProduceIndex'', 0)]"
  let ?s1 = "(logged s (map (\<lambda>(r, v). Wr r v) ?w))\<lparr>rx_consume_index := 0, tx_produce_index := 0\<rparr>"
  have w: "reg_writes ?w s = ?s1"
    by (simp add: reg_writes_def reg_write_def logged_def Let_def)
  obtain a1 m where u1: "reg_update D (reg LPC_EMAC ''MAC1'') (\<lambda>v. v OR 1) ?s1 = logged ?s1 a1" "writes a1 = [(reg LPC_EMAC ''MAC1'', m OR 1)]"
    by (rule reg_update_ok [OF plain_regs(4)])
  let ?s2 = "logged ?s1 a1"
  obtain a2 i where u2: "reg_update D (reg LPC_EMAC ''IntEnable'') (\<lambda>v. v OR 0x8) ?s2 = logged ?s2 a2" "writes a2 = [(reg LPC_EMAC ''IntEnable'', i OR 0x8)]"
    by (rule reg_update_ok [OF plain_regs(8)])
  let ?s3 = "logged ?s2 a2"
  obtain a3 c where u3: "reg_update D (reg LPC_EMAC ''Command'') (\<lambda>v. v OR (3 OR 0x200 OR 0x80)) ?s3 = logged ?s3 a3"
      "writes a3 = [(reg LPC_EMAC ''Command'', c OR (3 OR 0x200 OR 0x80))]"
    by (rule reg_update_ok [OF plain_regs(6)])
  let ?a = "map (\<lambda>(r, v). Wr r v) ?w @ a1 @ a2 @ a3 @ [Wr (reg LPC_NVIC ''ISER0'') 0x10000000]"
  have "emac_enable lk D s = logged (logged ?s3 a3) [Wr (reg LPC_NVIC ''ISER0'') 0x10000000]"
    unfolding emac_enable_def w by (simp only: Let_def u1(1) u2(1) u3(1) reg_write_logged plain_regs)
  also have "\<dots> = (logged s ?a)\<lparr>rx_consume_index := 0, tx_produce_index := 0\<rparr>" by (simp add: logged_def)
  finally show ?thesis
    by (intro exI conjI) (assumption, simp add: u1(2) u2(2) u3(2) mac_writes_def DESC_LEN_def)
qed

lemma update_log: "plain r \<Longrightarrow> \<exists>b. reg_update D r f (logged s a) = logged s b"
  by (simp add: reg_update_logged) blast

lemma emac_probe_ok:
  assumes "phy_ready D s"
  shows "\<exists>lp a. emac_probe D s = Some (lp, logged s a)"
proof -
  have mii: "mii_settles D" and reset: "phy_settles D 0 (\<lambda>v. v AND 0x8000 = 0) s"
    and link: "phy_settles D 0x10 (\<lambda>v. v AND 0x11 \<noteq> 0) s"
    using assms by (simp_all add: phy_ready_def)
  let ?pins = "[(reg LPC_PINCON ''PINSEL2'', 0x50150105 :: u32), (reg LPC_PINCON ''PINSEL3'', 0x5), (reg LPC_EMAC ''MAC1'', 0)]"
  let ?gap = "[(reg LPC_EMAC ''IPGT'', 0x15 :: u32), (reg LPC_EMAC ''IPGR'', 0x12 OR push_bit 8 0xC)]"
  have pins: "list_all (\<lambda>w. plain (fst w)) ?pins" and gap: "list_all (\<lambda>w. plain (fst w)) ?gap"
    by (simp_all add: plain_def)
  obtain b1 where b1: "reg_update D (reg LPC_SC ''PCONP'') (\<lambda>v. v OR 0x40000000) s = logged s b1"
    using update_log [OF plain_regs(9), of D "\<lambda>v. v OR 0x40000000" s "[]"] by auto
  let ?b2 = "b1 @ map (\<lambda>(r, v). Wr r v) ?pins"
  obtain b3 where b3: "reg_update D (reg LPC_EMAC ''MAC2'') (\<lambda>v. v OR (1 OR 0x10 OR 0x20)) (logged s ?b2) = logged s b3"
    using update_log [OF plain_regs(5)] by blast
  let ?b4 = "b3 @ map (\<lambda>(r, v). Wr r v) ?gap"
  obtain b5 where b5: "reg_update D (reg LPC_EMAC ''Command'') (\<lambda>v. v OR 0x200) (logged s ?b4) = logged s b5"
    using update_log [OF plain_regs(6)] by blast
  obtain a1 where a1: "phy_write D 0 0x8000 (logged s b5) = Some (logged (logged s b5) a1)" by (rule phy_write_ok [OF mii])
  obtain a2 where a2: "wait_until (phy_read D 0) (\<lambda>v. v AND 0x8000 = 0) (logged s (b5 @ a1)) = Some (logged s a2)"
    by (rule phy_wait_ok [OF mii reset])
  obtain a3 where a3: "phy_write D 0 0x1000 (logged s a2) = Some (logged (logged s a2) a3)" by (rule phy_write_ok [OF mii])
  obtain a4 where a4: "wait_until (phy_read D 0x10) (\<lambda>v. v AND 0x11 \<noteq> 0) (logged s (a2 @ a3)) = Some (logged s a4)"
    by (rule phy_wait_ok [OF mii link])
  obtain lp a5 where a5: "phy_read D 0x10 (logged s a4) = Some (lp, logged (logged s a4) a5)"
    using phy_read_ok [OF mii] by blast
  have "emac_probe D s = Some (lp, logged s (a4 @ a5))"
    unfolding emac_probe_def
    by (simp only: Let_def b1 b3 b5 reg_writes_logged [OF pins] reg_writes_logged [OF gap] logged_logged
        a1 a2 a3 a4 a5 bind.bind_lunit)
  then show ?thesis by blast
qed

text \<open>On hardware that answers, \<open>emac_init\<close> returns. It has allocated twelve distinct receive buffers of
  at least 127 bytes and put them into the descriptors, set the station address and the indices, and its
  last writes set speed and duplex mode after the link parameters it read from the PHY, hand over the
  descriptor arrays with their lengths, and only then enable reception, the receive interrupt and the MAC.
  No other memory in use is touched. (The PHY counts as ready as soon as the link is up \<^emph>\<open>or\<close>
  auto-negotiation is complete; the parameters may be read before they are final.)\<close>

lemma emac_init_ok:
  assumes ok: "net_ok s L (n + 12 * block_size_of 127)" and n: "n = 0 \<or> 16 \<le> n"
    and phy: "phy_ready D s" and d: "length (rx_desc s) = 12"
  shows "\<exists>a w lp c m i c' mem ps ls.
    emac_init lk D s = Some ((logged s a)\<lparr>ram := mem, rx_desc := map (\<lambda>p. (p, 0x8000007E)) ps,
      ether_addr := [0, 1, 2, 3, 4, 5], rx_consume_index := 0, tx_produce_index := 0\<rparr>)
    \<and> writes a = w @ mac_writes lk lp c m i c'
    \<and> length ps = 12 \<and> length ls = 12 \<and> distinct ps \<and> (\<forall>l \<in> set ls. 127 \<le> l) \<and> (\<forall>p \<in> set ps. \<forall>k. (unat p, k) \<notin> L)
    \<and> net_ok (s\<lparr>ram := mem\<rparr>) (buffers ps ls \<union> L) n \<and> keeps s (s\<lparr>ram := mem\<rparr>) L"
proof -
  obtain lp a1 where a1: "emac_probe D s = Some (lp, logged s a1)" using emac_probe_ok [OF phy] by blast
  obtain b c where b: "emac_set_link D lp (logged s a1) = logged (logged s a1) b"
    "writes b = [(0x50000018, if lp AND 0x2 = 0 then 0x100 else 0), (0x50000100, if lp AND 0x4 \<noteq> 0 then c OR 0x400 else c AND NOT 0x400)]"
    using emac_set_link_ok by blast
  let ?sa = "[(reg LPC_EMAC ''SA0'', mac_half 0), (reg LPC_EMAC ''SA1'', mac_half 2), (reg LPC_EMAC ''SA2'', mac_half 4)]"
  have sa: "list_all (\<lambda>w. plain (fst w)) ?sa" by (simp add: plain_def)
  have half: "mac_half 0 = 0x0001" "mac_half 2 = 0x0203" "mac_half 4 = 0x0405"
    by (simp_all add: mac_half_def mac_address_def)
  define s1 where "s1 = logged s (a1 @ b @ map (\<lambda>(r, v). Wr r v) ?sa)"
  have ok': "net_ok s1 L (n + length [0..<DESC_LEN] * block_size_of 127)" using ok by (simp add: DESC_LEN_def s1_def)
  have d': "length (rx_desc s1) = 12" using d by (simp add: logged_def s1_def)
  then have "\<forall>i \<in> set [0..<DESC_LEN]. i < length (rx_desc s1)" by (simp add: DESC_LEN_def)
  with alloc_rx_bufs_ok [OF ok' n] obtain mem ps ls where al:
    "alloc_rx_bufs [0..<DESC_LEN] s1 = Some (s1\<lparr>ram := mem,
       rx_desc := fold (\<lambda>(i, p) d. d[i := (p, rx_control)]) (zip [0..<DESC_LEN] ps) (rx_desc s1)\<rparr>)"
    "length ps = length [0..<DESC_LEN]" "length ls = length [0..<DESC_LEN]" "distinct ps" "\<forall>l \<in> set ls. 127 \<le> l"
    "\<forall>p \<in> set ps. \<forall>k. (unat p, k) \<notin> L" "net_ok (s1\<lparr>ram := mem\<rparr>) (buffers ps ls \<union> L) n"
    "keeps s1 (s1\<lparr>ram := mem\<rparr>) L"
    using distinct_upt by blast
  have desc: "fold (\<lambda>(i, p) d. d[i := (p, rx_control)]) (zip [0..<DESC_LEN] ps) (rx_desc s1) = map (\<lambda>p. (p, 0x8000007E)) ps"
    using fill_desc [of ps "rx_desc s1" rx_control] al(2) d' by (simp add: DESC_LEN_def rx_control_def RX_FRAG_BUF_SZ_def)
  have addr: "map (\<lambda>i. mac_address ! i) [0..<ETHER_ADDR_LEN] = [0, 1, 2, 3, 4, 5]"
    by (simp add: mac_address_def ETHER_ADDR_LEN_def upt_rec)
  let ?s2 = "s1\<lparr>ram := mem, rx_desc := map (\<lambda>p. (p, 0x8000007E)) ps, ether_addr := [0, 1, 2, 3, 4, 5]\<rparr>"
  obtain e m i c' where e: "emac_enable lk D ?s2 = (logged ?s2 e)\<lparr>rx_consume_index := 0, tx_produce_index := 0\<rparr>"
    "writes e = drop 5 (mac_writes lk 0 0 m i c')"
    using emac_enable_ok by blast
  let ?a = "a1 @ b @ map (\<lambda>(r, v). Wr r v) ?sa @ e"
  have run: "emac_init lk D s = Some ((logged s ?a)\<lparr>ram := mem, rx_desc := map (\<lambda>p. (p, 0x8000007E)) ps,
      ether_addr := [0, 1, 2, 3, 4, 5], rx_consume_index := 0, tx_produce_index := 0\<rparr>)"
  proof -
    have c1: "logged (logged (logged s a1) b) (map (\<lambda>(r, v). Wr r v) ?sa) = s1" by (simp add: s1_def)
    have "emac_init lk D s = Some (emac_enable lk D ?s2)"
      unfolding emac_init_def a1 bind.bind_lunit prod.case Let_def b(1) reg_writes_logged [OF sa] c1 al(1) desc addr ..
    then show ?thesis using e(1) by (simp add: s1_def logged_def)
  qed
  have w: "writes ?a = writes a1 @ mac_writes lk lp c m i c'"
    by (simp add: b(2) half e(2) mac_writes_def)
  have mem: "net_ok (s\<lparr>ram := mem\<rparr>) (buffers ps ls \<union> L) n"
    by (rule net_ok_same [OF al(7)]) (simp_all add: s1_def logged_def all_waits_def)
  have kept: "keeps s (s\<lparr>ram := mem\<rparr>) L" using al(8) by (simp add: keeps_def s1_def logged_def)
  have len: "length ps = 12" "length ls = 12" using al(2,3) by (simp_all add: DESC_LEN_def)
  show ?thesis
    by (rule exI [of _ ?a], rule exI [of _ "writes a1"], rule exI [of _ lp], rule exI [of _ c], rule exI [of _ m],
        rule exI [of _ i], rule exI [of _ c'], rule exI [of _ mem], rule exI [of _ ps], rule exI [of _ ls])
      (intro conjI run w len al(4-6) mem kept)
qed

subsection \<open>Processes\<close>

text \<open>Memory for one process.\<close>

definition process_demand :: nat where
  "process_demand = block_size_of 20 + block_size_of 1024"

lemma create_process_net:
  assumes ok: "net_ok s L (n + process_demand)" and n: "n = 0 \<or> 16 \<le> n"
  obtains p st lp ls m where
    "create_process pc r0 s = Some (p, s\<lparr>ram := m, procs := (procs s)(p := (procs s p)\<lparr>stack_alloc := st, cur_stack := st + 0x3C0\<rparr>)\<rparr>)"
    "net_ok (s\<lparr>ram := m\<rparr>) (insert (unat st, ls) (insert (unat p, lp) L)) n" "keeps s (s\<lparr>ram := m\<rparr>) L"
    "0x400 \<le> ls" "\<And>k. (unat p, k) \<notin> L" "load32 m (st + 0x3F8) = pc" "load32 m (st + 0x3F4) = addr_process_finish s"
proof -
  have r: "request_ok sizeof_process_t" "request_ok STACK_SZ" "unat sizeof_process_t = 20" "unat STACK_SZ = 1024"
    by (simp_all add: request_ok_def sizeof_process_t_def STACK_SZ_def)
  have ok1: "net_ok s L ((n + block_size_of 1024) + block_size_of (unat sizeof_process_t))"
    using ok by (simp add: r process_demand_def ac_simps)
  have n1: "n + block_size_of 1024 = 0 \<or> 16 \<le> n + block_size_of 1024" by (simp add: block_size_of_def)
  obtain p m1 lp where g1: "get_mem sizeof_process_t s = Some (p, s\<lparr>ram := m1\<rparr>)"
    "unat sizeof_process_t \<le> lp" "net_ok (s\<lparr>ram := m1\<rparr>) (insert (unat p, lp) L) (n + block_size_of 1024)" "\<And>k. (unat p, k) \<notin> L" "keeps s (s\<lparr>ram := m1\<rparr>) L"
    by (rule get_mem_net [OF ok1 r(1) n1]) (rule that)
  have ok2: "net_ok (s\<lparr>ram := m1\<rparr>) (insert (unat p, lp) L) (n + block_size_of (unat STACK_SZ))" using g1(3) by (simp add: r)
  obtain st m2 ls where g2: "get_mem STACK_SZ (s\<lparr>ram := m1\<rparr>) = Some (st, s\<lparr>ram := m1\<rparr>\<lparr>ram := m2\<rparr>)" "unat STACK_SZ \<le> ls"
    "net_ok (s\<lparr>ram := m1\<rparr>\<lparr>ram := m2\<rparr>) (insert (unat st, ls) (insert (unat p, lp) L)) n"
    "\<And>k. (unat st, k) \<notin> insert (unat p, lp) L" "keeps (s\<lparr>ram := m1\<rparr>) (s\<lparr>ram := m1\<rparr>\<lparr>ram := m2\<rparr>) (insert (unat p, lp) L)"
    by (rule get_mem_net [OF ok2 r(2) n]) (rule that)
  let ?K = "insert (unat st, ls) (insert (unat p, lp) L)"
  define m where "m = init_stack (st + 0x3C0 + 32) (addr_process_finish s) pc r0 m2"
  have ok3: "net_ok (s\<lparr>ram := m2\<rparr>) ?K n" using g2(3) by simp
  have rep: "heap_rep (s\<lparr>ram := m2\<rparr>) ?K" using net_okD(4) [OF ok3] .
  have ch: "in_buf (unat st, ls) x" if "m x \<noteq> m2 x" for x
  proof -
    have "in_range (st + of_nat 0x3C0) 64 x" using init_stack_frame [of "st + 0x3C0" x] that by (auto simp: m_def)
    then show ?thesis by (intro in_buf_range [OF rep, where k = 960 and n = 64]) (use g2(2) r in simp_all)
  qed
  have "heap_room ((s\<lparr>ram := m2\<rparr>)\<lparr>ram := m\<rparr>) ?K n"
    by (rule heap_room_change [OF net_okD(2) [OF ok3]]) (use ch in auto)
  then have ok4: "net_ok (s\<lparr>ram := m\<rparr>) ?K n" using net_okD [OF ok3] by (simp add: net_ok_def)
  have "aligned4 st" using heap_rep_bounds [OF rep, of "unat st" ls] unfolding aligned4_iff_dvd by simp
  then have al: "aligned4 (st + 0x3C0)" by (rule aligned_offset) simp
  have l: "load32 m (st + 0x3F8) = pc" "load32 m (st + 0x3F4) = addr_process_finish s"
    using init_stack_loads(2,3) [OF al m_def] by (simp_all add: add.assoc)
  have kp: "keeps s (s\<lparr>ram := m\<rparr>) L"
  proof (unfold keeps_def, intro ballI allI impI)
    fix b x assume b: "b \<in> L" "in_buf b x"
    have "b \<noteq> (unat st, ls)" using g2(4) b(1) by auto
    then have "apart b (unat st, ls)" using heap_rep_apart [OF rep] b(1) by blast
    then have "\<not> in_buf (unat st, ls) x" using b(2) by (cases b) (auto simp: apart_def in_buf_def)
    then have "m x = m2 x" using ch by blast
    then show "ram (s\<lparr>ram := m\<rparr>) x = ram s x" using keepsD [OF g1(5) b] keepsD [OF g2(5) _ b(2)] b(1) by simp
  qed
  have run: "create_process pc r0 s = Some (p, s\<lparr>ram := m, procs := (procs s)(p := (procs s p)\<lparr>stack_alloc := st, cur_stack := st + 0x3C0\<rparr>)\<rparr>)"
    using g1(1) g2(1) by (simp add: create_process_def Let_def set_cur_stack_def set_stack_alloc_def STACK_SZ_def
        sizeof_hw_stack_ctx_def sizeof_sw_stack_ctx_def m_def) (simp add: add.commute)
  show thesis by (rule that [OF run ok4 kp _ g1(4) l]) (use g2(2) r in simp)
qed

text \<open>The process at \<open>p\<close> has a stack from which the first switch to it enters \<open>t\<close>, and returns from it to
  \<open>process_finish\<close>.\<close>

definition thread_ready :: "'a sched_scheme \<Rightarrow> ledger \<Rightarrow> u32 \<Rightarrow> u32 \<Rightarrow> bool" where
  "thread_ready s L p t \<longleftrightarrow> (\<exists>st l ls. (unat p, l) \<in> L \<and> (unat st, ls) \<in> L \<and> 0x400 \<le> ls
     \<and> stack_alloc (procs s p) = st \<and> cur_stack (procs s p) = st + 0x3C0
     \<and> load32 (ram s) (st + 0x3F8) = t \<and> load32 (ram s) (st + 0x3F4) = addr_process_finish s)"

lemma load32_keeps:
  assumes rep: "heap_rep s L" and b: "(unat st, ls) \<in> L" "k + 4 \<le> ls" and kp: "keeps s s' L"
  shows "load32 (ram s') (st + of_nat k) = load32 (ram s) (st + of_nat k)"
proof (rule load32_cong)
  fix x assume "in_range (st + of_nat k) 4 x"
  then have "in_buf (unat st, ls) x" by (rule in_buf_range [OF rep b])
  then show "ram s' x = ram s x" by (rule keepsD [OF kp b(1)])
qed

lemma thread_ready_keeps:
  assumes t: "thread_ready s L p t" and rep: "heap_rep s L" and kp: "keeps s s' L" and LL: "L \<subseteq> L'"
    and pr: "procs s' p = procs s p" and pf: "addr_process_finish s' = addr_process_finish s"
  shows "thread_ready s' L' p t"
proof -
  obtain st l ls where st: "(unat p, l) \<in> L" "(unat st, ls) \<in> L" "0x400 \<le> ls" "stack_alloc (procs s p) = st"
    "cur_stack (procs s p) = st + 0x3C0" "load32 (ram s) (st + 0x3F8) = t" "load32 (ram s) (st + 0x3F4) = addr_process_finish s"
    using t by (auto simp: thread_ready_def)
  have "load32 (ram s') (st + 0x3F8) = t" "load32 (ram s') (st + 0x3F4) = addr_process_finish s"
    using load32_keeps [OF rep st(2) _ kp, where k = "0x3F8"] load32_keeps [OF rep st(2) _ kp, where k = "0x3F4"] st(3,6,7) by simp_all
  then show ?thesis
    using st(1-5) LL pr pf unfolding thread_ready_def by (intro exI [of _ st] exI [of _ l] exI [of _ ls]) auto
qed

lemma process_spawn_net:
  assumes ok: "net_ok s L (n + process_demand)" and n: "n = 0 \<or> 16 \<le> n"
    and q: "\<forall>p \<in> set (queued s). \<exists>l. (unat p, l) \<in> L" and cur: "current_tsk s = 0"
  obtains p m pr K where "process_spawn pc 0 s = Some (s\<lparr>ram := m, procs := pr, runqueue := p # runqueue s\<rparr>)"
    "net_ok (s\<lparr>ram := m, procs := pr, runqueue := p # runqueue s\<rparr>) K n" "L \<subseteq> K" "keeps s (s\<lparr>ram := m\<rparr>) L"
    "\<And>k. (unat p, k) \<notin> L" "\<And>r. r \<noteq> p \<Longrightarrow> pr r = procs s r"
    "thread_ready (s\<lparr>ram := m, procs := pr, runqueue := p # runqueue s\<rparr>) K p pc"
proof (rule create_process_net [OF ok n, where pc = pc and ?r0.0 = 0])
  fix p st :: u32 and lp ls m
  let ?pr = "(procs s)(p := (procs s p)\<lparr>stack_alloc := st, cur_stack := st + 0x3C0\<rparr>)"
  let ?prr = "(procs s)(p := (procs s p)\<lparr>stack_alloc := st, cur_stack := st + 0x3C0, state := RUNNING\<rparr>)"
  let ?K = "insert (unat st, ls) (insert (unat p, lp) L)"
  let ?s = "s\<lparr>ram := m, procs := ?prr, runqueue := p # runqueue s\<rparr>"
  assume c: "create_process pc 0 s = Some (p, s\<lparr>ram := m, procs := ?pr\<rparr>)" "net_ok (s\<lparr>ram := m\<rparr>) ?K n" "keeps s (s\<lparr>ram := m\<rparr>) L"
    "0x400 \<le> ls" "\<And>k. (unat p, k) \<notin> L" "load32 m (st + 0x3F8) = pc" "load32 m (st + 0x3F4) = addr_process_finish s"
  have new: "p \<notin> set (queued s)" using q c(5) by blast
  have "p \<noteq> 0" using heap_rep_bounds [OF net_okD(4) [OF c(2)], of "unat p" lp] by (auto simp: heap_base_def)
  then have run: "process_spawn pc 0 s = Some ?s"
    using new by (simp add: process_spawn_def c(1) sched_simps Let_def)
  have inv: "sched_inv ?s"
    using net_okD(1) [OF ok] new \<open>p \<noteq> 0\<close> cur by (auto simp: sched_inv_def queued_def)
  have "net_ok ?s ?K n"
    using inv net_okD(2,3) [OF c(2)] by (simp add: net_ok_def waits_ok_def all_waits_def)
  moreover have "thread_ready ?s ?K p pc"
    using c(4,6,7) unfolding thread_ready_def by (intro exI [of _ st] exI [of _ lp] exI [of _ ls]) simp
  ultimately show thesis by (intro that [OF run]) (use c(3,5) in auto)
qed

lemma spawn_threads_ok:
  assumes ok: "net_ok s L (n + length ts * process_demand)" and n: "n = 0 \<or> 16 \<le> n"
    and q: "runqueue s = rev ps" "waitqueue s = []" "deadqueue s = []" "current_tsk s = 0"
    and ready: "list_all2 (thread_ready s L) ps us"
  shows "\<exists>m pr qs K. spawn_threads ts s = Some (s\<lparr>ram := m, procs := pr, runqueue := rev (ps @ qs)\<rparr>)
    \<and> net_ok (s\<lparr>ram := m, procs := pr, runqueue := rev (ps @ qs)\<rparr>) K n \<and> L \<subseteq> K \<and> keeps s (s\<lparr>ram := m\<rparr>) L
    \<and> list_all2 (thread_ready (s\<lparr>ram := m, procs := pr, runqueue := rev (ps @ qs)\<rparr>) K) (ps @ qs) (us @ ts)"
  using assms
proof (induction ts arbitrary: s L ps us)
  case Nil
  have e: "s\<lparr>runqueue := rev ps\<rparr> = s" using Nil.prems(3) by simp
  show ?case using Nil
    by (intro exI [of _ "ram s"] exI [of _ "procs s"] exI [of _ "[]"] exI [of _ L]) (simp add: e)
next
  case (Cons t ts)
  let ?n = "n + length ts * process_demand"
  have ok: "net_ok s L (?n + process_demand)" using Cons.prems(1) by (simp add: ac_simps)
  have n': "?n = 0 \<or> 16 \<le> ?n"
    using n by (cases ts) (auto simp: process_demand_def block_size_of_def)
  have live: "\<forall>p \<in> set (queued s). \<exists>l. (unat p, l) \<in> L"
    using Cons.prems(3-5,7) by (auto simp: queued_def list_all2_conv_all_nth in_set_conv_nth thread_ready_def)
  obtain p m pr K where c: "process_spawn t 0 s = Some (s\<lparr>ram := m, procs := pr, runqueue := p # runqueue s\<rparr>)"
    "net_ok (s\<lparr>ram := m, procs := pr, runqueue := p # runqueue s\<rparr>) K ?n" "L \<subseteq> K" "keeps s (s\<lparr>ram := m\<rparr>) L"
    "\<And>k. (unat p, k) \<notin> L" "\<And>r. r \<noteq> p \<Longrightarrow> pr r = procs s r"
    "thread_ready (s\<lparr>ram := m, procs := pr, runqueue := p # runqueue s\<rparr>) K p t"
    by (rule process_spawn_net [OF ok n' live Cons.prems(6)]) (rule that)
  let ?s = "s\<lparr>ram := m, procs := pr, runqueue := p # runqueue s\<rparr>"
  have kp1: "keeps s ?s L" using c(4) by (simp add: keeps_def)
  have "thread_ready ?s K r u" if "thread_ready s L r u" for r u
  proof (rule thread_ready_keeps [OF that net_okD(4) [OF ok] kp1 c(3)])
    have "r \<noteq> p" using that c(5) by (auto simp: thread_ready_def)
    then show "procs ?s r = procs s r" using c(6) by simp
  qed simp
  then have "list_all2 (thread_ready ?s K) ps us" using Cons.prems(7) by (rule list_all2_mono [rotated])
  then have ready: "list_all2 (thread_ready ?s K) (ps @ [p]) (us @ [t])"
    using c(7) by (simp add: list_all2_appendI)
  have q: "runqueue ?s = rev (ps @ [p])" "waitqueue ?s = []" "deadqueue ?s = []" "current_tsk ?s = 0"
    using Cons.prems(3-6) by simp_all
  obtain m' pr' qs K' where ih: "spawn_threads ts ?s = Some (?s\<lparr>ram := m', procs := pr', runqueue := rev ((ps @ [p]) @ qs)\<rparr>)"
    "net_ok (?s\<lparr>ram := m', procs := pr', runqueue := rev ((ps @ [p]) @ qs)\<rparr>) K' n" "K \<subseteq> K'" "keeps ?s (?s\<lparr>ram := m'\<rparr>) K"
    "list_all2 (thread_ready (?s\<lparr>ram := m', procs := pr', runqueue := rev ((ps @ [p]) @ qs)\<rparr>) K') ((ps @ [p]) @ qs) ((us @ [t]) @ ts)"
    using Cons.IH [OF c(2) n q ready] by (elim exE conjE) (rule that)
  have eq: "?s\<lparr>ram := m', procs := pr', runqueue := rev ((ps @ [p]) @ qs)\<rparr> = s\<lparr>ram := m', procs := pr', runqueue := rev (ps @ (p # qs))\<rparr>"
    by simp
  have "keeps s (s\<lparr>ram := m'\<rparr>) L" using c(3,4) ih(4) by (auto simp: keeps_def)
  then show ?case
    using c(1,3) ih(1-3,5) unfolding eq
    by (intro exI [of _ m'] exI [of _ pr'] exI [of _ "p # qs"] exI [of _ K']) auto
qed

lemma process_init_ok:
  assumes ok: "net_ok s L (n + Suc (length ts) * process_demand)" and n: "n = 0 \<or> 16 \<le> n"
    and q: "runqueue s = []" "waitqueue s = []" "deadqueue s = []" "current_tsk s = 0"
  shows "\<exists>m pr qs idle K. process_init ts s = Some (s\<lparr>ram := m, procs := pr, runqueue := rev qs, idle_tsk := idle, psp := 0\<rparr>)
    \<and> net_ok (s\<lparr>ram := m, procs := pr, runqueue := rev qs, idle_tsk := idle, psp := 0\<rparr>) K n \<and> L \<subseteq> K
    \<and> keeps s (s\<lparr>ram := m\<rparr>) L \<and> idle \<notin> set qs
    \<and> list_all2 (thread_ready (s\<lparr>ram := m, procs := pr, runqueue := rev qs, idle_tsk := idle, psp := 0\<rparr>) K) (idle # qs) (addr_idle_task s # ts)"
proof -
  have ok1: "net_ok s L ((n + process_demand) + length ts * process_demand)" using ok by (simp add: ac_simps)
  have n1: "n + process_demand = 0 \<or> 16 \<le> n + process_demand" by (simp add: process_demand_def block_size_of_def)
  have q0: "runqueue s = rev []" using q(1) by simp
  obtain m pr qs K where sp: "spawn_threads ts s = Some (s\<lparr>ram := m, procs := pr, runqueue := rev ([] @ qs)\<rparr>)"
    "net_ok (s\<lparr>ram := m, procs := pr, runqueue := rev ([] @ qs)\<rparr>) K (n + process_demand)" "L \<subseteq> K" "keeps s (s\<lparr>ram := m\<rparr>) L"
    "list_all2 (thread_ready (s\<lparr>ram := m, procs := pr, runqueue := rev ([] @ qs)\<rparr>) K) ([] @ qs) ([] @ ts)"
    using spawn_threads_ok [OF ok1 n1 q0 q(2-4) list.rel_intros(1)] by (elim exE conjE) (rule that)
  let ?s = "s\<lparr>ram := m, procs := pr, runqueue := rev qs\<rparr>"
  have ok2: "net_ok ?s K (n + process_demand)" using sp(2) by simp
  obtain p st lp ls m' where c: "create_process (addr_idle_task s) 0 ?s = Some (p, ?s\<lparr>ram := m', procs := (procs ?s)(p := (procs ?s p)\<lparr>stack_alloc := st, cur_stack := st + 0x3C0\<rparr>)\<rparr>)"
    "net_ok (?s\<lparr>ram := m'\<rparr>) (insert (unat st, ls) (insert (unat p, lp) K)) n" "keeps ?s (?s\<lparr>ram := m'\<rparr>) K"
    "0x400 \<le> ls" "\<And>k. (unat p, k) \<notin> K" "load32 m' (st + 0x3F8) = addr_idle_task s" "load32 m' (st + 0x3F4) = addr_process_finish ?s"
    by (rule create_process_net [OF ok2 n, where pc = "addr_idle_task s" and ?r0.0 = 0]) (rule that)
  let ?pr = "pr(p := (pr p)\<lparr>stack_alloc := st, cur_stack := st + 0x3C0\<rparr>)"
  let ?K = "insert (unat st, ls) (insert (unat p, lp) K)"
  let ?t = "s\<lparr>ram := m', procs := ?pr, runqueue := rev qs, idle_tsk := p, psp := 0\<rparr>"
  have run: "process_init ts s = Some ?t" using sp(1) c(1) by (simp add: process_init_def)
  have live: "\<exists>l. (unat r, l) \<in> K" if "r \<in> set qs" for r
    using sp(5) that by (auto simp: list_all2_conv_all_nth in_set_conv_nth thread_ready_def)
  have pq: "p \<notin> set qs" using live c(5) by blast
  have inv: "sched_inv ?t" using net_okD(1) [OF ok2] q pq by (auto simp: sched_inv_def queued_def)
  then have okt: "net_ok ?t ?K n" using net_okD(2,3) [OF c(2)] by (simp add: net_ok_def waits_ok_def all_waits_def heap_room_def)
  have kpt: "keeps ?s ?t K" using c(3) by (simp add: keeps_def)
  have old: "thread_ready ?t ?K r u" if "thread_ready ?s K r u" for r u
  proof (rule thread_ready_keeps [OF that net_okD(4) [OF ok2] kpt])
    show "procs ?t r = procs ?s r" using that c(5) by (auto simp: thread_ready_def)
  qed auto
  have "list_all2 (thread_ready ?s K) qs ts" using sp(5) by simp
  then have "list_all2 (thread_ready ?t ?K) qs ts" using old by (rule list_all2_mono)
  moreover have "thread_ready ?t ?K p (addr_idle_task s)"
    using c(4,6,7) unfolding thread_ready_def by (intro exI [of _ st] exI [of _ lp] exI [of _ ls]) simp
  moreover have "keeps s (s\<lparr>ram := m'\<rparr>) L" using sp(3,4) c(3) by (auto simp: keeps_def)
  moreover have "L \<subseteq> ?K" using sp(3) by auto
  ultimately show ?thesis
    using run okt pq by (intro exI [of _ m'] exI [of _ ?pr] exI [of _ qs] exI [of _ p] exI [of _ ?K]) simp
qed

subsection \<open>The whole start-up\<close>

text \<open>The order in which the Makefile links the files that have an initcall.\<close>

definition link_order :: "initcall_t list" where
  "link_order = [ARP_INIT, ETHERNET_INIT, EMAC_INIT, TICK_INIT, IPV4_INIT, UDP_INIT, TCP_INIT]"

definition clock_ready :: "device \<Rightarrow> bool" where
  "clock_ready D \<longleftrightarrow> settles D (reg LPC_SC ''SCS'') (\<lambda>v. v AND 0x40 \<noteq> 0)
     \<and> settles D (reg LPC_SC ''PLL0STAT'') (\<lambda>v. v AND 0x4000000 \<noteq> 0)
     \<and> settles D (reg LPC_SC ''PLL0STAT'') (\<lambda>v. v AND 0x3000000 \<noteq> 0)"

text \<open>The system stands: the invariant of the stack holds with \<open>n\<close> bytes of heap left, the protocols and
  tick functions are registered, the receive descriptors point to buffers, every thread waits on the
  run queue to be entered for the first time, the idle task likewise beside it; nothing runs yet.\<close>

definition system_ready :: "linker \<Rightarrow> 'a net_scheme \<Rightarrow> ledger \<Rightarrow> nat \<Rightarrow> bool" where
  "system_ready lk s K n \<longleftrightarrow> net_ok s K n \<and> \<not> primask s
     \<and> protocol_head s = [TCP, UDP, IPV4, ETHERNET, ARP] \<and> tick_work s = [TCP_TICK, ARP_TICK]
     \<and> (\<exists>ps ls. rx_desc s = map (\<lambda>p. (p, 0x8000007E)) ps \<and> length ps = 12 \<and> length ls = 12 \<and> distinct ps
          \<and> (\<forall>l \<in> set ls. 127 \<le> l) \<and> buffers ps ls \<subseteq> K)
     \<and> ether_addr s = [0, 1, 2, 3, 4, 5] \<and> rx_consume_index s = 0 \<and> tx_produce_index s = 0
     \<and> list_all2 (thread_ready s K) (idle_tsk s # rev (runqueue s)) (addr_idle_task s # lk_threads lk)
     \<and> idle_tsk s \<notin> set (runqueue s) \<and> current_tsk s = 0 \<and> psp s = 0
     \<and> all_waits s = [] \<and> pkt_rx_q s = [] \<and> ether_tx_queue s = [] \<and> ip4_tx_queue s = [] \<and> arp_table_head s = []
     \<and> arp_pending_requests s = [] \<and> udp_rx_requests s = [] \<and> tcb_head s = [] \<and> current_frame s = 0"

lemma init_clocking_ok: "clock_ready D \<Longrightarrow> \<exists>a. init_clocking D s = Some (logged s a)"
  using init_clocking_log [of D s] unfolding clock_ready_def by blast

lemma arp_init_eq:
  "ARP_TICK \<notin> set (tick_work s) \<Longrightarrow> ARP \<notin> set (protocol_head s) \<Longrightarrow>
   arp_init s = Some (s\<lparr>tick_work := ARP_TICK # tick_work s, protocol_head := ARP # protocol_head s\<rparr>)"
  by (simp add: arp_init_def tick_add_work_fn_def protocol_register_def irq_defs)

lemma tcp_init_eq:
  "TCP_TICK \<notin> set (tick_work s) \<Longrightarrow> TCP \<notin> set (protocol_head s) \<Longrightarrow>
   tcp_init s = Some (s\<lparr>tick_work := TCP_TICK # tick_work s, protocol_head := TCP # protocol_head s\<rparr>)"
  by (simp add: tcp_init_def tick_add_work_fn_def protocol_register_def irq_defs)

lemma tick_init_ok: "\<exists>a. tick_init s = logged s a"
proof -
  let ?w = "[(reg LPC_TIM0 ''PR'', 0), (reg LPC_TIM0 ''MR0'', of_int \<lfloor>TIMER_COUNTER_INIT_VALUE\<rfloor>),
     (reg LPC_TIM0 ''TC'', 0), (reg LPC_TIM0 ''PC'', 0), (reg LPC_TIM0 ''MCR'', 0x3),
     (reg LPC_NVIC ''ISER0'', 0x2), (reg LPC_TIM0 ''TCR'', 0x1)]"
  have "list_all (\<lambda>w. plain (fst w)) ?w" by (simp add: plain_def)
  from reg_writes_logged [OF this] show ?thesis unfolding tick_init_def by blast
qed

lemma net_ok_tick_cong [simp]: "net_ok (s\<lparr>tick_work := q\<rparr>) L n = net_ok s L n"
  by (rule iffI; rule net_ok_same, assumption) (simp_all add: all_waits_def)

lemma call_initcalls_append:
  "call_initcalls lk D (xs @ ys) s = do { s \<leftarrow> call_initcalls lk D xs s; call_initcalls lk D ys s }"
proof (induction xs arbitrary: s)
  case (Cons x xs)
  then show ?case by (cases "run_initcall lk D x s") simp_all
qed simp

text \<open>The initcalls, in link order, on a system with a heap and empty statics.\<close>

lemma call_initcalls_ok:
  assumes ok: "net_ok s {} (n + 12 * block_size_of 127)" and n: "n = 0 \<or> 16 \<le> n"
    and phy: "\<forall>t :: 'a board_scheme. phy_ready D t" and d: "length (rx_desc s) = 12"
    and e: "tick_work s = []" "protocol_head s = []"
  shows "\<exists>a mem ps ls. call_initcalls lk D link_order (s :: 'a board_scheme) = Some ((logged s a)\<lparr>ram := mem,
      tick_work := [TCP_TICK, ARP_TICK], protocol_head := [TCP, UDP, IPV4, ETHERNET, ARP],
      rx_desc := map (\<lambda>p. (p, 0x8000007E)) ps, ether_addr := [0, 1, 2, 3, 4, 5], rx_consume_index := 0, tx_produce_index := 0\<rparr>)
    \<and> length ps = 12 \<and> length ls = 12 \<and> distinct ps \<and> (\<forall>l \<in> set ls. 127 \<le> l) \<and> net_ok (s\<lparr>ram := mem\<rparr>) (buffers ps ls) n"
proof -
  let ?s1 = "s\<lparr>tick_work := [ARP_TICK], protocol_head := [ETHERNET, ARP]\<rparr>"
  have ok1: "net_ok ?s1 {} (n + 12 * block_size_of 127)" using ok by simp
  have phy1: "phy_ready D ?s1" using phy by blast
  have d1: "length (rx_desc ?s1) = 12" using d by simp
  obtain a mem ps ls where em: "emac_init lk D ?s1 = Some ((logged ?s1 a)\<lparr>ram := mem, rx_desc := map (\<lambda>p. (p, 0x8000007E)) ps,
      ether_addr := [0, 1, 2, 3, 4, 5], rx_consume_index := 0, tx_produce_index := 0\<rparr>)"
    "length ps = 12" "length ls = 12" "distinct ps" "\<forall>l \<in> set ls. 127 \<le> l" "net_ok (?s1\<lparr>ram := mem\<rparr>) (buffers ps ls \<union> {}) n"
    using emac_init_ok [OF ok1 n phy1 d1, of lk] by (elim exE conjE) (rule that)
  let ?s2 = "(logged ?s1 a)\<lparr>ram := mem, rx_desc := map (\<lambda>p. (p, 0x8000007E)) ps,
      ether_addr := [0, 1, 2, 3, 4, 5], rx_consume_index := 0, tx_produce_index := 0\<rparr>"
  obtain t where t: "tick_init ?s2 = logged ?s2 t" using tick_init_ok by blast
  have 1: "call_initcalls lk D [ARP_INIT, ETHERNET_INIT] s = Some ?s1"
    using e by (simp add: run_initcall_def arp_init_eq ethernet_init_def protocol_register_def)
  have 2: "call_initcalls lk D [IPV4_INIT, UDP_INIT, TCP_INIT] (logged ?s2 t) = Some ((logged s (a @ t))\<lparr>ram := mem,
      tick_work := [TCP_TICK, ARP_TICK], protocol_head := [TCP, UDP, IPV4, ETHERNET, ARP],
      rx_desc := map (\<lambda>p. (p, 0x8000007E)) ps, ether_addr := [0, 1, 2, 3, 4, 5], rx_consume_index := 0, tx_produce_index := 0\<rparr>)"
    by (simp add: run_initcall_def tcp_init_eq ipv4_init_def udp_init_def protocol_register_def logged_def)
  have "call_initcalls lk D link_order s = call_initcalls lk D [IPV4_INIT, UDP_INIT, TCP_INIT] (logged ?s2 t)"
    using call_initcalls_append [of lk D "[ARP_INIT, ETHERNET_INIT]" "[EMAC_INIT, TICK_INIT, IPV4_INIT, UDP_INIT, TCP_INIT]" s]
    by (simp add: 1 link_order_def run_initcall_def em(1) t del: call_initcalls.simps)
       (simp add: run_initcall_def em(1) t)
  moreover have "net_ok (s\<lparr>ram := mem\<rparr>) (buffers ps ls) n"
    by (rule net_ok_same [OF em(6) [unfolded Un_empty_right]]) (simp_all add: all_waits_def)
  ultimately show ?thesis using 2 em(2-5)
    by (intro exI [of _ "a @ t"] exI [of _ mem] exI [of _ ps] exI [of _ ls]) simp
qed

text \<open>The heap that \<open>mem_setup\<close> makes, under statics with empty lists.\<close>

lemma mem_setup_net:
  assumes "fl_ok (mem_free_list s)"
  obtains m where "mem_setup (init_statics s) = (init_statics s)\<lparr>ram := m\<rparr>" "net_ok ((init_statics s)\<lparr>ram := m\<rparr>) {} 32768"
proof -
  have fl: "mem_free_list (init_statics s) = mem_free_list s" by (simp add: init_statics_def)
  let ?m = "ram (mem_setup (init_statics s))"
  have eq: "mem_setup (init_statics s) = (init_statics s)\<lparr>ram := ?m\<rparr>" by (simp add: mem_setup_def Let_def)
  have "heap_inv ?m (mem_free_list s) [(heap_size, False)] [heap_base]"
    using mem_setup_rel [of "init_statics s"] assms by (simp add: heap_inv_def fl)
  then have "heap_room ((init_statics s)\<lparr>ram := ?m\<rparr>) {} 32768"
    unfolding heap_room_def by (intro exI conjI) (auto simp: live_def has_room_def heap_size_def fl)
  then have "net_ok ((init_statics s)\<lparr>ram := ?m\<rparr>) {} 32768"
    by (simp add: net_ok_def sched_inv_def waits_ok_def queued_def all_waits_def) (simp add: init_statics_def)
  with eq show thesis by (rule that)
qed

end
