(* ===== verification/Startup_Properties.thy ===== *)
theory Startup_Properties
  imports Startup_Correct
begin

text \<open>
  The properties of the start-up: the clock set-up ends, the system that the network properties start
  from stands, and what a timer tick does that comes before the first process.
\<close>

unbundle bit_operations_syntax

text \<open>C27: when the oscillator starts and the PLL locks and is switched on, each at any later time,
  \<open>init_clocking\<close> returns. Its accesses to the registers, reads included, are these: the oscillator is
  switched on; SCS is read until bit 6 is set; clock source, divider and PLL are set up and the PLL is enabled,
  each time with the feed sequence; PLL0STAT is read until bit 26, the lock, is set; only then the PLL is connected, with
  the feed sequence; and PLL0STAT is read until one of the bits "enabled" and "connected" is set.\<close>

theorem init_clocking_returns:
  assumes osc: "settles D (reg LPC_SC ''SCS'') (\<lambda>v. v AND 0x40 \<noteq> 0)"
    and lock: "settles D (reg LPC_SC ''PLL0STAT'') (\<lambda>v. v AND 0x4000000 \<noteq> 0)"
    and on: "settles D (reg LPC_SC ''PLL0STAT'') (\<lambda>v. v AND 0x3000000 \<noteq> 0)"
  shows "\<exists>p1 p2 p3. init_clocking D s = Some (logged s ([Wr 0x400FC1A0 0x20] @ p1
       @ map (\<lambda>(r, v). Wr r v) ([(0x400FC10C, 0x1), (0x400FC104, 0x2), (0x400FC084, 0x10018)] @ feed @ [(0x400FC080, 0x1)] @ feed) @ p2
       @ map (\<lambda>(r, v). Wr r v) ([(0x400FC080, 0x3)] @ feed) @ p3))
     \<and> polls 0x400FC1A0 (\<lambda>v. bit v 6) p1 \<and> polls 0x400FC088 (\<lambda>v. bit v 26) p2
     \<and> polls 0x400FC088 (\<lambda>v. bit v 24 \<or> bit v 25) p3"
  using init_clocking_log [OF assms, of s] unfolding clocking_log_def by blast

text \<open>C5: from any contents of the RAM and the registers, on hardware whose oscillator, PLL and PHY come up
  at some time, with the initcalls linked as the Makefile does and a heap large enough for the threads,
  \<open>_start\<close> reaches the point where interrupts are enabled, and the system is then ready.\<close>

theorem system_starts:
  fixes s :: "'a board_scheme"
  assumes clock: "clock_ready D" and phy: "\<forall>t :: 'a board_scheme. phy_ready D t" and order: "lk_initcalls lk = link_order"
    and fl: "fl_ok (mem_free_list s)" and n: "n = 0 \<or> 16 \<le> n"
    and room: "n + Suc (length (lk_threads lk)) * process_demand + 12 * block_size_of 127 \<le> 32768"
  shows "\<exists>s' K. start lk D s = Some s' \<and> system_ready lk s' K n"
proof -
  define s1 where "s1 = s\<lparr>ram := zero_bss (lk_sbss lk) (lk_ebss lk) (copy_data (lk_etext lk) (lk_sdata lk) (lk_edata lk) (ram s))\<rparr>"
  obtain a1 where a1: "init_clocking D (init_statics s1) = Some (logged (init_statics s1) a1)"
    using init_clocking_ok [OF clock] by blast
  have st: "logged (init_statics s1) a1 = init_statics (logged s1 a1)" by (simp add: logged_def init_statics_def)
  have fl1: "fl_ok (mem_free_list (logged s1 a1))" using fl by (simp add: s1_def logged_def)
  obtain m1 where m1: "mem_setup (init_statics (logged s1 a1)) = (init_statics (logged s1 a1))\<lparr>ram := m1\<rparr>"
    "net_ok ((init_statics (logged s1 a1))\<lparr>ram := m1\<rparr>) {} 32768"
    by (rule mem_setup_net [OF fl1])
  let ?s2 = "(init_statics (logged s1 a1))\<lparr>ram := m1\<rparr>"
  let ?n = "n + Suc (length (lk_threads lk)) * process_demand"
  have ok2: "net_ok ?s2 {} (?n + 12 * block_size_of 127)" by (rule net_ok_mono [OF m1(2) room])
  have n2: "?n = 0 \<or> 16 \<le> ?n" by (simp add: process_demand_def block_size_of_def)
  have e: "length (rx_desc ?s2) = 12" "tick_work ?s2 = []" "protocol_head ?s2 = []" by (simp_all add: init_statics_def DESC_LEN_def)
  obtain a2 m2 ps ls where c: "call_initcalls lk D link_order ?s2 = Some ((logged ?s2 a2)\<lparr>ram := m2,
      tick_work := [TCP_TICK, ARP_TICK], protocol_head := [TCP, UDP, IPV4, ETHERNET, ARP],
      rx_desc := map (\<lambda>p. (p, 0x8000007E)) ps, ether_addr := [0, 1, 2, 3, 4, 5], rx_consume_index := 0, tx_produce_index := 0\<rparr>)"
    "length ps = 12" "length ls = 12" "distinct ps" "\<forall>l \<in> set ls. 127 \<le> l" "net_ok (?s2\<lparr>ram := m2\<rparr>) (buffers ps ls) ?n"
    using call_initcalls_ok [OF ok2 n2 phy e, of lk] by (elim exE conjE) (rule that)
  let ?s3 = "(logged ?s2 a2)\<lparr>ram := m2, tick_work := [TCP_TICK, ARP_TICK], protocol_head := [TCP, UDP, IPV4, ETHERNET, ARP],
      rx_desc := map (\<lambda>p. (p, 0x8000007E)) ps, ether_addr := [0, 1, 2, 3, 4, 5], rx_consume_index := 0, tx_produce_index := 0\<rparr>"
  have ok3: "net_ok ?s3 (buffers ps ls) (n + Suc (length (lk_threads lk)) * process_demand)"
    by (rule net_ok_same [OF c(6)]) (simp_all add: logged_def all_waits_def)
  have q: "runqueue ?s3 = []" "waitqueue ?s3 = []" "deadqueue ?s3 = []" "current_tsk ?s3 = 0"
    by (simp_all add: logged_def init_statics_def)
  obtain m3 pr qs idle K where p: "process_init (lk_threads lk) ?s3 = Some (?s3\<lparr>ram := m3, procs := pr, runqueue := rev qs, idle_tsk := idle, psp := 0\<rparr>)"
    "net_ok (?s3\<lparr>ram := m3, procs := pr, runqueue := rev qs, idle_tsk := idle, psp := 0\<rparr>) K n" "buffers ps ls \<subseteq> K" "idle \<notin> set qs"
    "list_all2 (thread_ready (?s3\<lparr>ram := m3, procs := pr, runqueue := rev qs, idle_tsk := idle, psp := 0\<rparr>) K) (idle # qs) (addr_idle_task ?s3 # lk_threads lk)"
    using process_init_ok [OF ok3 n q] by (elim exE conjE) (rule that)
  let ?s4 = "?s3\<lparr>ram := m3, procs := pr, runqueue := rev qs, idle_tsk := idle, psp := 0\<rparr>"
  have run: "start lk D s = Some (cpsie ?s4)"
    unfolding start_def by (simp add: s1_def [symmetric] a1 st m1(1) order c(1) p(1) del: fun_upd_apply)
  have "list_all2 (thread_ready (cpsie ?s4) K) (idle # qs) (addr_idle_task ?s3 # lk_threads lk)"
    using p(5) by (rule list_all2_mono) (simp add: thread_ready_def cpsie_def)
  moreover have "net_ok (cpsie ?s4) K n" using p(2) by (simp add: cpsie_def)
  ultimately have "system_ready lk (cpsie ?s4) K n"
    unfolding system_ready_def using c(2-5) p(3,4)
    by (simp add: cpsie_def logged_def init_statics_def all_waits_def) blast
  with run show ?thesis by blast
qed

subsection \<open>A board that starts\<close>

definition ready_device :: device where
  "ready_device h r = (if r = 0x50000030 then 0x15 else if r = 0x50000034 then 0 else 0x07000040)"

definition example_linker :: linker where
  "example_linker = \<lparr>lk_etext = 0x4000, lk_sdata = 0x10000000, lk_edata = 0x10000010, lk_sbss = 0x10000010, lk_ebss = 0x10000800,
     lk_rx_desc = 0x10000200, lk_tx_desc = 0x10000280, lk_tx_status = 0x10000300, lk_rx_status = 0x10000340,
     lk_initcalls = link_order, lk_threads = [0x1001, 0x1101, 0x1201, 0x1301]\<rparr>"

definition reset_board :: board where
  "reset_board = net.extend boot_net \<lparr>accesses = []\<rparr>"

lemma ready_clock: "clock_ready ready_device"
  unfolding clock_ready_def settles_def by (intro conjI allI exI [of _ 0]) (simp_all add: ready_device_def)

lemma ready_phy: "phy_ready ready_device t"
proof -
  have mii: "mii_settles ready_device"
    unfolding settles_def by (intro allI exI [of _ 0]) (simp add: ready_device_def)
  have "\<exists>b. phy_read ready_device r t = Some (0x15, b)" for r and t :: "'b board_scheme"
    unfolding phy_read_def wait_reg_def
    by (subst wait_until.simps) (simp add: reg_read_logged Let_def ready_device_def)
  then have "phy_settles ready_device r stop t" if "stop 0x15" for r stop
    unfolding phy_settles_def using that by (intro allI exI [of _ 0]) (auto, blast)
  with mii show ?thesis by (simp add: phy_ready_def)
qed

lemma system_starts_witness:
  "\<exists>s' K. start example_linker ready_device reset_board = Some s' \<and> system_ready example_linker s' K 20000"
proof (rule system_starts [OF ready_clock])
  show "\<forall>t :: board. phy_ready ready_device t" using ready_phy by blast
  show "fl_ok (mem_free_list reset_board)"
    by (simp add: reset_board_def net.defs boot_net_def fl_ok_def aligned4_def heap_base_def heap_size_def)
qed (simp_all add: example_linker_def process_demand_def block_size_of_def)

lemma init_clocking_returns_witness:
  "\<exists>a. init_clocking ready_device reset_board = Some (logged reset_board a) \<and> take 2 (writes a) = [(0x400FC1A0, 0x20), (0x400FC10C, 0x1)]
    \<and> (\<exists>v. bit v 26 \<and> Rd 0x400FC088 v \<in> set a)"
proof -
  obtain p1 p2 p3 where p: "init_clocking ready_device reset_board = Some (logged reset_board ([Wr 0x400FC1A0 0x20] @ p1
       @ map (\<lambda>(r, v). Wr r v) ([(0x400FC10C, 0x1), (0x400FC104, 0x2), (0x400FC084, 0x10018)] @ feed @ [(0x400FC080, 0x1)] @ feed) @ p2
       @ map (\<lambda>(r, v). Wr r v) ([(0x400FC080, 0x3)] @ feed) @ p3))" "polls 0x400FC1A0 (\<lambda>v. bit v 6) p1" "polls 0x400FC088 (\<lambda>v. bit v 26) p2"
    using init_clocking_returns [of ready_device reset_board] ready_clock unfolding clock_ready_def by blast
  obtain v where "bit v 26" "Rd 0x400FC088 v \<in> set p2" using p(3) by (auto simp: polls_def)
  with p(1) polls_writes [OF p(2)] show ?thesis by (intro exI conjI) (assumption | simp)+
qed

subsection \<open>A tick that comes too early\<close>

text \<open>C38: the processor leaves reset with interrupts enabled and \<open>_start\<close> does not mask them. When the
  initcalls have run, the timer counts, but \<open>process_init\<close> has not created a process yet: a timer
  interrupt in this state asks for a context switch for which there is no process, not even the idle
  task, and PendSV goes through the NULL pointer.\<close>

theorem early_tick_faults:
  fixes s :: "'a board_scheme"
  assumes ok: "net_ok s {} (n + 12 * block_size_of 127)" and n: "n = 0 \<or> 16 \<le> n"
    and phy: "\<forall>t :: 'a board_scheme. phy_ready D t" and d: "length (rx_desc s) = 12"
    and e: "tick_work s = []" "protocol_head s = []"
    and none: "runqueue s = []" "idle_tsk s = 0" "current_tsk s = 0" "arp_pending_requests s = []" "tcb_head s = []"
  shows "\<exists>s' s''. call_initcalls lk D link_order s = Some s' \<and> primask s' = primask s
    \<and> irq_timer0 tick_call s' = Some s'' \<and> pendsv s'' \<and> irq_pendsv s'' = None"
proof -
  obtain a mem ps ls where c: "call_initcalls lk D link_order s = Some ((logged s a)\<lparr>ram := mem,
      tick_work := [TCP_TICK, ARP_TICK], protocol_head := [TCP, UDP, IPV4, ETHERNET, ARP],
      rx_desc := map (\<lambda>p. (p, 0x8000007E)) ps, ether_addr := [0, 1, 2, 3, 4, 5], rx_consume_index := 0, tx_produce_index := 0\<rparr>)"
    using call_initcalls_ok [OF ok n phy d e, of lk] by (elim exE conjE) (rule that)
  let ?s = "(logged s a)\<lparr>ram := mem,
      tick_work := [TCP_TICK, ARP_TICK], protocol_head := [TCP, UDP, IPV4, ETHERNET, ARP],
      rx_desc := map (\<lambda>p. (p, 0x8000007E)) ps, ether_addr := [0, 1, 2, 3, 4, 5], rx_consume_index := 0, tx_produce_index := 0\<rparr>"
  let ?t = "?s\<lparr>timer0_irq_wakeups := timer0_irq_wakeups s + 1, pendsv := True\<rparr>"
  have "irq_timer0 tick_call ?s = Some ?t"
    using none by (simp add: irq_timer0_def irq_defs tcp_tick_def arp_tick_def logged_def)
  moreover have "irq_pendsv ?t = None"
    using none by (simp add: irq_pendsv_def pick_new_task_def stop_current_def irq_defs logged_def Let_def)
  moreover have "primask ?s = primask s" by (simp add: logged_def)
  ultimately show ?thesis using c by (intro exI conjI) (assumption | simp)+
qed

lemma early_tick_faults_witness:
  "\<exists>(s :: board) s' s''. \<not> primask s \<and> call_initcalls example_linker ready_device link_order s = Some s'
    \<and> \<not> primask s' \<and> irq_timer0 tick_call s' = Some s'' \<and> irq_pendsv s'' = None"
proof (rule mem_setup_net [of reset_board])
  show "fl_ok (mem_free_list reset_board)"
    by (simp add: reset_board_def net.defs boot_net_def fl_ok_def aligned4_def heap_base_def heap_size_def)
  fix m assume m: "net_ok ((init_statics reset_board)\<lparr>ram := m\<rparr>) {} 32768"
  let ?s = "(init_statics reset_board)\<lparr>ram := m\<rparr>"
  have ok: "net_ok ?s {} (0 + 12 * block_size_of 127)" by (rule net_ok_mono [OF m]) (simp add: block_size_of_def)
  have f: "length (rx_desc ?s) = 12" "tick_work ?s = []" "protocol_head ?s = []" "runqueue ?s = []" "idle_tsk ?s = 0"
    "current_tsk ?s = 0" "arp_pending_requests ?s = []" "tcb_head ?s = []"
    by (simp_all add: init_statics_def DESC_LEN_def)
  have p: "\<not> primask ?s" by (simp add: init_statics_def reset_board_def net.defs boot_net_def)
  have phy: "\<forall>t :: board. phy_ready ready_device t" using ready_phy by blast
  have "\<exists>s' s''. \<not> primask ?s \<and> call_initcalls example_linker ready_device link_order ?s = Some s'
    \<and> \<not> primask s' \<and> irq_timer0 tick_call s' = Some s'' \<and> irq_pendsv s'' = None"
    using early_tick_faults [OF ok disjI1 [OF refl] phy f, of example_linker] p by auto
  then show ?thesis by (rule exI)
qed

end
