(* ===== verification/Spec2Isabelle.thy ===== *)
theory Spec2Isabelle
  imports Sched_Properties Byteswap Ethernet_Properties Ipv4_Properties Udp_Properties Arp_Properties Ipv4_Tx
    Tcp_Runs Emac_Properties Startup_Properties
begin

text \<open>
  lpc17xx-network is a small operating system with a network stack for the NXP LPC17xx (ARM
  Cortex-M3): a heap allocator, a round-robin scheduler with wait queues, a driver for the on-chip
  Ethernet MAC, and ARP, IPv4, UDP and TCP on top of it. This development models all of its C code and
  the context switch, and proves what the parts do, alone and together.

  \<^bold>\<open>The program.\<close> After reset \<open>_start\<close> (init.c) copies the data section, sets up the clock, the heap
  (memory.c) and, through a table of initcalls, every subsystem, and makes a process of every thread
  (process.c). The timer interrupt (tick.c) runs the tick functions of ARP and TCP and asks for a context switch. A
  received fragment raises the interrupt of the MAC (emac.c), which gathers the frame and puts a packet
  in a queue (protocol.c); the thread \<open>rx_task\<close> takes it from there and passes it from handler to handler
  (ethernet.c, arp.c, ipv4.c, udp.c, tcp.c) until one of them marks it for dropping. Transmission goes the other
  way: \<open>tcp_tx\<close> and \<open>udp_tx\<close> hand a payload to \<open>ip4_xmit_packet\<close>, which queues it for the thread
  \<open>ip4_tx_task\<close>; that thread resolves the next hop with ARP, builds the header and hands the packet to \<open>ether_tx\<close>, which queues a
  frame for \<open>ether_tx_task\<close>, which gives it to the MAC. A thread that waits sleeps on a wait
  queue (wait.c); all components share the heap, the lists (list.c) and the interrupt mask (irq.h).

  \<^bold>\<open>State.\<close> The state is one record that grows with the layers: \<open>machine\<close> (\<open>Machine\<close>: interrupt mask, RAM
  as a function from addresses to bytes, the head of the free list), \<open>sched\<close> (\<open>Process\<close>: the processes, the
  three queues of the scheduler, stack pointer and registers), \<open>net\<close> (\<open>Net\<close>: the statics and objects of the
  network stack, the descriptors of the MAC) and \<open>board\<close> (\<open>Device\<close>: the log of the register accesses).
  Operations are polymorphic in the extension, so that an operation of a lower layer is used unchanged
  above. Machine integers are words of their width (\<open>u8\<close>, \<open>u16\<close>, \<open>u32\<close>) and wrap around as in C.
  What the code keeps as raw bytes (the heap with its boundary tags and free list, stacks, frames,
  payloads, circular buffers) is in the RAM; what it accesses by field name only (TCBs, queue elements,
  processes, listeners) is a record at an address, whose memory is an allocation of the same heap. A list of such objects is the
  list of their addresses: \<open>Linked_List\<close> proves on the RAM that the list code implements that view, and an
  operation that would link a linked node or unlink a free one is \<open>None\<close>. Objects on a stack have an address that the
  operation gets as an argument.

  \<^bold>\<open>Effects.\<close> An operation that can fail to return, or that goes through a NULL pointer, is in the option monad and is \<open>None\<close> there: the
  allocator that masks interrupts and branches to itself when nothing fits, the same branch in
  \<open>tcp_rx_packet\<close> in CLOSE_WAIT, and busy loops on registers that never change. Errors that
  the code reports are values (\<open>udp_rx\<close> returns -EINUSE, \<open>tcp_connect\<close> NULL, \<open>tcp_rx_data\<close> -1). A blocking call is split at its
  waits: one definition up to the wait and one for a turn of the waiting loop, which says whether the
  caller goes on; a thread is given by the turn of its loop. Interrupt handlers are operations of their own;
  \<open>irq_disable\<close> and \<open>irq_enable\<close> keep the mask. Loops are structural where they run over a list,
  recursive with a measure where they count (\<open>copy_data\<close>, \<open>zero_bss\<close>, \<open>fold_carry\<close>), and
  \<open>partial_function (option)\<close> where they may not end (the search of the free list, \<open>rx_process\<close>, \<open>irq_enet\<close>, \<open>wait_until\<close>);
  no fuel is used. A claim that such a loop ends is proved as one (\<open>get_mem_refines\<close>,
  \<open>init_clocking_returns\<close>, \<open>udp_frame_received\<close>, \<open>system_starts\<close>).
\<close>

text \<open>
  \<^bold>\<open>Theories and sources.\<close>

  \<^item> \<open>Prelude\<close>: words, memory, little-endian loads and stores. \<open>Machine\<close>: irq.h.
  \<^item> \<open>Linked_List\<close>: list.c and the macros of list.h on the RAM; \<open>dlist m h ns\<close> says that the list at \<open>h\<close> has
    the nodes \<open>ns\<close>. The locale \<open>list_interface\<close> is what the clients use.
  \<^item> \<open>Memory\<close>: memory.c. \<open>Heap_Layout\<close> and \<open>Memory_Proofs\<close>: the abstract heap, a sequence of
    blocks, and its representation; \<open>Memory_Correct\<close>: \<open>heap_inv\<close> and the refinement of first-fit allocation and of
    release with coalescing; \<open>Heap_Properties\<close>. \<open>Heap_Interface\<close>: the view of the clients, a
    ledger of live buffers \<open>(address, size)\<close>, as the locale \<open>heap_interface\<close>.
  \<^item> \<open>Process\<close>: process.c, context.s, wait.c and wait.h. \<open>Process_Correct\<close>: \<open>sched_inv\<close>, what every operation does to
    the queues, the stack of a new process; \<open>Sched_Properties\<close>.
  \<^item> \<open>Cbuf\<close>: cbuf.c; \<open>cb_rep\<close> and the locale \<open>byte_fifo\<close>. \<open>Byteswap\<close>: byteswap.c. \<open>Codec\<close>: the packed headers of
    ethernet.h, arp.h, ipv4.h, udp.h and tcp.h as records with the bytes that represent them. \<open>Checksum\<close>: the one's complement sum.
  \<^item> \<open>Net\<close>: the state of the stack; \<open>net_ok s L n\<close>, the invariant of the system: scheduler and heap are sound, \<open>L\<close> are the live buffers,
    requests that need \<open>n\<close> bytes of blocks can be met, and every sleeper is on one wait queue. Its locale
    \<open>wait_queue\<close> says what waking one of the six wait queues of the stack does to the system; \<open>keeps s s' L\<close>: the bytes of
    the buffers \<open>L\<close> are the same in both states. \<open>Boot\<close>: a concrete state for the witnesses.
  \<^item> \<open>Protocol\<close>, \<open>Rx_Task\<close>: protocol.c. \<open>Tick\<close>: tick.c. \<open>Emac\<close>, \<open>Emac_Properties\<close>: emac.c.
    \<open>Ethernet\<close>, \<open>Ethernet_Properties\<close>: ethernet.c. \<open>Arp\<close>, \<open>Arp_Properties\<close>: arp.c. \<open>Ipv4\<close>, \<open>Ipv4_Properties\<close>,
    \<open>Ipv4_Tx\<close>: ipv4.c. \<open>Udp\<close>, \<open>Udp_Properties\<close>: udp.c. \<open>Tcp\<close>, \<open>Tcp_Tx\<close>, \<open>Tcp_Properties\<close>, \<open>Tcp_States\<close>, \<open>Tcp_Runs\<close>: tcp.c.
    \<open>Receive\<close>: the receive path through all layers.
  \<^item> \<open>Register_Map\<close>: lpc17xx.h and lpc17xx.c, every struct as a list of members with sizes. \<open>Device\<close>: register
    accesses and the PHY; the hardware is a function from the accesses so far to the value of the next
    read, and an argument of the operations. \<open>Startup\<close>: init.c, \<open>emac_init\<close>, \<open>tick_init\<close>, main.c; what the linker script
    decides is the record \<open>linker\<close>. \<open>Device_Correct\<close>, \<open>Startup_Correct\<close>, \<open>Startup_Properties\<close>.

  \<^bold>\<open>What is shown.\<close>

  \<^item> Lists, heap, scheduler: the C code implements the abstract operations (sequences of nodes, of blocks, of
    processes), keeps its invariants, and hangs exactly when the heap is full; buffers of a well-behaved client never overlap; a process
    is on one queue that agrees with its state, its memory comes back, its registers survive a switch.
  \<^item> Start-up: \<open>_start\<close> ends, on hardware that answers, in a state in which the invariant of the
    whole system holds. The log of the register accesses of the clock set-up is stated in full, reads included: the PLL is
    connected after its lock has been read.
  \<^item> Transmission: a segment or packet reaches the MAC as a frame with complete headers and valid checksums, and all memory it used
    is given back. Reception: a frame is gathered, queued, and passed on; a UDP payload reaches the buffers of all listeners on its port, a TCP payload the
    receive buffer of its connection, ARP requests are answered and ARP replies wake who waits for them.
  \<^item> TCP: handshake of a listener, data in both directions, the end of a connection, TIME_WAIT; every
    segment in every state (CLOSE_WAIT apart), with any data offset as long as packet and header bytes lie in the frame (\<open>tcp_frame\<close>), keeps the
    table of connections well-formed (\<open>tcp_ok\<close>) and moves its connection along the
    state diagram of RFC 793 (\<open>rfc793\<close>) or by one of the steps that \<open>strays\<close> names: the code does not look at the acknowledgement
    number in SYN_SENT, SYN_RECEIVED and CLOSING, and closes a connection in SYN_SENT on anything but a SYN with ACK. The edges it
    does not take are \<open>omits\<close>: LAST_ACK has no case, FIN_WAIT2 wants the ACK flag. \<open>tcp_runs_safe\<close> puts the operations of tcp.c together: a run (\<open>tcp_run\<close>) is any
    sequence of segments, ticks and calls with steps of the rest of the system in between that leave the memory of TCP alone (\<open>elsewhere\<close>); system and table
    are sound in all its states. A call that sleeps is such a step; the turn of its wait is an event once it is over.
  \<^item> Error behaviour: where the code does not do what it means to, the theorem states what it does: spliced lists, requests near
    \<open>2 ^ 32\<close>, a wake-up before the switch (the model has no list with a node linked twice, so
    \<open>wakeup_before_switch\<close> states on the RAM what the list code makes of it), frames sent in reverse order, second fragments at the wrong offset, ARP timeouts that wake
    nobody, segments in CLOSE_WAIT, segments in TIME_WAIT, IP header lengths that point behind
    the frame, ticks before the first process.

  \<^bold>\<open>Bounds.\<close> The heap is the 32 KiB array \<open>mem_heap\<close> of memory.c at the address that linker.ld gives it; \<open>request_ok\<close> (not 0, at most \<open>2 ^ 32 - 12\<close>) is what the size
  computation of \<open>get_mem\<close> can represent. Payloads are bounded by 2048 bytes where a descriptor of the MAC holds
  their length in 11 bits. Where an operation allocates, the premise \<open>net_ok s L (n + ...)\<close> asks for room for just the blocks that it needs.

  \<^bold>\<open>Not modelled.\<close> The exception entry of the processor (the hardware stacking of r0 to r3, r12, lr, pc and the status
  register) is outside \<open>context.s\<close>: the frame that a new process needs for it is modelled, its execution is not. The vector table in vectors.s
  is data. The acknowledgement of an interrupt at the end of a handler is where the model of the handler ends. The busy loop at the end of
  \<open>emac_xmit_frame\<close> (emac.c, line 216) is not modelled: the bytes that the MAC sends are recorded when the descriptors are handed
  over, and what is shown of a transmission supposes that the MAC finishes it; one that does not keeps the code in that loop. The compiler's padding and alignment matter only where the code overlays structs on
  bytes (list nodes, boundary tags, headers, registers); there they are written out.
\<close>

end
